(* ===== verification/Rpi_Prelude.thy ===== *)
theory Rpi_Prelude
  imports Main "HOL-Library.Word"
begin

text \<open>
  What every theory of the development shares: the fixed-width integer types of the C sources,
  the fact collections the proofs draw on, and the few generic lemmas on words and lists that the
  component theories use in their automation.
\<close>

unbundle bit_operations_syntax

subsection \<open>Machine integers\<close>

text \<open>
  An unsigned C integer of width \<open>w\<close> is a \<open>w word\<close>, whose arithmetic wraps around.  A signed
  one that is computed with is a word too and is read by \<open>sint\<close>.  The signed status codes and pin
  values of the drivers (\<open>s32\<close>, \<open>int\<close>, \<open>ssize_t\<close>) are only compared, stored and passed on, so
  they are plain integers.
\<close>

type_synonym u8 = "8 word"
type_synonym u16 = "16 word"
type_synonym u32 = "32 word"
type_synonym u64 = "64 word"
type_synonym i32 = "32 word"
type_synonym status = int

named_theorems exec_simps \<open>unfolding rules of the instruction interpreter\<close>
named_theorems frame_simps \<open>what an operation leaves unchanged\<close>
named_theorems inv_intros \<open>preservation of the component invariants\<close>

subsection \<open>Generic lemmas\<close>

lemma less_4_cases: "i < (4::nat) \<Longrightarrow> i = 0 \<or> i = 1 \<or> i = 2 \<or> i = 3"
  by arith

lemma list_update_Cons_numeral [simp]:
  "(x # xs)[numeral k := v] = x # xs[pred_numeral k := v]"
  by (simp add: numeral_eq_Suc)

lemma nth_last_or_butlast: "i < length xs \<Longrightarrow> xs ! i = last xs \<or> xs ! i \<in> set (butlast xs)"
  by (cases xs rule: rev_cases) (auto simp: nth_append)

lemma upt_0_4: "[0..<4] = [0, 1, 2, 3::nat]"
  by (simp add: upt_rec)

lemma sint_bounds_u64: "- (2 ^ 63) \<le> sint (x :: u64)" "sint (x :: u64) < 2 ^ 63"
  using sint_ge [of x] sint_lt [of x] by simp_all

lemma sint_diff_u64:
  fixes x y :: u64
  defines "d \<equiv> sint x - sint y"
  shows "sint (x - y) = (if d < - (2 ^ 63) then d + 2 ^ 64 else if d \<ge> 2 ^ 63 then d - 2 ^ 64 else d)"
proof -
  have e: "sint (x - y) = (d + 2 ^ 63) mod 2 ^ 64 - 2 ^ 63"
    by (simp add: sint_word_ariths d_def signed_take_bit_eq_take_bit_shift take_bit_eq_mod)
  have "- (2 ^ 64) < d" "d < 2 ^ 64"
    using sint_bounds_u64 [of x] sint_bounds_u64 [of y] by (simp_all add: d_def)
  then consider "d < - (2 ^ 63)" "0 \<le> d + 2 ^ 63 + 2 ^ 64" | "d \<ge> 2 ^ 63" "d - 2 ^ 63 < 2 ^ 64"
    | "- (2 ^ 63) \<le> d" "d < 2 ^ 63" by (cases "d < - (2 ^ 63)"; cases "d \<ge> 2 ^ 63") auto
  then show ?thesis
  proof cases
    case 1
    have "(d + 2 ^ 63) mod 2 ^ 64 = (d + 2 ^ 63 + 2 ^ 64) mod 2 ^ 64"
      by (simp only: mod_add_self2)
    also have "\<dots> = d + 2 ^ 63 + 2 ^ 64" using 1 by (intro mod_pos_pos_trivial) simp_all
    finally show ?thesis using 1 by (simp add: e)
  next
    case 2
    have "(d + 2 ^ 63) mod 2 ^ 64 = (d + 2 ^ 63 - 2 ^ 64) mod 2 ^ 64"
      by (simp only: minus_mod_self2)
    also have "\<dots> = d + 2 ^ 63 - 2 ^ 64" using 2 by (intro mod_pos_pos_trivial) simp_all
    finally show ?thesis using 2 by (simp add: e)
  next
    case 3
    then have "(d + 2 ^ 63) mod 2 ^ 64 = d + 2 ^ 63" by (intro mod_pos_pos_trivial) simp_all
    with 3 show ?thesis by (simp add: e)
  qed
qed

lemma same_somes:
  assumes "\<And>w. x = Some w \<longleftrightarrow> y = Some w"
  shows "x = y"
proof (cases x)
  case None
  then show ?thesis using assms [of "the y"] by (cases y) simp_all
next
  case (Some w)
  then show ?thesis using assms [of w] by simp
qed

text \<open>A signed counter that is incremented, and one that is decremented above its smallest value.\<close>

lemma sint_inc: "sint ((w :: i32) + 1) = (if sint w = 2 ^ 31 - 1 then - (2 ^ 31) else sint w + 1)"
proof (cases "sint w = 2 ^ 31 - 1")
  case True
  then show ?thesis by (simp add: sint_word_ariths)
next
  case False
  then have "- (2 ^ 31) \<le> sint w + 1" "sint w + 1 < 2 ^ 31"
    using sint_greater_eq [of w] sint_less [of w] by simp_all
  then show ?thesis using False by (simp add: sint_word_ariths signed_take_bit_int_eq_self)
qed

lemma sint_dec: "- (2 ^ 31) < sint (w :: i32) \<Longrightarrow> sint (w - 1) = sint w - 1"
  using sint_less [of w] by (simp add: sint_word_ariths signed_take_bit_int_eq_self)

lemma sint_small: "- (2 ^ 31) \<le> k \<Longrightarrow> k < 2 ^ 31 \<Longrightarrow> sint (word_of_int k :: i32) = k"
  by (simp add: signed_of_int signed_take_bit_int_eq_self)

end
