(* ===== verification/Uapi.thy ===== *)
theory Uapi
  imports Rpi_Prelude
begin

text \<open>
  The interface the kernel modules and the userspace program share (\<open>cpu_uapi.h\<close>): opcodes,
  register numbers, addressing modes, flag masks, execution results, and the structures that cross
  the two character devices.  The \<open>padding\<close> arrays of the structures carry no information and are
  left out.  A constant whose name is an operation of HOL's words or a common name gets a suffix
  or prefix.
\<close>

subsection \<open>Opcodes, registers, modes\<close>

abbreviation (input) ADD_OP :: u8 where "ADD_OP \<equiv> 0x00"
abbreviation (input) SUB_OP :: u8 where "SUB_OP \<equiv> 0x01"
abbreviation (input) AND_OP :: u8 where "AND_OP \<equiv> 0x02"
abbreviation (input) OR_OP :: u8 where "OR_OP \<equiv> 0x03"
abbreviation (input) NOT_OP :: u8 where "NOT_OP \<equiv> 0x04"
abbreviation (input) MOV_OP :: u8 where "MOV_OP \<equiv> 0x10"
abbreviation (input) CMP_OP :: u8 where "CMP_OP \<equiv> 0x20"
abbreviation (input) JMP_OP :: u8 where "JMP_OP \<equiv> 0x21"
abbreviation (input) JE_OP :: u8 where "JE_OP \<equiv> 0x22"
abbreviation (input) JG_OP :: u8 where "JG_OP \<equiv> 0x23"
abbreviation (input) JL_OP :: u8 where "JL_OP \<equiv> 0x24"

abbreviation (input) REG_0 :: u64 where "REG_0 \<equiv> 0x00"
abbreviation (input) REG_1 :: u64 where "REG_1 \<equiv> 0x01"
abbreviation (input) REG_2 :: u64 where "REG_2 \<equiv> 0x02"
abbreviation (input) REG_3 :: u64 where "REG_3 \<equiv> 0x03"

abbreviation (input) IMMEDIATE :: u8 where "IMMEDIATE \<equiv> 0x00"
abbreviation (input) REGISTER :: u8 where "REGISTER \<equiv> 0x01"
abbreviation (input) DIRECT_LOAD :: u8 where "DIRECT_LOAD \<equiv> 0x02"
abbreviation (input) DIRECT_STORE :: u8 where "DIRECT_STORE \<equiv> 0x03"
abbreviation (input) LABEL :: u8 where "LABEL \<equiv> 0x04"

subsection \<open>Flags\<close>

abbreviation (input) CF :: u16 where "CF \<equiv> 0x01"
abbreviation (input) AF :: u16 where "AF \<equiv> 0x10"
abbreviation (input) ZF :: u16 where "ZF \<equiv> 0x40"
abbreviation (input) SF :: u16 where "SF \<equiv> 0x80"
abbreviation (input) OF_FLAG :: u16 where "OF_FLAG \<equiv> 0x800"

subsection \<open>Instruction size and execution results\<close>

text \<open>One byte each for opcode, mode and operand 1, and eight for operand 2.\<close>

abbreviation (input) INSTR_SIZE :: "'a::numeral" where "INSTR_SIZE \<equiv> 11"

abbreviation (input) EXEC_SUCCESS :: status where "EXEC_SUCCESS \<equiv> 0"
abbreviation (input) EXEC_HALT :: status where "EXEC_HALT \<equiv> - 1"
abbreviation (input) EXEC_PENDING_MEM_READ :: status where "EXEC_PENDING_MEM_READ \<equiv> 1"
abbreviation (input) EXEC_PENDING_MEM_WRITE :: status where "EXEC_PENDING_MEM_WRITE \<equiv> 2"
abbreviation (input) EXEC_PENDING_MMIO_READ :: status where "EXEC_PENDING_MMIO_READ \<equiv> 3"

abbreviation (input) MMIO_HALT :: u64 where "MMIO_HALT \<equiv> 0xFFFF"

text \<open>The error numbers of Linux that the drivers return, negated, from their handlers.\<close>

abbreviation (input) ENOMEM :: status where "ENOMEM \<equiv> 12"
abbreviation (input) EFAULT :: status where "EFAULT \<equiv> 14"
abbreviation (input) ENODEV :: status where "ENODEV \<equiv> 19"
abbreviation (input) EINVAL :: status where "EINVAL \<equiv> 22"
abbreviation (input) ERESTARTSYS :: status where "ERESTARTSYS \<equiv> 512"

subsection \<open>Structures\<close>

record instruction =
  operand2 :: u64
  operand1 :: u8
  opcode :: u8
  mode :: u8

record write_value =
  wv_instruction :: instruction
  wv_val :: u64
  is_instruction :: u8

record read_value =
  rv_pc :: u64
  rv_mem_addr :: u64
  rv_val :: u64
  exec_return :: status

record mem_access =
  acc_addr :: u64
  acc_type :: u8

end
