(* ===== verification/Cpu_Core.thy ===== *)
theory Cpu_Core
  imports Uapi
begin

text \<open>
  The execution engine of the CPU driver (\<open>cpu_driver/cpu_emulator_driver.c\<close>): the register
  file, the comparison flags, the LEDs that show which registers an instruction changed, the
  memory-mapped addresses and \<open>execute_instruction\<close>, one definition per case of its switch.
  A register pointer is the index it points to, a null pointer is \<open>None\<close>.
\<close>

subsection \<open>State\<close>

abbreviation (input) NUM_LEDS :: nat where "NUM_LEDS \<equiv> 4"
abbreviation (input) MMIO_START :: u64 where "MMIO_START \<equiv> 0xFFF0"
abbreviation (input) MMIO_INPUT :: u64 where "MMIO_INPUT \<equiv> 0xFFFD"
abbreviation (input) MMIO_OUTPUT :: u64 where "MMIO_OUTPUT \<equiv> 0xFFFE"

record my_cpu =
  regs :: "u64 list"
  pc :: u64
  fr :: u16
  pending_mem_addr :: u64
  pending_reg_idx :: u8
  pending_mmio_read :: u8

text \<open>The output pins the driver writes: the four LEDs and the MMIO output device.\<close>

record board =
  led_values :: "int list"
  output_value :: int

text \<open>A context is allocated zeroed (\<open>kzalloc\<close> in \<open>cpu_open\<close>).\<close>

definition zero_cpu :: my_cpu where
  "zero_cpu = \<lparr>regs = replicate 4 0, pc = 0, fr = 0, pending_mem_addr = 0,
     pending_reg_idx = 0, pending_mmio_read = 0\<rparr>"

subsection \<open>Registers and flags\<close>

definition get_register :: "u64 \<Rightarrow> nat option" where
  "get_register reg =
    (if reg = REG_0 then Some 0
     else if reg = REG_1 then Some 1
     else if reg = REG_2 then Some 2
     else if reg = REG_3 then Some 3
     else None)"

abbreviation deref :: "my_cpu \<Rightarrow> nat \<Rightarrow> u64" where
  "deref cpu p \<equiv> regs cpu ! p"

abbreviation assign :: "nat \<Rightarrow> u64 \<Rightarrow> my_cpu \<Rightarrow> my_cpu" where
  "assign p v cpu \<equiv> cpu\<lparr>regs := (regs cpu)[p := v]\<rparr>"

abbreviation advance_pc :: "my_cpu \<Rightarrow> my_cpu" where
  "advance_pc cpu \<equiv> cpu\<lparr>pc := pc cpu + INSTR_SIZE\<rparr>"

definition handle_compare :: "my_cpu \<Rightarrow> u64 \<Rightarrow> my_cpu" where
  "handle_compare cpu result =
    (let cpu1 = (if sint result = 0 then cpu\<lparr>fr := fr cpu OR ZF\<rparr>
                 else cpu\<lparr>fr := fr cpu AND NOT ZF\<rparr>)
     in if sint result < 0
        then (let cpu2 = cpu1\<lparr>fr := fr cpu1 OR SF\<rparr> in cpu2\<lparr>fr := fr cpu2 OR CF\<rparr>)
        else (let cpu2 = cpu1\<lparr>fr := fr cpu1 AND NOT SF\<rparr> in cpu2\<lparr>fr := fr cpu2 AND NOT CF\<rparr>))"

text \<open>
  The subtraction of the two \<open>s64\<close> operands is the wrapping one: the kernel is built with
  \<open>-fno-strict-overflow\<close>.
\<close>

definition handle_compare_immediate :: "my_cpu \<Rightarrow> nat \<Rightarrow> u64 \<Rightarrow> my_cpu" where
  "handle_compare_immediate cpu reg1 operand = handle_compare cpu (deref cpu reg1 - operand)"

definition handle_compare_register :: "my_cpu \<Rightarrow> nat \<Rightarrow> nat \<Rightarrow> my_cpu" where
  "handle_compare_register cpu reg1 reg2 = handle_compare cpu (deref cpu reg1 - deref cpu reg2)"

subsection \<open>Pins and addresses\<close>

definition set_diodes :: "my_cpu \<Rightarrow> my_cpu \<Rightarrow> board \<Rightarrow> board" where
  "set_diodes current_state prev_state b =
     b\<lparr>led_values := map (\<lambda>i. if regs current_state ! i = regs prev_state ! i then 0 else 1)
                        [0..<NUM_LEDS]\<rparr>"

definition is_mmio :: "u64 \<Rightarrow> bool" where
  "is_mmio addr \<longleftrightarrow> addr \<ge> MMIO_START"

definition is_mmio_input :: "u64 \<Rightarrow> bool" where
  "is_mmio_input addr \<longleftrightarrow> addr = MMIO_INPUT"

definition is_mmio_output :: "u64 \<Rightarrow> bool" where
  "is_mmio_output addr \<longleftrightarrow> addr = MMIO_OUTPUT"

subsection \<open>The cases of the switch\<close>

text \<open>
  A case either breaks out of the switch to the label \<open>end\<close>, where the LEDs are set and the
  program counter advances, or returns a result itself.  Every return is preceded by
  \<open>set_diodes\<close> against the state at entry (\<open>prev\<close>).
\<close>

datatype exec_flow =
    Break my_cpu board
  | Return my_cpu board status

definition return_after_diodes :: "my_cpu \<Rightarrow> my_cpu \<Rightarrow> board \<Rightarrow> status \<Rightarrow> exec_flow" where
  "return_after_diodes prev cpu b r = Return cpu (set_diodes cpu prev b) r"

text \<open>
  The four arithmetic and logic cases are the same text up to the operator \<open>f\<close> of the compound
  assignment; in register mode both operands may be the same register.
\<close>

definition exec_binop ::
    "(u64 \<Rightarrow> u64 \<Rightarrow> u64) \<Rightarrow> my_cpu \<Rightarrow> my_cpu \<Rightarrow> board \<Rightarrow> instruction \<Rightarrow> exec_flow" where
  "exec_binop f prev cpu b i =
    (if mode i = IMMEDIATE then
       (case get_register (ucast (operand1 i)) of
          None \<Rightarrow> return_after_diodes prev cpu b (- EINVAL)
        | Some reg \<Rightarrow> Break (assign reg (f (deref cpu reg) (operand2 i)) cpu) b)
     else if mode i = REGISTER then
       (case get_register (ucast (operand1 i)) of
          None \<Rightarrow> return_after_diodes prev cpu b (- EINVAL)
        | Some reg1 \<Rightarrow>
            (case get_register (operand2 i) of
               None \<Rightarrow> return_after_diodes prev cpu b (- EINVAL)
             | Some reg2 \<Rightarrow> Break (assign reg1 (f (deref cpu reg1) (deref cpu reg2)) cpu) b))
     else return_after_diodes prev cpu b (- EINVAL))"

definition exec_add :: "my_cpu \<Rightarrow> my_cpu \<Rightarrow> board \<Rightarrow> instruction \<Rightarrow> exec_flow" where
  "exec_add = exec_binop (\<lambda>x y. x + y)"

definition exec_sub :: "my_cpu \<Rightarrow> my_cpu \<Rightarrow> board \<Rightarrow> instruction \<Rightarrow> exec_flow" where
  "exec_sub = exec_binop (\<lambda>x y. x - y)"

definition exec_and :: "my_cpu \<Rightarrow> my_cpu \<Rightarrow> board \<Rightarrow> instruction \<Rightarrow> exec_flow" where
  "exec_and = exec_binop (\<lambda>x y. x AND y)"

definition exec_or :: "my_cpu \<Rightarrow> my_cpu \<Rightarrow> board \<Rightarrow> instruction \<Rightarrow> exec_flow" where
  "exec_or = exec_binop (\<lambda>x y. x OR y)"

definition exec_not :: "my_cpu \<Rightarrow> my_cpu \<Rightarrow> board \<Rightarrow> instruction \<Rightarrow> exec_flow" where
  "exec_not prev cpu b i =
    (if mode i \<noteq> REGISTER then return_after_diodes prev cpu b (- EINVAL)
     else (case get_register (operand2 i) of
             None \<Rightarrow> return_after_diodes prev cpu b (- EINVAL)
           | Some reg \<Rightarrow> Break (assign reg (NOT (deref cpu reg)) cpu) b))"

text \<open>
  \<open>MOV\<close> from the input device.  \<open>input\<close> is what \<open>gpiod_get_value(input_dev)\<close> returns, a C
  \<open>int\<close> that is negative on an error; the \<open>u8\<close> field keeps its low byte, so the test for a
  negative value is the test of an unsigned byte.
\<close>

definition exec_mov_input ::
    "int \<Rightarrow> my_cpu \<Rightarrow> my_cpu \<Rightarrow> board \<Rightarrow> instruction \<Rightarrow> exec_flow" where
  "exec_mov_input input prev cpu b i =
    (case get_register (ucast (operand1 i)) of
       None \<Rightarrow> return_after_diodes prev cpu b (- EINVAL)
     | Some reg \<Rightarrow>
         (let cpu1 = cpu\<lparr>pending_mmio_read := word_of_int input\<rparr>;
              cpu2 = assign reg (ucast (pending_mmio_read cpu1)) cpu1;
              b2 = set_diodes cpu2 prev b
          in if uint (pending_mmio_read cpu2) < 0
             then Return cpu2 b2 (uint (pending_mmio_read cpu2))
             else Return (advance_pc cpu2) b2 EXEC_PENDING_MMIO_READ))"

definition exec_mov_load ::
    "int \<Rightarrow> my_cpu \<Rightarrow> my_cpu \<Rightarrow> board \<Rightarrow> instruction \<Rightarrow> exec_flow" where
  "exec_mov_load input prev cpu b i =
    (if is_mmio (operand2 i) then
       (if is_mmio_input (operand2 i) then exec_mov_input input prev cpu b i
        else return_after_diodes prev cpu b (- EINVAL))
     else
       (let cpu1 = cpu\<lparr>pending_mem_addr := operand2 i, pending_reg_idx := operand1 i\<rparr>
        in return_after_diodes prev (advance_pc cpu1) b EXEC_PENDING_MEM_READ))"

definition exec_mov_store :: "my_cpu \<Rightarrow> my_cpu \<Rightarrow> board \<Rightarrow> instruction \<Rightarrow> exec_flow" where
  "exec_mov_store prev cpu b i =
    (if is_mmio (operand2 i) then
       (if operand2 i = MMIO_HALT then return_after_diodes prev cpu b EXEC_HALT
        else if is_mmio_output (operand2 i) then
          (case get_register (ucast (operand1 i)) of
             None \<Rightarrow> return_after_diodes prev cpu b (- EINVAL)
           | Some reg \<Rightarrow>
               (if deref cpu reg = 0 then Break cpu (b\<lparr>output_value := 0\<rparr>)
                else if deref cpu reg = 1 then Break cpu (b\<lparr>output_value := 1\<rparr>)
                else return_after_diodes prev cpu b (- EINVAL)))
        else return_after_diodes prev cpu b (- EINVAL))
     else
       (let cpu1 = cpu\<lparr>pending_mem_addr := operand2 i, pending_reg_idx := operand1 i\<rparr>
        in return_after_diodes prev (advance_pc cpu1) b EXEC_PENDING_MEM_WRITE))"

definition exec_mov ::
    "int \<Rightarrow> my_cpu \<Rightarrow> my_cpu \<Rightarrow> board \<Rightarrow> instruction \<Rightarrow> exec_flow" where
  "exec_mov input prev cpu b i =
    (if mode i = IMMEDIATE then
       (case get_register (ucast (operand1 i)) of
          None \<Rightarrow> return_after_diodes prev cpu b (- EINVAL)
        | Some reg \<Rightarrow> Break (assign reg (operand2 i) cpu) b)
     else if mode i = REGISTER then
       (case get_register (ucast (operand1 i)) of
          None \<Rightarrow> return_after_diodes prev cpu b (- EINVAL)
        | Some reg1 \<Rightarrow>
            (case get_register (operand2 i) of
               None \<Rightarrow> return_after_diodes prev cpu b (- EINVAL)
             | Some reg2 \<Rightarrow> Break (assign reg1 (deref cpu reg2) cpu) b))
     else if mode i = DIRECT_LOAD then exec_mov_load input prev cpu b i
     else if mode i = DIRECT_STORE then exec_mov_store prev cpu b i
     else return_after_diodes prev cpu b (- EINVAL))"

definition exec_cmp :: "my_cpu \<Rightarrow> my_cpu \<Rightarrow> board \<Rightarrow> instruction \<Rightarrow> exec_flow" where
  "exec_cmp prev cpu b i =
    (if mode i = IMMEDIATE then
       (case get_register (ucast (operand1 i)) of
          None \<Rightarrow> return_after_diodes prev cpu b (- EINVAL)
        | Some reg \<Rightarrow> Break (handle_compare_immediate cpu reg (operand2 i)) b)
     else if mode i = REGISTER then
       (case get_register (ucast (operand1 i)) of
          None \<Rightarrow> return_after_diodes prev cpu b (- EINVAL)
        | Some reg1 \<Rightarrow>
            (case get_register (operand2 i) of
               None \<Rightarrow> return_after_diodes prev cpu b (- EINVAL)
             | Some reg2 \<Rightarrow> Break (handle_compare_register cpu reg1 reg2) b))
     else return_after_diodes prev cpu b (- EINVAL))"

text \<open>A taken jump sets the program counter to the byte address of the label's instruction.\<close>

definition jump_to :: "my_cpu \<Rightarrow> my_cpu \<Rightarrow> board \<Rightarrow> instruction \<Rightarrow> exec_flow" where
  "jump_to prev cpu b i =
     return_after_diodes prev (cpu\<lparr>pc := operand2 i * INSTR_SIZE\<rparr>) b EXEC_SUCCESS"

definition exec_jmp :: "my_cpu \<Rightarrow> my_cpu \<Rightarrow> board \<Rightarrow> instruction \<Rightarrow> exec_flow" where
  "exec_jmp prev cpu b i = jump_to prev cpu b i"

definition exec_je :: "my_cpu \<Rightarrow> my_cpu \<Rightarrow> board \<Rightarrow> instruction \<Rightarrow> exec_flow" where
  "exec_je prev cpu b i =
    (if fr cpu AND ZF \<noteq> 0 then jump_to prev cpu b i else Break cpu b)"

definition exec_jg :: "my_cpu \<Rightarrow> my_cpu \<Rightarrow> board \<Rightarrow> instruction \<Rightarrow> exec_flow" where
  "exec_jg prev cpu b i =
    (if fr cpu AND SF = 0 \<and> fr cpu AND ZF = 0 then jump_to prev cpu b i else Break cpu b)"

definition exec_jl :: "my_cpu \<Rightarrow> my_cpu \<Rightarrow> board \<Rightarrow> instruction \<Rightarrow> exec_flow" where
  "exec_jl prev cpu b i =
    (if fr cpu AND SF \<noteq> 0 then jump_to prev cpu b i else Break cpu b)"

definition exec_switch ::
    "int \<Rightarrow> my_cpu \<Rightarrow> my_cpu \<Rightarrow> board \<Rightarrow> instruction \<Rightarrow> exec_flow" where
  "exec_switch input prev cpu b i =
    (if opcode i = ADD_OP then exec_add prev cpu b i
     else if opcode i = SUB_OP then exec_sub prev cpu b i
     else if opcode i = AND_OP then exec_and prev cpu b i
     else if opcode i = OR_OP then exec_or prev cpu b i
     else if opcode i = NOT_OP then exec_not prev cpu b i
     else if opcode i = MOV_OP then exec_mov input prev cpu b i
     else if opcode i = CMP_OP then exec_cmp prev cpu b i
     else if opcode i = JMP_OP then exec_jmp prev cpu b i
     else if opcode i = JE_OP then exec_je prev cpu b i
     else if opcode i = JG_OP then exec_jg prev cpu b i
     else if opcode i = JL_OP then exec_jl prev cpu b i
     else return_after_diodes prev cpu b (- EINVAL))"

definition execute_instruction ::
    "int \<Rightarrow> my_cpu \<Rightarrow> board \<Rightarrow> instruction \<Rightarrow> my_cpu \<times> board \<times> status" where
  "execute_instruction input cpu b i =
    (case exec_switch input cpu cpu b i of
       Return cpu' b' r \<Rightarrow> (cpu', b', r)
     | Break cpu' b' \<Rightarrow> (advance_pc cpu', set_diodes cpu' cpu b', EXEC_SUCCESS))"

subsection \<open>The well-formed states of the driver\<close>

text \<open>
  The register file has its four entries, and the flags are one of the three values that
  \<open>handle_compare\<close> leaves: none, zero, or sign together with carry.
\<close>

definition flags_ok :: "u16 \<Rightarrow> bool" where
  "flags_ok f \<longleftrightarrow> f = 0 \<or> f = ZF \<or> f = (SF OR CF)"

definition cpu_ok :: "my_cpu \<Rightarrow> bool" where
  "cpu_ok cpu \<longleftrightarrow> length (regs cpu) = 4 \<and> flags_ok (fr cpu)"

lemma get_register_bound [dest]: "get_register r = Some k \<Longrightarrow> k < 4"
  by (auto simp: get_register_def split: if_splits)

lemma zero_cpu_simps:
  "zero_cpu = \<lparr>regs = [0, 0, 0, 0], pc = 0, fr = 0, pending_mem_addr = 0,
     pending_reg_idx = 0, pending_mmio_read = 0\<rparr>"
  by (simp add: zero_cpu_def numeral_eq_Suc)

lemma cpu_ok_zero: "cpu_ok zero_cpu"
  by (simp add: cpu_ok_def zero_cpu_def flags_ok_def)

lemma cpu_ok_assign [inv_intros]: "cpu_ok cpu \<Longrightarrow> cpu_ok (assign p v cpu)"
  by (simp add: cpu_ok_def)

lemma cpu_ok_frame [simp]:
  "cpu_ok (cpu\<lparr>pc := v\<rparr>) = cpu_ok cpu"
  "cpu_ok (cpu\<lparr>pending_mem_addr := a\<rparr>) = cpu_ok cpu"
  "cpu_ok (cpu\<lparr>pending_reg_idx := k\<rparr>) = cpu_ok cpu"
  "cpu_ok (cpu\<lparr>pending_mmio_read := m\<rparr>) = cpu_ok cpu"
  by (simp_all add: cpu_ok_def)

text \<open>What a comparison leaves in the flags register, from any of the three values.\<close>

definition flags_of :: "u64 \<Rightarrow> u16" where
  "flags_of d = (if d = 0 then ZF else if sint d < 0 then (SF OR CF) else 0)"

lemma sint_zero_iff: "sint (d :: u64) = 0 \<longleftrightarrow> d = 0"
  by (metis signed_0 signed_word_eqI)

lemma handle_compare_frame [simp]:
  "regs (handle_compare cpu d) = regs cpu"
  "pc (handle_compare cpu d) = pc cpu"
  "pending_mem_addr (handle_compare cpu d) = pending_mem_addr cpu"
  "pending_reg_idx (handle_compare cpu d) = pending_reg_idx cpu"
  "pending_mmio_read (handle_compare cpu d) = pending_mmio_read cpu"
  by (simp_all add: handle_compare_def Let_def)

lemma handle_compare_fr:
  "flags_ok (fr cpu) \<Longrightarrow> fr (handle_compare cpu d) = flags_of d"
  by (auto simp: handle_compare_def flags_of_def flags_ok_def Let_def sint_zero_iff)

lemma flags_ok_flags_of [simp]: "flags_ok (flags_of d)"
  by (simp add: flags_of_def flags_ok_def)

lemma cpu_ok_handle_compare [inv_intros]: "cpu_ok cpu \<Longrightarrow> cpu_ok (handle_compare cpu d)"
  by (simp add: cpu_ok_def handle_compare_fr)

declare exec_add_def [exec_simps] exec_sub_def [exec_simps] exec_and_def [exec_simps]
  exec_or_def [exec_simps] exec_not_def [exec_simps] exec_mov_def [exec_simps]
  exec_mov_load_def [exec_simps] exec_mov_store_def [exec_simps] exec_mov_input_def [exec_simps]
  exec_cmp_def [exec_simps] exec_jmp_def [exec_simps] exec_je_def [exec_simps]
  exec_jg_def [exec_simps] exec_jl_def [exec_simps] exec_binop_def [exec_simps]
  exec_switch_def [exec_simps] execute_instruction_def [exec_simps] jump_to_def [exec_simps]
  return_after_diodes_def [exec_simps] get_register_def [exec_simps] set_diodes_def [exec_simps]
  is_mmio_def [exec_simps] is_mmio_input_def [exec_simps] is_mmio_output_def [exec_simps]
  handle_compare_immediate_def [exec_simps] handle_compare_register_def [exec_simps]
  handle_compare_def [exec_simps] upt_0_4 [exec_simps]

end
