(* ===== verification/Cpu_Isa.thy ===== *)
theory Cpu_Isa
  imports Cpu_Core
begin

text \<open>
  An abstract instruction set and the proof that the driver's \<open>execute_instruction\<close> implements
  it.  Here a register is a name, an operand is a value or a register, the flags are the outcome
  of the last comparison, and an instruction either is one of the set or has no meaning.
\<close>

subsection \<open>Abstract instructions\<close>

datatype reg = R0 | R1 | R2 | R3

datatype src = Imm u64 | Reg reg

datatype alu = Add | Sub | Conj | Disj

datatype cond = Always | If_equal | If_greater | If_less

datatype isa =
    Alu alu reg src
  | Invert reg
  | Move reg src
  | Input reg
  | Output reg
  | Halt
  | Load u8 u64
  | Store u8 u64
  | Compare reg src
  | Jump cond u64

datatype ordering = Less | Equal | Greater

record isa_state =
  rf :: "reg \<Rightarrow> u64"
  ip :: u64
  last_cmp :: ordering

text \<open>What the outside sees of a step.\<close>

datatype event =
    Done
  | Written int
  | Halted
  | Want_read u8 u64
  | Want_write u8 u64
  | Got_input u8
  | Rejected

subsection \<open>Decoding the fields of an instruction\<close>

definition reg_of :: "u64 \<Rightarrow> reg option" where
  "reg_of n = (if n = 0 then Some R0 else if n = 1 then Some R1
               else if n = 2 then Some R2 else if n = 3 then Some R3 else None)"

definition src_of :: "u8 \<Rightarrow> u64 \<Rightarrow> src option" where
  "src_of m v = (if m = IMMEDIATE then Some (Imm v)
                 else if m = REGISTER then map_option Reg (reg_of v) else None)"

definition two_operands :: "(reg \<Rightarrow> src \<Rightarrow> isa) \<Rightarrow> instruction \<Rightarrow> isa option" where
  "two_operands c i =
    (case (reg_of (ucast (operand1 i)), src_of (mode i) (operand2 i)) of
       (Some r, Some s) \<Rightarrow> Some (c r s)
     | _ \<Rightarrow> None)"

definition decode_mov :: "instruction \<Rightarrow> isa option" where
  "decode_mov i =
    (if mode i = DIRECT_LOAD then
       (if operand2 i < MMIO_START then Some (Load (operand1 i) (operand2 i))
        else if operand2 i = MMIO_INPUT then map_option Input (reg_of (ucast (operand1 i)))
        else None)
     else if mode i = DIRECT_STORE then
       (if operand2 i < MMIO_START then Some (Store (operand1 i) (operand2 i))
        else if operand2 i = MMIO_HALT then Some Halt
        else if operand2 i = MMIO_OUTPUT then map_option Output (reg_of (ucast (operand1 i)))
        else None)
     else two_operands Move i)"

definition decode :: "instruction \<Rightarrow> isa option" where
  "decode i =
    (if opcode i = ADD_OP then two_operands (Alu Add) i
     else if opcode i = SUB_OP then two_operands (Alu Sub) i
     else if opcode i = AND_OP then two_operands (Alu Conj) i
     else if opcode i = OR_OP then two_operands (Alu Disj) i
     else if opcode i = NOT_OP then
       (if mode i = REGISTER then map_option Invert (reg_of (operand2 i)) else None)
     else if opcode i = MOV_OP then decode_mov i
     else if opcode i = CMP_OP then two_operands Compare i
     else if opcode i = JMP_OP then Some (Jump Always (operand2 i))
     else if opcode i = JE_OP then Some (Jump If_equal (operand2 i))
     else if opcode i = JG_OP then Some (Jump If_greater (operand2 i))
     else if opcode i = JL_OP then Some (Jump If_less (operand2 i))
     else None)"

subsection \<open>One abstract step\<close>

fun alu_fun :: "alu \<Rightarrow> u64 \<Rightarrow> u64 \<Rightarrow> u64" where
  "alu_fun Add x y = x + y"
| "alu_fun Sub x y = x - y"
| "alu_fun Conj x y = x AND y"
| "alu_fun Disj x y = x OR y"

fun src_val :: "isa_state \<Rightarrow> src \<Rightarrow> u64" where
  "src_val s (Imm v) = v"
| "src_val s (Reg r) = rf s r"

definition compare_words :: "u64 \<Rightarrow> u64 \<Rightarrow> ordering" where
  "compare_words x y = (if x = y then Equal else if sint (x - y) < 0 then Less else Greater)"

fun holds :: "cond \<Rightarrow> ordering \<Rightarrow> bool" where
  "holds Always c = True"
| "holds If_equal c = (c = Equal)"
| "holds If_greater c = (c = Greater)"
| "holds If_less c = (c = Less)"

definition set_reg :: "reg \<Rightarrow> u64 \<Rightarrow> isa_state \<Rightarrow> isa_state" where
  "set_reg r v s = s\<lparr>rf := (rf s)(r := v)\<rparr>"

definition next_ip :: "isa_state \<Rightarrow> isa_state" where
  "next_ip s = s\<lparr>ip := ip s + 11\<rparr>"

fun isa_step :: "int \<Rightarrow> isa \<Rightarrow> isa_state \<Rightarrow> isa_state \<times> event" where
  "isa_step input (Alu f r x) s = (next_ip (set_reg r (alu_fun f (rf s r) (src_val s x)) s), Done)"
| "isa_step input (Invert r) s = (next_ip (set_reg r (NOT (rf s r)) s), Done)"
| "isa_step input (Move r x) s = (next_ip (set_reg r (src_val s x) s), Done)"
| "isa_step input (Input r) s =
     (let v = (word_of_int input :: u8) in (next_ip (set_reg r (ucast v) s), Got_input v))"
| "isa_step input (Output r) s =
     (if rf s r = 0 then (next_ip s, Written 0)
      else if rf s r = 1 then (next_ip s, Written 1)
      else (s, Rejected))"
| "isa_step input Halt s = (s, Halted)"
| "isa_step input (Load k a) s = (next_ip s, Want_read k a)"
| "isa_step input (Store k a) s = (next_ip s, Want_write k a)"
| "isa_step input (Compare r x) s =
     (next_ip (s\<lparr>last_cmp := compare_words (rf s r) (src_val s x)\<rparr>), Done)"
| "isa_step input (Jump c n) s =
     (if holds c (last_cmp s) then s\<lparr>ip := n * 11\<rparr> else next_ip s, Done)"

definition isa_exec :: "int \<Rightarrow> isa option \<Rightarrow> isa_state \<Rightarrow> isa_state \<times> event" where
  "isa_exec input op s = (case op of None \<Rightarrow> (s, Rejected) | Some a \<Rightarrow> isa_step input a s)"

subsection \<open>Abstraction\<close>

fun reg_idx :: "reg \<Rightarrow> nat" where
  "reg_idx R0 = 0" | "reg_idx R1 = 1" | "reg_idx R2 = 2" | "reg_idx R3 = 3"

definition ordering_of :: "u16 \<Rightarrow> ordering" where
  "ordering_of f = (if f AND ZF \<noteq> 0 then Equal else if f AND SF \<noteq> 0 then Less else Greater)"

definition abs_cpu :: "my_cpu \<Rightarrow> isa_state" where
  "abs_cpu cpu = \<lparr>rf = (\<lambda>r. regs cpu ! reg_idx r), ip = pc cpu, last_cmp = ordering_of (fr cpu)\<rparr>"

text \<open>The status an event is reported with, and the LEDs and output pin it leaves.\<close>

fun status_of :: "event \<Rightarrow> status" where
  "status_of Done = EXEC_SUCCESS"
| "status_of (Written v) = EXEC_SUCCESS"
| "status_of Halted = EXEC_HALT"
| "status_of (Want_read k a) = EXEC_PENDING_MEM_READ"
| "status_of (Want_write k a) = EXEC_PENDING_MEM_WRITE"
| "status_of (Got_input v) = EXEC_PENDING_MMIO_READ"
| "status_of Rejected = - EINVAL"

fun pin_after :: "event \<Rightarrow> int \<Rightarrow> int" where
  "pin_after (Written v) old = v"
| "pin_after _ old = old"

text \<open>The operands the driver keeps for the second half of a memory access or an input.\<close>

fun reports :: "event \<Rightarrow> my_cpu \<Rightarrow> bool" where
  "reports (Want_read k a) cpu = (pending_reg_idx cpu = k \<and> pending_mem_addr cpu = a)"
| "reports (Want_write k a) cpu = (pending_reg_idx cpu = k \<and> pending_mem_addr cpu = a)"
| "reports (Got_input v) cpu = (pending_mmio_read cpu = v)"
| "reports _ cpu = True"

subsection \<open>The switch implements the instruction set\<close>


lemma reg_idx_bound [simp]: "reg_idx r < 4"
  by (cases r) simp_all

lemma reg_idx_inject [simp]: "(reg_idx r = reg_idx r') = (r = r')"
  by (cases r; cases r') simp_all

lemma get_register_reg_of: "get_register n = map_option reg_idx (reg_of n)"
  by (simp add: get_register_def reg_of_def)

lemma abs_assign:
  assumes "cpu_ok cpu"
  shows "abs_cpu (assign (reg_idx r) v cpu) = set_reg r v (abs_cpu cpu)"
  using assms by (auto simp: abs_cpu_def set_reg_def cpu_ok_def nth_list_update fun_eq_iff)

lemma abs_advance: "abs_cpu (cpu\<lparr>pc := pc cpu + 11\<rparr>) = next_ip (abs_cpu cpu)"
  by (simp add: abs_cpu_def next_ip_def)

lemma abs_frame [simp]:
  "abs_cpu (cpu\<lparr>pending_mem_addr := a\<rparr>) = abs_cpu cpu"
  "abs_cpu (cpu\<lparr>pending_reg_idx := k\<rparr>) = abs_cpu cpu"
  "abs_cpu (cpu\<lparr>pending_mmio_read := m\<rparr>) = abs_cpu cpu"
  by (simp_all add: abs_cpu_def)

lemma rf_abs [simp]: "rf (abs_cpu cpu) r = regs cpu ! reg_idx r"
  by (simp add: abs_cpu_def)

lemma ordering_of_flags_of: "ordering_of (flags_of (x - y)) = compare_words x y"
  by (simp add: ordering_of_def flags_of_def compare_words_def)

lemma abs_handle_compare:
  assumes "cpu_ok cpu"
  shows "abs_cpu (handle_compare cpu (x - y)) = (abs_cpu cpu)\<lparr>last_cmp := compare_words x y\<rparr>"
  using assms by (simp add: abs_cpu_def handle_compare_fr ordering_of_flags_of cpu_ok_def)

lemma abs_jump: "abs_cpu (cpu\<lparr>pc := n\<rparr>) = (abs_cpu cpu)\<lparr>ip := n\<rparr>"
  by (simp add: abs_cpu_def)

lemma is_mmio_iff: "is_mmio a \<longleftrightarrow> \<not> a < MMIO_START"
  by (auto simp: is_mmio_def)

text \<open>What a case of the switch must do to implement an abstract instruction.\<close>

definition implements :: "my_cpu \<Rightarrow> board \<Rightarrow> exec_flow \<Rightarrow> isa_state \<times> event \<Rightarrow> bool" where
  "implements cpu b fl out =
    (case fl of
       Break cpu' b' \<Rightarrow> cpu_ok cpu' \<and> next_ip (abs_cpu cpu') = fst out \<and>
         (\<exists>v. snd out = Done \<and> b' = b \<or> snd out = Written v \<and> b' = b\<lparr>output_value := v\<rparr>)
     | Return cpu' b' r \<Rightarrow> cpu_ok cpu' \<and> abs_cpu cpu' = fst out \<and> r = status_of (snd out) \<and>
         reports (snd out) cpu' \<and> b' = set_diodes cpu' cpu b \<and> (\<forall>v. snd out \<noteq> Written v) \<and>
         (snd out = Rejected \<longrightarrow> cpu' = cpu))"

lemma implements_reject:
  "cpu_ok cpu \<Longrightarrow> implements cpu b (return_after_diodes cpu cpu b (- 22)) (abs_cpu cpu, Rejected)"
  by (simp add: implements_def return_after_diodes_def)

lemma implements_binop:
  assumes "cpu_ok cpu" "\<And>x y. f x y = alu_fun a x y"
  shows "implements cpu b (exec_binop f cpu cpu b i)
           (isa_exec input (two_operands (Alu a) i) (abs_cpu cpu))"
  using assms
  by (auto simp: exec_binop_def two_operands_def src_of_def isa_exec_def get_register_reg_of
      implements_reject implements_def[of _ _ "Break _ _"] abs_assign 
      intro: inv_intros split: option.splits)


lemmas implements_simps =
  src_of_def isa_exec_def get_register_reg_of implements_reject implements_def[of _ _ "Break _ _"]
  abs_assign

lemma implements_not:
  assumes "cpu_ok cpu"
  shows "implements cpu b (exec_not cpu cpu b i)
     (isa_exec input (if mode i = REGISTER then map_option Invert (reg_of (operand2 i)) else None)
        (abs_cpu cpu))"
  using assms
  by (auto simp: exec_not_def implements_simps intro: inv_intros split: option.splits)

lemma implements_cmp:
  assumes "cpu_ok cpu"
  shows "implements cpu b (exec_cmp cpu cpu b i)
           (isa_exec input (two_operands Compare i) (abs_cpu cpu))"
  using assms
  by (auto simp: exec_cmp_def two_operands_def implements_simps handle_compare_immediate_def
      handle_compare_register_def abs_handle_compare intro: inv_intros split: option.splits)

lemma implements_input:
  assumes "cpu_ok cpu"
  shows "implements cpu b (exec_mov_input input cpu cpu b i)
           (isa_exec input (map_option Input (reg_of (ucast (operand1 i)))) (abs_cpu cpu))"
proof (cases "reg_of (ucast (operand1 i))")
  case None
  then show ?thesis using assms
    by (simp add: exec_mov_input_def isa_exec_def get_register_reg_of implements_reject)
next
  case (Some r)
  let ?cpu = "cpu\<lparr>pending_mmio_read := word_of_int input\<rparr>"
  let ?cpu2 = "assign (reg_idx r) (ucast (word_of_int input :: u8)) ?cpu"
  have ok: "cpu_ok ?cpu" using assms by simp
  have ok2: "cpu_ok ?cpu2" by (rule cpu_ok_assign [OF ok])
  have "abs_cpu ?cpu2 = set_reg r (ucast (word_of_int input :: u8)) (abs_cpu cpu)"
    by (subst abs_assign [OF ok]) simp
  then have "abs_cpu (advance_pc ?cpu2)
      = next_ip (set_reg r (ucast (word_of_int input :: u8)) (abs_cpu cpu))"
    by (subst abs_advance) simp
  with ok2 Some show ?thesis
    by (simp add: exec_mov_input_def isa_exec_def get_register_reg_of implements_def Let_def
        set_diodes_def)
qed

lemma implements_load:
  assumes "cpu_ok cpu" "mode i = DIRECT_LOAD"
  shows "implements cpu b (exec_mov_load input cpu cpu b i)
           (isa_exec input (decode_mov i) (abs_cpu cpu))"
proof (cases "operand2 i < MMIO_START")
  case True
  then show ?thesis using assms
    by (simp add: exec_mov_load_def is_mmio_iff decode_mov_def isa_exec_def implements_def
        return_after_diodes_def abs_jump next_ip_def abs_cpu_def Let_def)
next
  case False
  then show ?thesis using assms implements_input [OF assms(1)]
    by (simp add: exec_mov_load_def is_mmio_iff is_mmio_input_def decode_mov_def
        implements_reject isa_exec_def[of _ None])
qed

lemma implements_store:
  assumes "cpu_ok cpu" "mode i = DIRECT_STORE"
  shows "implements cpu b (exec_mov_store cpu cpu b i)
           (isa_exec input (decode_mov i) (abs_cpu cpu))"
proof (cases "operand2 i < MMIO_START")
  case True
  then show ?thesis using assms
    by (simp add: exec_mov_store_def is_mmio_iff decode_mov_def isa_exec_def implements_def
        return_after_diodes_def abs_jump next_ip_def abs_cpu_def Let_def)
next
  case False
  then show ?thesis using assms
    by (auto simp: exec_mov_store_def is_mmio_iff is_mmio_output_def decode_mov_def
        implements_simps return_after_diodes_def implements_def split: option.splits)
qed

lemma implements_mov:
  assumes "cpu_ok cpu"
  shows "implements cpu b (exec_mov input cpu cpu b i)
           (isa_exec input (decode_mov i) (abs_cpu cpu))"
proof -
  consider "mode i = DIRECT_LOAD" | "mode i = DIRECT_STORE"
    | "mode i \<noteq> DIRECT_LOAD" "mode i \<noteq> DIRECT_STORE" by blast
  then show ?thesis
  proof cases
    case 1 then show ?thesis using assms by (simp add: exec_mov_def implements_load)
  next
    case 2 then show ?thesis using assms by (simp add: exec_mov_def implements_store)
  next
    case 3 then show ?thesis using assms
      by (auto simp: exec_mov_def decode_mov_def two_operands_def implements_simps
          intro: inv_intros split: option.splits)
  qed
qed

lemma fr_zf: "fr cpu AND ZF \<noteq> 0 \<longleftrightarrow> last_cmp (abs_cpu cpu) = Equal"
  by (simp add: abs_cpu_def ordering_of_def)

lemma fr_sf:
  assumes "cpu_ok cpu" shows "fr cpu AND SF \<noteq> 0 \<longleftrightarrow> last_cmp (abs_cpu cpu) = Less"
  using assms by (auto simp: abs_cpu_def ordering_of_def cpu_ok_def flags_ok_def)

lemma implements_jump:
  assumes "cpu_ok cpu" "taken = holds c (last_cmp (abs_cpu cpu))"
  shows "implements cpu b (if taken then jump_to cpu cpu b i else Break cpu b)
           (isa_exec input (Some (Jump c (operand2 i))) (abs_cpu cpu))"
  using assms
  by (simp add: jump_to_def implements_def return_after_diodes_def isa_exec_def abs_jump)

lemma implements_switch:
  assumes ok: "cpu_ok cpu"
  shows "implements cpu b (exec_switch input cpu cpu b i)
           (isa_exec input (decode i) (abs_cpu cpu))"
proof -
  have jg: "(fr cpu AND SF = 0 \<and> fr cpu AND ZF = 0) = (last_cmp (abs_cpu cpu) = Greater)"
    using fr_zf [of cpu] fr_sf [OF ok] by (cases "last_cmp (abs_cpu cpu)") auto
  show ?thesis
    unfolding exec_switch_def decode_def
    using ok implements_jump [OF ok, of True Always] implements_jump [OF ok, of _ If_equal]
      implements_jump [OF ok, of _ If_greater] implements_jump [OF ok, of _ If_less]
    by (simp add: exec_add_def exec_sub_def exec_and_def exec_or_def implements_binop
        implements_not implements_cmp implements_mov implements_reject isa_exec_def[of _ None]
        exec_jmp_def exec_je_def exec_jg_def exec_jl_def fr_zf fr_sf jg)
qed


lemma pin_after_id [simp]: "b\<lparr>output_value := output_value b\<rparr> = (b :: board)"
  by simp

lemma execute_implements:
  assumes ok: "cpu_ok cpu" and ex: "execute_instruction input cpu b i = (cpu', b', r)"
    and spec: "isa_exec input (decode i) (abs_cpu cpu) = (s', ev)"
  shows "cpu_ok cpu' \<and> abs_cpu cpu' = s' \<and> r = status_of ev \<and> reports ev cpu' \<and>
    b' = set_diodes cpu' cpu (b\<lparr>output_value := pin_after ev (output_value b)\<rparr>) \<and>
    (ev = Rejected \<longrightarrow> cpu' = cpu)"
proof (cases "exec_switch input cpu cpu b i")
  case (Break c b1)
  then have "implements cpu b (Break c b1) (s', ev)"
    using implements_switch [OF ok, of b input i] spec by simp
  moreover have "cpu' = advance_pc c" "b' = set_diodes c cpu b1" "r = 0"
    using Break ex by (simp_all add: execute_instruction_def)
  ultimately show ?thesis
    by (auto simp: implements_def abs_advance set_diodes_def)
next
  case (Return c b1 r1)
  then have "implements cpu b (Return c b1 r1) (s', ev)"
    using implements_switch [OF ok, of b input i] spec by simp
  moreover have "cpu' = c" "b' = b1" "r = r1"
    using Return ex by (simp_all add: execute_instruction_def)
  ultimately show ?thesis
    by (cases ev) (auto simp: implements_def)
qed

lemma compare_words_exact:
  fixes x y :: u64
  assumes "- (2 ^ 63) \<le> sint x - sint y" "sint x - sint y < 2 ^ 63"
  shows "compare_words x y =
    (if sint x = sint y then Equal else if sint x < sint y then Less else Greater)"
  using assms by (auto simp: compare_words_def sint_diff_u64 signed_word_eqI)

lemma compare_words_overflow:
  fixes x y :: u64
  shows "sint x - sint y < - (2 ^ 63) \<Longrightarrow> compare_words x y = Greater"
    and "sint x - sint y \<ge> 2 ^ 63 \<Longrightarrow> compare_words x y = Less"
  using sint_bounds_u64 [of x] sint_bounds_u64 [of y]
  by (auto simp: compare_words_def sint_diff_u64)


subsection \<open>Properties of the execution engine\<close>

abbreviation ins :: "u8 \<Rightarrow> u8 \<Rightarrow> u8 \<Rightarrow> u64 \<Rightarrow> instruction" where
  "ins op m o1 o2 \<equiv> \<lparr>operand2 = o2, operand1 = o1, opcode = op, mode = m\<rparr>"

abbreviation dark_board :: board where
  "dark_board \<equiv> \<lparr>led_values = [0, 0, 0, 0], output_value = 0\<rparr>"

lemma board_output_id [simp]: "b\<lparr>output_value := output_value b\<rparr> = (b :: board)"
  by simp

text \<open>
  C4.  The driver's interpreter refines the abstract instruction set: run on any instruction word
  from a well-formed state, it reaches the state, reports the status, keeps the operands and drives
  the output pin that one step of the abstract machine prescribes, errors included.
\<close>

theorem execute_refines_isa:
  assumes "cpu_ok cpu"
  shows "case execute_instruction input cpu b i of (cpu', b', r) \<Rightarrow>
         (case isa_exec input (decode i) (abs_cpu cpu) of (s', ev) \<Rightarrow>
            abs_cpu cpu' = s' \<and> r = status_of ev \<and> reports ev cpu' \<and>
            output_value b' = pin_after ev (output_value b))"
  using execute_implements [OF assms]
  by (fastforce simp: set_diodes_def split: prod.splits)

theorem execute_refines_isa_witness:
  "execute_instruction 0 zero_cpu dark_board (ins ADD_OP IMMEDIATE 2 7) =
     (zero_cpu\<lparr>regs := [0, 0, 7, 0], pc := 11\<rparr>, dark_board\<lparr>led_values := [0, 0, 1, 0]\<rparr>, 0) \<and>
   abs_cpu (zero_cpu\<lparr>regs := [0, 0, 7, 0], pc := 11\<rparr>) =
     next_ip (set_reg R2 7 (abs_cpu zero_cpu))"
proof -
  have ex: "execute_instruction 0 zero_cpu dark_board (ins ADD_OP IMMEDIATE 2 7) =
     (zero_cpu\<lparr>regs := [0, 0, 7, 0], pc := 11\<rparr>, dark_board\<lparr>led_values := [0, 0, 1, 0]\<rparr>, 0)"
    by (simp add: exec_simps zero_cpu_simps)
  have "isa_exec 0 (decode (ins ADD_OP IMMEDIATE 2 7)) (abs_cpu zero_cpu) =
      (next_ip (set_reg R2 7 (abs_cpu zero_cpu)), Done)"
    by (simp add: decode_def two_operands_def reg_of_def src_of_def isa_exec_def abs_cpu_def
        zero_cpu_simps)
  with ex execute_refines_isa [OF cpu_ok_zero, where input = 0 and b = dark_board and i = "ins ADD_OP IMMEDIATE 2 7"]
  show ?thesis by simp
qed


text \<open>
  Every instruction keeps the driver's state well formed: four registers and one of the three
  flag values a comparison leaves.  In particular the auxiliary-carry and overflow flags the
  interface names are never set.
\<close>

lemma execute_preserves_ok:
  assumes "cpu_ok cpu" and "execute_instruction input cpu b i = (cpu', b', r)"
  shows "cpu_ok cpu' \<and> fr cpu' AND (AF OR OF_FLAG) = 0"
proof -
  obtain s' ev where "isa_exec input (decode i) (abs_cpu cpu) = (s', ev)" by fastforce
  with assms have "cpu_ok cpu'" by (blast dest: execute_implements)
  then show ?thesis by (auto simp: cpu_ok_def flags_ok_def)
qed


text \<open>
  An instruction is refused with \<open>EINVAL\<close> exactly when it has no meaning in the instruction
  set or writes a value other than 0 and 1 to the output device, and a refused instruction changes
  nothing but the LEDs, which go dark.
\<close>

lemma execute_einval:
  assumes ok: "cpu_ok cpu" and ex: "execute_instruction input cpu b i = (cpu', b', r)"
  shows "(r = - EINVAL \<longleftrightarrow>
            decode i = None \<or>
            (\<exists>q. decode i = Some (Output q) \<and> regs cpu ! reg_idx q \<noteq> 0 \<and> regs cpu ! reg_idx q \<noteq> 1)) \<and>
         (r = - EINVAL \<longrightarrow> cpu' = cpu \<and> b' = b\<lparr>led_values := [0, 0, 0, 0]\<rparr>)"
proof -
  obtain s' ev where sp: "isa_exec input (decode i) (abs_cpu cpu) = (s', ev)" by fastforce
  note impl = execute_implements [OF ok ex sp]
  have "r = - EINVAL \<longleftrightarrow> ev = Rejected"
    using impl by (cases ev) auto
  moreover have "ev = Rejected \<longleftrightarrow> decode i = None \<or>
     (\<exists>q. decode i = Some (Output q) \<and> regs cpu ! reg_idx q \<noteq> 0 \<and> regs cpu ! reg_idx q \<noteq> 1)"
  proof (cases "decode i")
    case (Some a)
    with sp show ?thesis
      by (cases a) (auto simp: isa_exec_def Let_def split: if_splits)
  qed (use sp in \<open>simp add: isa_exec_def\<close>)
  ultimately show ?thesis
    using impl by (auto simp: set_diodes_def upt_0_4)
qed


text \<open>
  After every instruction, whatever its result, an LED is lit exactly when the instruction
  changed the register it stands for.
\<close>

lemma execute_leds:
  assumes "cpu_ok cpu" and "execute_instruction input cpu b i = (cpu', b', r)" and "n < NUM_LEDS"
  shows "length (led_values b') = NUM_LEDS \<and>
         led_values b' ! n = (if regs cpu' ! n = regs cpu ! n then 0 else 1)"
proof -
  obtain s' ev where "isa_exec input (decode i) (abs_cpu cpu) = (s', ev)" by fastforce
  with execute_implements [OF assms(1,2)] assms(3) show ?thesis
    by (auto simp: set_diodes_def simp del: upt.simps)
qed


text \<open>
  A comparison followed by a jump branches on the signed order of the operands whenever their
  difference fits a signed 64-bit word; neither instruction changes a register.
\<close>

fun signed_holds :: "cond \<Rightarrow> int \<Rightarrow> int \<Rightarrow> bool" where
  "signed_holds Always x y = True"
| "signed_holds If_equal x y = (x = y)"
| "signed_holds If_greater x y = (x > y)"
| "signed_holds If_less x y = (x < y)"

lemma compare_then_jump_isa:
  assumes ok: "cpu_ok cpu"
    and cmp: "decode i = Some (Compare q x)" and jmp: "decode j = Some (Jump c n)"
    and ex1: "execute_instruction in1 cpu b i = (cpu1, b1, r1)"
    and ex2: "execute_instruction in2 cpu1 b1 j = (cpu2, b2, r2)"
  shows "pc cpu2 = (if holds c (compare_words (regs cpu ! reg_idx q) (src_val (abs_cpu cpu) x))
                    then n * INSTR_SIZE else pc cpu + 2 * INSTR_SIZE) \<and>
         rf (abs_cpu cpu2) = rf (abs_cpu cpu)"
proof -
  let ?o = "compare_words (regs cpu ! reg_idx q) (src_val (abs_cpu cpu) x)"
  have "isa_exec in1 (decode i) (abs_cpu cpu) = (next_ip ((abs_cpu cpu)\<lparr>last_cmp := ?o\<rparr>), Done)"
    by (simp add: isa_exec_def cmp)
  from execute_implements [OF ok ex1 this]
  have 1: "cpu_ok cpu1" "abs_cpu cpu1 = next_ip ((abs_cpu cpu)\<lparr>last_cmp := ?o\<rparr>)" by auto
  have "isa_exec in2 (decode j) (abs_cpu cpu1) =
      (if holds c ?o then (abs_cpu cpu1)\<lparr>ip := n * 11\<rparr> else next_ip (abs_cpu cpu1), Done)"
    using 1 by (simp add: isa_exec_def jmp next_ip_def)
  from execute_implements [OF 1(1) ex2 this]
  have "abs_cpu cpu2 = (if holds c ?o then (abs_cpu cpu1)\<lparr>ip := n * 11\<rparr> else next_ip (abs_cpu cpu1))"
    by auto
  then have "ip (abs_cpu cpu2) = (if holds c ?o then n * 11 else ip (abs_cpu cpu) + 22)"
    "rf (abs_cpu cpu2) = rf (abs_cpu cpu)"
    using 1(2) by (auto simp: next_ip_def)
  then show ?thesis by (simp add: abs_cpu_def)
qed

lemma compare_then_jump:
  assumes "cpu_ok cpu" and "decode i = Some (Compare q x)" and "decode j = Some (Jump c n)"
    and "execute_instruction in1 cpu b i = (cpu1, b1, r1)"
    and "execute_instruction in2 cpu1 b1 j = (cpu2, b2, r2)"
    and "l = sint (regs cpu ! reg_idx q)" and "r = sint (src_val (abs_cpu cpu) x)"
    and "- (2 ^ 63) \<le> l - r" and "l - r < 2 ^ 63"
  shows "pc cpu2 = (if signed_holds c l r then n * INSTR_SIZE else pc cpu + 2 * INSTR_SIZE) \<and>
         rf (abs_cpu cpu2) = rf (abs_cpu cpu)"
  using compare_then_jump_isa [OF assms(1-5)] assms(6-9)
  by (cases c) (auto simp: compare_words_exact)



text \<open>
  C37.  When the difference does not fit, the subtraction wraps and the branch is taken on the
  reversed order: the driver has no overflow flag to correct the sign with.
\<close>

theorem compare_then_jump_overflow:
  assumes "cpu_ok cpu" and "decode i = Some (Compare q x)" and "decode j = Some (Jump c n)"
    and "execute_instruction in1 cpu b i = (cpu1, b1, r1)"
    and "execute_instruction in2 cpu1 b1 j = (cpu2, b2, r2)"
    and "l = sint (regs cpu ! reg_idx q)" and "r = sint (src_val (abs_cpu cpu) x)"
    and "l - r < - (2 ^ 63) \<or> 2 ^ 63 \<le> l - r"
  shows "pc cpu2 = (if signed_holds c r l then n * INSTR_SIZE else pc cpu + 2 * INSTR_SIZE)"
  using compare_then_jump_isa [OF assms(1-5)] assms(6-8)
    compare_words_overflow [of "regs cpu ! reg_idx q" "src_val (abs_cpu cpu) x"]
  by (cases c) auto

theorem compare_then_jump_overflow_witness:
  "\<exists>cpu1 b1 r1 cpu2 b2 r2.
     execute_instruction 0 (zero_cpu\<lparr>regs := [0x8000000000000000, 0, 0, 0]\<rparr>) dark_board (ins CMP_OP IMMEDIATE 0 1) =
       (cpu1, b1, r1) \<and>
     execute_instruction 0 cpu1 b1 (ins JG_OP LABEL 255 9) = (cpu2, b2, r2) \<and>
     sint (regs cpu1 ! 0) < 1 \<and> pc cpu2 = 9 * INSTR_SIZE"
proof -
  let ?c = "zero_cpu\<lparr>regs := [0x8000000000000000, 0, 0, 0]\<rparr>"
  have ok: "cpu_ok ?c" by (simp add: cpu_ok_def zero_cpu_simps flags_ok_def)
  have d: "decode (ins CMP_OP IMMEDIATE 0 1) = Some (Compare R0 (Imm 1))"
      "decode (ins JG_OP LABEL 255 9) = Some (Jump If_greater 9)"
    by (simp_all add: decode_def two_operands_def reg_of_def src_of_def)
  have e: "execute_instruction 0 ?c dark_board (ins CMP_OP IMMEDIATE 0 1) =
      (?c\<lparr>fr := 0, pc := 11\<rparr>, dark_board, 0)"
    by (simp add: exec_simps zero_cpu_simps)
  obtain cpu2 b2 r2 where j: "execute_instruction 0 (?c\<lparr>fr := 0, pc := 11\<rparr>) dark_board (ins JG_OP LABEL 255 9) =
      (cpu2, b2, r2)" by (metis prod_cases3)
  have "pc cpu2 = 9 * INSTR_SIZE"
    using compare_then_jump_overflow [OF ok d e j refl refl] by (simp add: zero_cpu_simps)
  then show ?thesis using e j by auto
qed

text \<open>
  A request for memory names an address below the memory-mapped range and the register the
  instruction named, so the eight bytes the client accesses there lie inside its memory.
\<close>

lemma pending_address_bound:
  assumes "cpu_ok cpu" and "execute_instruction input cpu b i = (cpu', b', r)"
    and "r = EXEC_PENDING_MEM_READ \<or> r = EXEC_PENDING_MEM_WRITE"
  shows "pending_mem_addr cpu' = operand2 i \<and> pending_reg_idx cpu' = operand1 i \<and>
         unat (pending_mem_addr cpu') + 7 < 0x10000 \<and> regs cpu' = regs cpu"
proof -
  obtain s' ev where sp: "isa_exec input (decode i) (abs_cpu cpu) = (s', ev)" by fastforce
  note impl = execute_implements [OF assms(1,2) sp]
  have "(ev = Want_read (operand1 i) (operand2 i) \<or> ev = Want_write (operand1 i) (operand2 i)) \<and>
      operand2 i < MMIO_START \<and> s' = next_ip (abs_cpu cpu)"
  proof (cases "decode i")
    case (Some a)
    with sp impl assms(3) show ?thesis
      by (cases a) (auto simp: isa_exec_def Let_def decode_def decode_mov_def two_operands_def
          split: if_splits option.splits)
  qed (use sp impl assms(3) in \<open>simp add: isa_exec_def\<close>)
  then have ev: "pending_mem_addr cpu' = operand2 i" "pending_reg_idx cpu' = operand1 i"
      "operand2 i < MMIO_START" and st: "abs_cpu cpu' = next_ip (abs_cpu cpu)"
    using impl by auto
  have "regs cpu' = regs cpu"
  proof (rule nth_equalityI)
    show len: "length (regs cpu') = length (regs cpu)" using impl assms(1) by (simp add: cpu_ok_def)
    fix k assume "k < length (regs cpu')"
    then have "k < 4" using impl by (simp add: cpu_ok_def)
    then obtain q where "k = reg_idx q"
      using less_4_cases [of k] by (metis reg_idx.simps)
    moreover have "rf (abs_cpu cpu') q = rf (abs_cpu cpu) q" by (simp add: st next_ip_def)
    ultimately show "regs cpu' ! k = regs cpu ! k" by simp
  qed
  moreover have "unat (operand2 i) < 0xFFF0" using ev(3) by (simp add: word_less_nat_alt)
  ultimately show ?thesis using ev by simp
qed


text \<open>
  C38.  A read of the input device always succeeds, whatever the pin's driver returned: the register
  receives the low byte of the value, also of a negative error code.
\<close>

theorem mmio_read_keeps_low_byte:
  assumes "cpu_ok cpu" and "decode i = Some (Input q)"
    and "execute_instruction input cpu b i = (cpu', b', r)"
  shows "r = EXEC_PENDING_MMIO_READ \<and> uint (regs cpu' ! reg_idx q) = input mod 256 \<and>
         pc cpu' = pc cpu + INSTR_SIZE"
proof -
  have sp: "isa_exec input (decode i) (abs_cpu cpu) =
      (next_ip (set_reg q (ucast (word_of_int input :: u8)) (abs_cpu cpu)),
       Got_input (word_of_int input))"
    by (simp add: isa_exec_def assms(2) Let_def)
  note impl = execute_implements [OF assms(1,3) sp]
  then have "rf (abs_cpu cpu') q = ucast (word_of_int input :: u8)"
    and "ip (abs_cpu cpu') = ip (abs_cpu cpu) + 11"
    by (simp_all add: next_ip_def set_reg_def del: rf_abs)
  then show ?thesis using impl
    by (simp add: abs_cpu_def unsigned_ucast_eq unsigned_of_int take_bit_eq_mod uint_word_of_int)
qed

theorem mmio_read_keeps_low_byte_witness:
  "\<exists>cpu' b'. execute_instruction (- 5) zero_cpu dark_board (ins MOV_OP DIRECT_LOAD 0 MMIO_INPUT) =
       (cpu', b', EXEC_PENDING_MMIO_READ) \<and>
     uint (regs cpu' ! 0) = 251 \<and> pc cpu' = pc zero_cpu + INSTR_SIZE"
proof -
  have d: "decode (ins MOV_OP DIRECT_LOAD 0 MMIO_INPUT) = Some (Input R0)"
    by (simp add: decode_def decode_mov_def reg_of_def)
  obtain cpu' b' r where e: "execute_instruction (- 5) zero_cpu dark_board (ins MOV_OP DIRECT_LOAD 0 MMIO_INPUT) = (cpu', b', r)"
    by (metis prod_cases3)
  from mmio_read_keeps_low_byte [OF cpu_ok_zero d e] e show ?thesis by auto
qed

end
