(* ===== verification/Cpu_Gate.thy ===== *)
theory Cpu_Gate
  imports Cpu_Core
begin

text \<open>
  What decides when the CPU driver executes an instruction: the run, pause and step interrupt
  handlers, the condition \<open>cpu_read\<close> waits for, the step tokens it consumes and the tick delay.
  The three atomic counters are shared by the handlers and the reader; the handlers and the reader
  interleave at the points where the code reads or writes one of them.
\<close>

subsection \<open>The shared counters and the interrupt handlers\<close>

text \<open>
  An \<open>atomic_t\<close> is a signed 32-bit integer.  The two switches only ever hold the \<open>int\<close> that a pin read
  returned, or 0 or 1, and are compared with 0; the step counter is incremented and decremented, and
  wraps around.
\<close>

record gate =
  cpu_running :: int
  cpu_paused :: int
  step_count :: i32

text \<open>The tokens in hand: the step counter as \<open>atomic_read\<close> returns it.\<close>

abbreviation steps_left :: "gate \<Rightarrow> int" where
  "steps_left g \<equiv> sint (step_count g)"

text \<open>The module's static initialisers.\<close>

definition gate_init :: gate where
  "gate_init = \<lparr>cpu_running = 0, cpu_paused = 0, step_count = 0\<rparr>"

text \<open>\<open>v\<close> is what \<open>gpiod_get_value_cansleep\<close> returns for the handler's pin.\<close>

definition run_irq_thread :: "int \<Rightarrow> gate \<Rightarrow> gate" where
  "run_irq_thread v g = (if v \<noteq> 0 then g\<lparr>cpu_running := 1\<rparr> else g)"

definition pause_irq_thread :: "int \<Rightarrow> gate \<Rightarrow> gate" where
  "pause_irq_thread v g = (if v \<noteq> 0 then g\<lparr>cpu_paused := 1\<rparr> else g\<lparr>cpu_paused := 0\<rparr>)"

text \<open>
  The step handler gives up at once when the CPU is not paused; otherwise it sleeps for the
  debounce time and then samples the button, with the other handlers running in between.
\<close>

definition step_irq_begins :: "gate \<Rightarrow> bool" where
  "step_irq_begins g \<longleftrightarrow> cpu_paused g \<noteq> 0"

definition step_irq_finish :: "int \<Rightarrow> gate \<Rightarrow> gate" where
  "step_irq_finish v g = (if v \<noteq> 0 then g\<lparr>step_count := step_count g + 1\<rparr> else g)"

subsection \<open>The reader's gate and the tick delay\<close>

definition can_execute :: "gate \<Rightarrow> bool" where
  "can_execute g \<longleftrightarrow> cpu_running g \<noteq> 0 \<and> (cpu_paused g = 0 \<or> steps_left g > 0)"

text \<open>Past the wait: consume a step token, or report that the tick delay is due.\<close>

definition take_token :: "gate \<Rightarrow> gate \<times> bool" where
  "take_token g = (if steps_left g > 0 then (g\<lparr>step_count := step_count g - 1\<rparr>, False)
                   else (g, True))"

datatype delay = Usleep_range u32 u32 | Msleep u32

definition pause :: "u32 \<Rightarrow> delay" where
  "pause clock_speed =
    (if clock_speed < 20 then
       (let adjusted_clock = clock_speed * 1000;
            max = adjusted_clock + adjusted_clock div 50
        in Usleep_range adjusted_clock max)
     else Msleep clock_speed)"

text \<open>The shortest and longest sleep a delay asks for, in microseconds.\<close>

fun delay_bounds :: "delay \<Rightarrow> nat \<times> nat" where
  "delay_bounds (Usleep_range lo hi) = (unat lo, unat hi)"
| "delay_bounds (Msleep ms) = (unat ms * 1000, unat ms * 1000)"

subsection \<open>The handlers and one reader interleaved\<close>

text \<open>
  The reader is the userspace program, which has one system call in flight at a time.  A system
  state holds the counters, the reader's position in \<open>cpu_read\<close>, whether the step handler is
  between its two halves, and three history counters that no step reads: instructions executed,
  step tokens granted, step tokens consumed.
\<close>

datatype phase = Idle | Waiting | Woken | Ready

record gate_sys =
  gate_of :: gate
  phase_of :: phase
  step_sleeping :: bool
  executed :: nat
  granted :: nat
  consumed :: nat

definition gate_sys_init :: gate_sys where
  "gate_sys_init = \<lparr>gate_of = gate_init, phase_of = Idle, step_sleeping = False,
     executed = 0, granted = 0, consumed = 0\<rparr>"

text \<open>
  \<open>cpu_open\<close> sets the two switches from their pins and leaves the tokens alone; it gives up
  before that when the run switch cannot be read.
\<close>

definition open_gate :: "int \<Rightarrow> int \<Rightarrow> gate \<Rightarrow> gate" where
  "open_gate run_val pause_val g = g\<lparr>cpu_running := run_val, cpu_paused := pause_val\<rparr>"

inductive gate_step :: "gate_sys \<Rightarrow> gate_sys \<Rightarrow> bool" where
  run_irq: "gate_step s (s\<lparr>gate_of := run_irq_thread v (gate_of s)\<rparr>)"
| pause_irq: "gate_step s (s\<lparr>gate_of := pause_irq_thread v (gate_of s)\<rparr>)"
| step_irq_begin: "\<not> step_sleeping s \<Longrightarrow>
    gate_step s (s\<lparr>step_sleeping := step_irq_begins (gate_of s)\<rparr>)"
| step_irq_end: "step_sleeping s \<Longrightarrow>
    gate_step s (s\<lparr>step_sleeping := False, gate_of := step_irq_finish v (gate_of s),
                  granted := (if v \<noteq> 0 then granted s + 1 else granted s)\<rparr>)"
| open_device: "r \<ge> 0 \<Longrightarrow>
    gate_step s (s\<lparr>gate_of := open_gate r p (gate_of s)\<rparr>)"
| read_begin: "phase_of s = Idle \<Longrightarrow> gate_step s (s\<lparr>phase_of := Waiting\<rparr>)"
| read_interrupted: "phase_of s = Waiting \<Longrightarrow> gate_step s (s\<lparr>phase_of := Idle\<rparr>)"
| read_wakes: "phase_of s = Waiting \<Longrightarrow> can_execute (gate_of s) \<Longrightarrow>
    gate_step s (s\<lparr>phase_of := Woken\<rparr>)"
| read_takes: "phase_of s = Woken \<Longrightarrow> take_token (gate_of s) = (g', delayed) \<Longrightarrow>
    gate_step s (s\<lparr>phase_of := Ready, gate_of := g',
                  consumed := (if delayed then consumed s else consumed s + 1)\<rparr>)"
| read_executes: "phase_of s = Ready \<Longrightarrow>
    gate_step s (s\<lparr>phase_of := Idle, executed := executed s + 1\<rparr>)"

inductive gate_reachable :: "gate_sys \<Rightarrow> bool" where
  start: "gate_reachable gate_sys_init"
| step: "gate_reachable s \<Longrightarrow> gate_step s t \<Longrightarrow> gate_reachable t"

text \<open>A stretch of steps during which a condition on the counters holds before and after each.\<close>

inductive steps_while :: "(gate \<Rightarrow> bool) \<Rightarrow> gate_sys \<Rightarrow> gate_sys \<Rightarrow> bool" for P where
  refl: "P (gate_of s) \<Longrightarrow> steps_while P s s"
| step: "steps_while P s t \<Longrightarrow> gate_step t u \<Longrightarrow> P (gate_of u) \<Longrightarrow> steps_while P s u"

lemmas gate_defs = run_irq_thread_def pause_irq_thread_def step_irq_begins_def step_irq_finish_def
  can_execute_def take_token_def open_gate_def

subsection \<open>Tokens\<close>

text \<open>
  The counter is the tokens granted less those consumed, modulo its width; as long as fewer than
  \<open>2 ^ 31\<close> have been granted it is exactly that, and not negative.
\<close>

definition tokens_balance :: "gate_sys \<Rightarrow> bool" where
  "tokens_balance s \<longleftrightarrow> step_count (gate_of s) = of_nat (granted s) - of_nat (consumed s) \<and>
     (granted s < 2 ^ 31 \<longrightarrow> steps_left (gate_of s) = int (granted s) - int (consumed s) \<and> consumed s \<le> granted s)"

lemma gate_step_tokens [inv_intros]: "gate_step s t \<Longrightarrow> tokens_balance s \<Longrightarrow> tokens_balance t"
  by (induction rule: gate_step.induct)
    (auto simp: tokens_balance_def gate_defs sint_inc sint_dec split: if_splits)

lemma steps_while_reachable: "steps_while P s t \<Longrightarrow> gate_reachable s \<Longrightarrow> gate_reachable t"
  by (induction rule: steps_while.induct) (auto intro: gate_reachable.step)

lemma step_tokens_conserved:
  assumes "gate_reachable s"
  shows "tokens_balance s"
  using assms
proof (induction rule: gate_reachable.induct)
  case start
  show ?case by (simp add: tokens_balance_def gate_sys_init_def gate_init_def)
next
  case (step s t)
  then show ?case by (blast intro: gate_step_tokens)
qed

subsection \<open>The pause switch\<close>

text \<open>
  An execution that is under way without a token of its own.  A reader that has woken up with
  a token available will consume it, so it is not counted twice.
\<close>

definition in_flight :: "gate_sys \<Rightarrow> int" where
  "in_flight s =
    (case phase_of s of
       Ready \<Rightarrow> 1
     | Woken \<Rightarrow> if steps_left (gate_of s) > 0 then 0 else 1
     | _ \<Rightarrow> 0)"

definition paused_budget :: "gate_sys \<Rightarrow> int" where
  "paused_budget s = int (executed s) + in_flight s + max 0 (steps_left (gate_of s)) - int (granted s)"

lemma gate_step_paused_budget:
  "gate_step s t \<Longrightarrow> cpu_paused (gate_of s) \<noteq> 0 \<Longrightarrow> paused_budget t \<le> paused_budget s"
  by (induction rule: gate_step.induct)
    (auto simp: paused_budget_def in_flight_def gate_defs sint_inc sint_dec split: if_splits phase.splits)

lemma steps_while_P: "steps_while P s t \<Longrightarrow> P (gate_of t)"
  by (induction rule: steps_while.induct) auto

lemma steps_while_budget:
  assumes "steps_while (\<lambda>g. cpu_paused g \<noteq> 0) s t"
  shows "paused_budget t \<le> paused_budget s"
  using assms
proof (induction rule: steps_while.induct)
  case (step s t u)
  have "paused_budget u \<le> paused_budget t"
    by (rule gate_step_paused_budget [OF step.hyps(2) steps_while_P [OF step.hyps(1)]])
  with step.IH show ?case by simp
qed simp

text \<open>
  C30.  While the pause switch is on, the driver executes at most one instruction already under way,
  and beyond that one per step token: the tokens in hand when the stretch began, if the counter is
  positive, and those the button grants during it.  This holds from every state, also when the
  counter wraps around.
\<close>

theorem paused_executes_only_steps:
  assumes "steps_while (\<lambda>g. cpu_paused g \<noteq> 0) s t"
  shows "int (executed t) - int (executed s) \<le>
         1 + max 0 (steps_left (gate_of s)) + (int (granted t) - int (granted s))"
proof -
  have "in_flight t \<ge> 0" "in_flight s \<le> 1"
    by (auto simp: in_flight_def split: phase.splits)
  then show ?thesis using steps_while_budget [OF assms] by (simp add: paused_budget_def)
qed


text \<open>A run used by the witnesses: the device is opened paused, and one button press follows.\<close>

abbreviation gs :: "int \<Rightarrow> int \<Rightarrow> i32 \<Rightarrow> phase \<Rightarrow> bool \<Rightarrow> nat \<Rightarrow> nat \<Rightarrow> nat \<Rightarrow> gate_sys" where
  "gs r p n ph sl e g c \<equiv>
     \<lparr>gate_of = \<lparr>cpu_running = r, cpu_paused = p, step_count = n\<rparr>, phase_of = ph,
      step_sleeping = sl, executed = e, granted = g, consumed = c\<rparr>"

lemma gate_run_open: "gate_reachable (gs 1 1 0 Idle False 0 0 0)"
  using gate_reachable.step [OF gate_reachable.start gate_step.open_device [of 1 _ 1]]
  by (simp add: gate_sys_init_def gate_init_def open_gate_def)

lemma gate_run_press:
  assumes "\<And>n. P \<lparr>cpu_running = 1, cpu_paused = 1, step_count = n\<rparr>"
  shows "steps_while P (gs 1 1 0 Idle False 0 0 0) (gs 1 1 0 Idle False 1 1 1)"
proof -
  have 0: "steps_while P (gs 1 1 0 Idle False 0 0 0) (gs 1 1 0 Idle False 0 0 0)"
    by (simp add: steps_while.refl assms)
  have 1: "steps_while P (gs 1 1 0 Idle False 0 0 0) (gs 1 1 0 Idle True 0 0 0)"
    using steps_while.step [OF 0 gate_step.step_irq_begin] assms by (simp add: step_irq_begins_def)
  have 2: "steps_while P (gs 1 1 0 Idle False 0 0 0) (gs 1 1 1 Idle False 0 1 0)"
    using steps_while.step [OF 1 gate_step.step_irq_end [of _ 1]] assms
    by (simp add: step_irq_finish_def)
  have 3: "steps_while P (gs 1 1 0 Idle False 0 0 0) (gs 1 1 1 Waiting False 0 1 0)"
    using steps_while.step [OF 2 gate_step.read_begin] assms by simp
  have 4: "steps_while P (gs 1 1 0 Idle False 0 0 0) (gs 1 1 1 Woken False 0 1 0)"
    using steps_while.step [OF 3 gate_step.read_wakes] assms by (simp add: can_execute_def)
  have 5: "steps_while P (gs 1 1 0 Idle False 0 0 0) (gs 1 1 0 Ready False 0 1 1)"
    using steps_while.step [OF 4 gate_step.read_takes
        [of _ "\<lparr>cpu_running = 1, cpu_paused = 1, step_count = 0\<rparr>" False]] assms
    by (simp add: take_token_def)
  show ?thesis using steps_while.step [OF 5 gate_step.read_executes] assms by simp
qed


theorem paused_executes_only_steps_witness:
  "\<exists>s t. gate_reachable s \<and> steps_while (\<lambda>g. cpu_paused g \<noteq> 0) s t \<and>
     executed t = executed s + 1 \<and> steps_left (gate_of s) = 0 \<and> granted t = granted s + 1 \<and>
     int (executed t) - int (executed s) \<le> 1 + max 0 (steps_left (gate_of s)) + (int (granted t) - int (granted s))"
proof -
  have r: "steps_while (\<lambda>g. cpu_paused g \<noteq> 0) (gs 1 1 0 Idle False 0 0 0) (gs 1 1 0 Idle False 1 1 1)"
    by (rule gate_run_press) simp
  show ?thesis
    using gate_run_open r paused_executes_only_steps [OF r]
    by (intro exI [of _ "gs 1 1 0 Idle False 0 0 0"] exI [of _ "gs 1 1 0 Idle False 1 1 1"]) simp
qed

definition running_budget :: "gate_sys \<Rightarrow> nat" where
  "running_budget s = executed s + (case phase_of s of Ready \<Rightarrow> 1 | Woken \<Rightarrow> 1 | _ \<Rightarrow> 0)"

lemma gate_step_running_budget:
  "gate_step s t \<Longrightarrow> cpu_running (gate_of s) = 0 \<Longrightarrow> running_budget t \<le> running_budget s"
  by (induction rule: gate_step.induct)
    (auto simp: running_budget_def gate_defs split: phase.splits)

text \<open>
  While the run switch has not been turned on since the device was opened, nothing executes
  but an instruction that was already under way, whatever the step button grants.
\<close>

lemma stopped_executes_nothing:
  assumes "steps_while (\<lambda>g. cpu_running g = 0) s t"
  shows "executed t \<le> executed s + 1 \<and>
         (phase_of s = Idle \<or> phase_of s = Waiting \<longrightarrow> executed t = executed s)"
proof -
  have "running_budget t \<le> running_budget s \<and> executed s \<le> executed t"
    using assms
  proof (induction rule: steps_while.induct)
    case (step s t u)
    have "cpu_running (gate_of t) = 0"
      using steps_while_P [OF step.hyps(1)] by simp
    then have "running_budget u \<le> running_budget t"
      by (rule gate_step_running_budget [OF step.hyps(2)])
    moreover have "executed t \<le> executed u"
      using step.hyps(2) by (auto elim!: gate_step.cases)
    ultimately show ?case using step.IH by linarith
  qed simp
  then show ?thesis by (auto simp: running_budget_def split: phase.splits)
qed


subsection \<open>The tick delay\<close>

text \<open>
  The tick delay never sleeps less than the configured clock period, never more than 2 percent
  above it, and the range handed to the kernel is not inverted; no multiplication wraps around.
\<close>

lemma pause_delay_bounds:
  "case delay_bounds (pause c) of (lo, hi) \<Rightarrow>
     lo = 1000 * unat c \<and> lo \<le> hi \<and> 50 * hi \<le> 51 * lo"
proof (cases "c < 20")
  case True
  then have c: "unat c < 20" by (simp add: word_less_nat_alt)
  have 1: "unat (c * 1000) = unat c * 1000"
    using c by (subst unat_mult_lem [THEN iffD1]) simp_all
  have 2: "unat (c * 1000 div 50) = unat c * 20"
    by (simp add: unat_div 1)
  have "unat (c * 1000 + c * 1000 div 50) = unat c * 1020"
    using c 1 2 by (subst unat_add_lem [THEN iffD1]) simp_all
  with True 1 show ?thesis by (simp add: pause_def Let_def)
next
  case False
  then show ?thesis by (simp add: pause_def)
qed

end
