(* ===== verification/Cpu_Device.thy ===== *)
theory Cpu_Device
  imports Cpu_Isa Cpu_Gate
begin

text \<open>
  The character device \<open>/dev/cpu_emulator\<close> (\<open>cpu_open\<close>, \<open>cpu_release\<close>, \<open>cpu_write\<close> and
  \<open>cpu_read\<close> of the CPU driver).  A system call may block, may fault in the kernel, or returns;
  what the kernel supplies to it (the copy from and to the user's buffer, pin values, a signal, the
  allocation) is an argument.
\<close>

subsection \<open>Contexts and results of system calls\<close>

record cpu_context =
  ctx_cpu :: my_cpu
  pending_instruction :: instruction

datatype kfault = Null_deref

datatype 'a syscall = Blocks | Oops kfault | Returns 'a

definition zero_instruction :: instruction where
  "zero_instruction = \<lparr>operand2 = 0, operand1 = 0, opcode = 0, mode = 0\<rparr>"

definition zero_context :: cpu_context where
  "zero_context = \<lparr>ctx_cpu = zero_cpu, pending_instruction = zero_instruction\<rparr>"

abbreviation (input) sizeof_write_value :: nat where "sizeof_write_value \<equiv> 32"
abbreviation (input) sizeof_read_value :: nat where "sizeof_read_value \<equiv> 32"

subsection \<open>Opening\<close>

text \<open>
  \<open>run_val\<close> and \<open>pause_val\<close> are the pins' values, negative on an error; \<open>alloc\<close> says whether
  \<open>kzalloc\<close> succeeds.  An error of the pause switch is logged and stored all the same.
\<close>

definition cpu_open ::
    "int \<Rightarrow> int \<Rightarrow> bool \<Rightarrow> gate \<Rightarrow> gate \<times> cpu_context option \<times> status" where
  "cpu_open run_val pause_val alloc g =
    (if run_val < 0 then (g, None, run_val)
     else
       (let g1 = g\<lparr>cpu_running := run_val\<rparr>;
            g2 = g1\<lparr>cpu_paused := pause_val\<rparr>
        in if \<not> alloc then (g2, None, - ENOMEM) else (g2, Some zero_context, 0)))"

text \<open>\<open>cpu_release\<close> frees the context of the file.\<close>

definition cpu_release :: "cpu_context option \<Rightarrow> cpu_context option \<times> status" where
  "cpu_release private_data = (None, 0)"

subsection \<open>Writing\<close>

text \<open>\<open>buf\<close> is what \<open>copy_from_user\<close> yields, \<open>None\<close> when it fails.\<close>

definition cpu_write ::
    "nat \<Rightarrow> write_value option \<Rightarrow> cpu_context \<Rightarrow> board \<Rightarrow> (cpu_context \<times> board \<times> status) syscall"
  where
  "cpu_write len buf ctx b =
    (if len \<noteq> sizeof_write_value then Returns (ctx, b, - EINVAL)
     else
       (case buf of
          None \<Rightarrow> Returns (ctx, b, - EFAULT)
        | Some wv \<Rightarrow>
            (if is_instruction wv \<noteq> 0 then
               Returns (ctx\<lparr>pending_instruction := wv_instruction wv\<rparr>, b, int len)
             else
               (let cpu = ctx_cpu ctx; prev_state = cpu
                in case get_register (ucast (pending_reg_idx cpu)) of
                     None \<Rightarrow> Oops Null_deref
                   | Some reg \<Rightarrow>
                       (let cpu' = assign reg (wv_val wv) cpu
                        in Returns (ctx\<lparr>ctx_cpu := cpu'\<rparr>, set_diodes cpu' prev_state b, int len))))))"

subsection \<open>Reading\<close>

text \<open>
  The part of \<open>cpu_read\<close> after the wait and the tick delay: execute the pending instruction and
  fill the buffer.  \<open>copied\<close> says whether \<open>copy_to_user\<close> succeeds.
\<close>

definition read_execute ::
    "int \<Rightarrow> bool \<Rightarrow> nat \<Rightarrow> cpu_context \<Rightarrow> board \<Rightarrow>
       (cpu_context \<times> board \<times> status \<times> read_value option) syscall" where
  "read_execute input copied len ctx b =
    (case execute_instruction input (ctx_cpu ctx) b (pending_instruction ctx) of
       (cpu, b', exec_res) \<Rightarrow>
         (let ctx' = ctx\<lparr>ctx_cpu := cpu\<rparr>;
              read_buf = \<lparr>rv_pc = pc cpu, rv_mem_addr = 0, rv_val = 0, exec_return = exec_res\<rparr>;
              finish = (\<lambda>buf. if copied then Returns (ctx', b', int len, Some buf)
                              else Returns (ctx', b', - EFAULT, None))
          in if exec_res = - EINVAL then Returns (ctx', b', - EINVAL, None)
             else if exec_res = EXEC_PENDING_MEM_READ then
               finish (read_buf\<lparr>rv_mem_addr := pending_mem_addr cpu\<rparr>)
             else if exec_res = EXEC_PENDING_MEM_WRITE then
               (case get_register (ucast (pending_reg_idx cpu)) of
                  None \<Rightarrow> Oops Null_deref
                | Some reg \<Rightarrow>
                    finish (read_buf\<lparr>rv_mem_addr := pending_mem_addr cpu, rv_val := deref cpu reg\<rparr>))
             else if exec_res = EXEC_PENDING_MMIO_READ then
               finish (read_buf\<lparr>rv_val := ucast (pending_mmio_read cpu)\<rparr>)
             else finish read_buf))"

text \<open>
  The whole call.  \<open>signalled\<close> says that a signal ends the wait; otherwise the call waits until
  \<open>can_execute\<close> holds of the counters \<open>g\<close>.  Besides the context and the board it returns the
  counters, whether the tick delay was slept, the status and the buffer.
\<close>

definition cpu_read ::
    "nat \<Rightarrow> bool \<Rightarrow> int \<Rightarrow> bool \<Rightarrow> gate \<Rightarrow> cpu_context \<Rightarrow> board \<Rightarrow>
       (gate \<times> bool \<times> cpu_context \<times> board \<times> status \<times> read_value option) syscall" where
  "cpu_read len signalled input copied g ctx b =
    (if len \<noteq> sizeof_read_value then Returns (g, False, ctx, b, - EINVAL, None)
     else if \<not> can_execute g then
       (if signalled then Returns (g, False, ctx, b, - ERESTARTSYS, None) else Blocks)
     else
       (case take_token g of
          (g', delayed) \<Rightarrow>
            (case read_execute input copied len ctx b of
               Blocks \<Rightarrow> Blocks
             | Oops f \<Rightarrow> Oops f
             | Returns (ctx', b', r, buf) \<Rightarrow> Returns (g', delayed, ctx', b', r, buf))))"


subsection \<open>What the device promises its client\<close>

text \<open>
  The abstract answer to an execution: nothing for a refused instruction, a kernel fault for a store
  of a register that does not exist, and otherwise the buffer with the new program counter and
  what the client needs to finish the instruction.
\<close>

definition answer :: "isa_state \<Rightarrow> event \<Rightarrow> read_value" where
  "answer s ev =
    (let base = \<lparr>rv_pc = ip s, rv_mem_addr = 0, rv_val = 0, exec_return = status_of ev\<rparr>
     in case ev of
          Want_read k a \<Rightarrow> base\<lparr>rv_mem_addr := a\<rparr>
        | Want_write k a \<Rightarrow>
            base\<lparr>rv_mem_addr := a, rv_val := (case reg_of (ucast k) of None \<Rightarrow> 0 | Some q \<Rightarrow> rf s q)\<rparr>
        | Got_input v \<Rightarrow> base\<lparr>rv_val := ucast v\<rparr>
        | _ \<Rightarrow> base)"

definition faults :: "event \<Rightarrow> bool" where
  "faults ev \<longleftrightarrow> (\<exists>k a. ev = Want_write k a \<and> reg_of (ucast k) = None)"

lemma reg_of_None_iff: "reg_of (ucast (k :: u8)) = None \<longleftrightarrow> k > 3"
proof -
  have "uint k < 256" using uint_lt2p [of k] by simp
  moreover have "uint k = 0 \<or> uint k = 1 \<or> uint k = 2 \<or> uint k = 3 \<or> 3 < uint k"
    using uint_ge_0 [of k] by linarith
  ultimately show ?thesis
    by (auto simp: reg_of_def word_uint_eq_iff word_less_def unsigned_ucast_eq take_bit_eq_mod)
qed

lemma read_execute_cases:
  assumes ok: "cpu_ok (ctx_cpu ctx)"
    and spec: "isa_exec input (decode (pending_instruction ctx)) (abs_cpu (ctx_cpu ctx)) = (s', ev)"
  obtains cpu' b' where "cpu_ok cpu'" "abs_cpu cpu' = s'" "reports ev cpu'"
    "output_value b' = pin_after ev (output_value b)"
    "ev = Rejected \<Longrightarrow> cpu' = ctx_cpu ctx"
    "read_execute input copied len ctx b =
      (if faults ev then Oops Null_deref
       else if ev = Rejected then Returns (ctx\<lparr>ctx_cpu := cpu'\<rparr>, b', - EINVAL, None)
       else if copied then Returns (ctx\<lparr>ctx_cpu := cpu'\<rparr>, b', int len, Some (answer s' ev))
       else Returns (ctx\<lparr>ctx_cpu := cpu'\<rparr>, b', - EFAULT, None))"
proof -
  obtain cpu' b' r where
    ex: "execute_instruction input (ctx_cpu ctx) b (pending_instruction ctx) = (cpu', b', r)"
    using prod_cases3 by blast
  note impl = execute_implements [OF ok ex spec]
  then have ok': "cpu_ok cpu'" and abs: "abs_cpu cpu' = s'" and rep: "reports ev cpu'"
    and pin: "output_value b' = pin_after ev (output_value b)"
    and rej: "ev = Rejected \<Longrightarrow> cpu' = ctx_cpu ctx"
    by (auto simp: set_diodes_def)
  have pc: "pc cpu' = ip s'" using abs by (auto simp: abs_cpu_def)
  have rv: "rf s' q = regs cpu' ! reg_idx q" for q using impl by auto
  have "read_execute input copied len ctx b =
      (if faults ev then Oops Null_deref
       else if ev = Rejected then Returns (ctx\<lparr>ctx_cpu := cpu'\<rparr>, b', - EINVAL, None)
       else if copied then Returns (ctx\<lparr>ctx_cpu := cpu'\<rparr>, b', int len, Some (answer s' ev))
       else Returns (ctx\<lparr>ctx_cpu := cpu'\<rparr>, b', - EFAULT, None))"
    using impl pc rv
    by (cases ev) (auto simp: read_execute_def ex Let_def faults_def answer_def get_register_reg_of
        split: option.splits)
  from that [OF ok' abs rep pin rej this] show thesis .
qed


lemma cpu_read_outcome:
  assumes "cpu_ok (ctx_cpu ctx)" and "can_execute g"
    and "isa_exec input (decode (pending_instruction ctx)) (abs_cpu (ctx_cpu ctx)) = (s', ev)"
  shows "case cpu_read sizeof_read_value signalled input True g ctx b of
           Blocks \<Rightarrow> False
         | Oops f \<Rightarrow> \<exists>k a. ev = Want_write k a \<and> k > 3
         | Returns (g', delayed, ctx', b', r, buf) \<Rightarrow>
             (g', delayed) = take_token g \<and> cpu_ok (ctx_cpu ctx') \<and> abs_cpu (ctx_cpu ctx') = s' \<and>
             pending_instruction ctx' = pending_instruction ctx \<and> reports ev (ctx_cpu ctx') \<and>
             output_value b' = pin_after ev (output_value b) \<and> \<not> (\<exists>k a. ev = Want_write k a \<and> k > 3) \<and>
             (if ev = Rejected then ctx_cpu ctx' = ctx_cpu ctx \<and> r = - EINVAL \<and> buf = None
              else r = int sizeof_read_value \<and> buf = Some (answer s' ev))"
proof -
  obtain cpu' b' where rd: "cpu_ok cpu'" "abs_cpu cpu' = s'" "reports ev cpu'"
    "output_value b' = pin_after ev (output_value b)" "ev = Rejected \<Longrightarrow> cpu' = ctx_cpu ctx"
    "read_execute input True sizeof_read_value ctx b =
      (if faults ev then Oops Null_deref
       else if ev = Rejected then Returns (ctx\<lparr>ctx_cpu := cpu'\<rparr>, b', - EINVAL, None)
       else Returns (ctx\<lparr>ctx_cpu := cpu'\<rparr>, b', int sizeof_read_value, Some (answer s' ev)))"
    using read_execute_cases [OF assms(1,3), of b True sizeof_read_value]
    by metis
  have f: "faults ev \<longleftrightarrow> (\<exists>k a. ev = Want_write k a \<and> k > 3)"
    by (simp add: faults_def reg_of_None_iff)
  show ?thesis
    unfolding cpu_read_def rd(6)
    using assms(2) rd(1-5) f by (auto split: prod.splits)
qed

text \<open>
  C21.  A read of the device that gets past the gate answers what the abstract machine does with the
  pending instruction: it returns the new program counter with the operands of the request, it
  refuses with \<open>EINVAL\<close> and leaves the CPU as it was, or it faults in the kernel, and the last
  happens exactly for a store to memory that names a register above 3.
\<close>

theorem cpu_read_refines_isa:
  assumes "cpu_ok (ctx_cpu ctx)" and "can_execute g"
    and "isa_exec input (decode (pending_instruction ctx)) (abs_cpu (ctx_cpu ctx)) = (s', ev)"
  shows "case cpu_read sizeof_read_value signalled input True g ctx b of
           Blocks \<Rightarrow> False
         | Oops f \<Rightarrow> \<exists>k a. ev = Want_write k a \<and> k > 3
         | Returns (g', delayed, ctx', b', r, buf) \<Rightarrow>
             (g', delayed) = take_token g \<and> cpu_ok (ctx_cpu ctx') \<and> abs_cpu (ctx_cpu ctx') = s' \<and>
             pending_instruction ctx' = pending_instruction ctx \<and> reports ev (ctx_cpu ctx') \<and>
             output_value b' = pin_after ev (output_value b) \<and> \<not> (\<exists>k a. ev = Want_write k a \<and> k > 3) \<and>
             (if ev = Rejected then ctx_cpu ctx' = ctx_cpu ctx \<and> r = - EINVAL \<and> buf = None
              else r = int sizeof_read_value \<and> buf = Some (answer s' ev))"
  by (rule cpu_read_outcome [OF assms])


abbreviation open_gate_state :: gate where
  "open_gate_state \<equiv> \<lparr>cpu_running = 1, cpu_paused = 0, step_count = 0\<rparr>"

theorem cpu_read_refines_isa_witness:
  "cpu_read sizeof_read_value False 0 True open_gate_state
     (zero_context\<lparr>pending_instruction := ins MOV_OP DIRECT_STORE 7 0x100\<rparr>) dark_board
   = Oops Null_deref \<and> (\<exists>k a. Want_write 7 0x100 = Want_write k a \<and> k > 3)"
proof -
  let ?ctx = "zero_context\<lparr>pending_instruction := ins MOV_OP DIRECT_STORE 7 0x100\<rparr>"
  have ok: "cpu_ok (ctx_cpu ?ctx)" by (simp add: zero_context_def cpu_ok_zero)
  have go: "can_execute open_gate_state" by (simp add: can_execute_def)
  have sp: "isa_exec 0 (decode (pending_instruction ?ctx)) (abs_cpu (ctx_cpu ?ctx)) =
      (next_ip (abs_cpu zero_cpu), Want_write 7 0x100)"
    by (simp add: decode_def decode_mov_def isa_exec_def zero_context_def)
  have "cpu_read sizeof_read_value False 0 True open_gate_state ?ctx dark_board = Oops Null_deref"
    by (simp add: cpu_read_def can_execute_def take_token_def read_execute_def exec_simps
        zero_context_def zero_cpu_simps)
  with cpu_read_refines_isa [OF ok go sp, where signalled = False and b = dark_board]
  show ?thesis by simp
qed

lemma write_instruction:
  "is_instruction wv \<noteq> 0 \<Longrightarrow> cpu_write sizeof_write_value (Some wv) ctx b =
     Returns (ctx\<lparr>pending_instruction := wv_instruction wv\<rparr>, b, int sizeof_write_value)"
  by (simp add: cpu_write_def)

lemma write_value_cases:
  assumes "cpu_ok (ctx_cpu ctx)" and "is_instruction wv = 0"
  shows "case reg_of (ucast (pending_reg_idx (ctx_cpu ctx))) of
      None \<Rightarrow> cpu_write sizeof_write_value (Some wv) ctx b = Oops Null_deref
    | Some q \<Rightarrow> \<exists>cpu' b'. cpu_write sizeof_write_value (Some wv) ctx b =
          Returns (ctx\<lparr>ctx_cpu := cpu'\<rparr>, b', int sizeof_write_value) \<and>
        cpu_ok cpu' \<and> abs_cpu cpu' = set_reg q (wv_val wv) (abs_cpu (ctx_cpu ctx)) \<and>
        output_value b' = output_value b"
  using assms
  by (auto simp: cpu_write_def Let_def get_register_reg_of abs_assign set_diodes_def
      intro: inv_intros split: option.splits)

text \<open>
  The two halves of a load make one load: after the read reports the address and the client
  writes back the value it found there, the register the instruction named holds that value, every
  other register, the flags and the program counter are those of the finished instruction, and a
  load into a register that does not exist faults in the kernel at the second half.
\<close>

lemma load_protocol:
  assumes "cpu_ok (ctx_cpu ctx)" and "can_execute g"
    and "decode (pending_instruction ctx) = Some (Load k a)"
    and "cpu_read sizeof_read_value signalled input True g ctx b = Returns (g', delayed, ctx1, b1, r, buf)"
    and "is_instruction wv = 0"
  shows "buf = Some \<lparr>rv_pc = pc (ctx_cpu ctx) + INSTR_SIZE, rv_mem_addr = a, rv_val = 0,
                      exec_return = EXEC_PENDING_MEM_READ\<rparr> \<and>
    (case cpu_write sizeof_write_value (Some wv) ctx1 b1 of
       Blocks \<Rightarrow> False
     | Oops f \<Rightarrow> k > 3
     | Returns (ctx2, b2, r2) \<Rightarrow>
         (\<exists>q. reg_of (ucast k) = Some q \<and>
            abs_cpu (ctx_cpu ctx2) = next_ip (set_reg q (wv_val wv) (abs_cpu (ctx_cpu ctx)))))"
proof -
  have sp: "isa_exec input (decode (pending_instruction ctx)) (abs_cpu (ctx_cpu ctx)) =
      (next_ip (abs_cpu (ctx_cpu ctx)), Want_read k a)"
    by (simp add: isa_exec_def assms(3))
  from cpu_read_outcome [OF assms(1,2) sp, where signalled = signalled and b = b] assms(4)
  have 1: "cpu_ok (ctx_cpu ctx1)" "abs_cpu (ctx_cpu ctx1) = next_ip (abs_cpu (ctx_cpu ctx))"
    "pending_reg_idx (ctx_cpu ctx1) = k"
    "buf = Some (answer (next_ip (abs_cpu (ctx_cpu ctx))) (Want_read k a))"
    by simp_all
  have "next_ip (set_reg q v s) = set_reg q v (next_ip s)" for q v s
    by (simp add: next_ip_def set_reg_def)
  with write_value_cases [OF 1(1) assms(5), of b1] 1 show ?thesis
    by (auto simp: answer_def next_ip_def abs_cpu_def reg_of_None_iff split: option.splits)
qed



subsection \<open>Sessions\<close>

text \<open>
  The contexts a client can bring about from an open device, by calls with arbitrary arguments and
  an arbitrary environment.
\<close>

inductive session :: "cpu_context \<Rightarrow> bool" where
  opened: "cpu_open run_val pause_val alloc g = (g', Some ctx, r) \<Longrightarrow> session ctx"
| wrote: "session ctx \<Longrightarrow> cpu_write len buf ctx b = Returns (ctx', b', r) \<Longrightarrow> session ctx'"
| read: "session ctx \<Longrightarrow>
    cpu_read len signalled input copied g ctx b = Returns (g', delayed, ctx', b', r, buf') \<Longrightarrow>
    session ctx'"

lemma cpu_write_ok [inv_intros]:
  "cpu_write len buf ctx b = Returns (ctx', b', r) \<Longrightarrow> cpu_ok (ctx_cpu ctx) \<Longrightarrow> cpu_ok (ctx_cpu ctx')"
  by (auto simp: cpu_write_def Let_def intro: inv_intros split: if_splits option.splits)

lemma read_execute_ok:
  assumes "read_execute input copied len ctx b = Returns (ctx', b', r, buf)" "cpu_ok (ctx_cpu ctx)"
  shows "cpu_ok (ctx_cpu ctx')"
proof -
  obtain s' ev where
    sp: "isa_exec input (decode (pending_instruction ctx)) (abs_cpu (ctx_cpu ctx)) = (s', ev)"
    by fastforce
  obtain cpu2 b2 where "cpu_ok cpu2" "read_execute input copied len ctx b =
      (if faults ev then Oops Null_deref
       else if ev = Rejected then Returns (ctx\<lparr>ctx_cpu := cpu2\<rparr>, b2, - EINVAL, None)
       else if copied then Returns (ctx\<lparr>ctx_cpu := cpu2\<rparr>, b2, int len, Some (answer s' ev))
       else Returns (ctx\<lparr>ctx_cpu := cpu2\<rparr>, b2, - EFAULT, None))"
    by (rule read_execute_cases [OF assms(2) sp, of b copied len])
  with assms(1) show ?thesis by (auto split: if_splits)
qed

lemma cpu_read_ok [inv_intros]:
  assumes "cpu_read len signalled input copied g ctx b = Returns (g', delayed, ctx', b', r, buf')"
    and "cpu_ok (ctx_cpu ctx)"
  shows "cpu_ok (ctx_cpu ctx')"
proof -
  have "ctx' = ctx \<or> (\<exists>b1 r1 buf1. read_execute input copied len ctx b = Returns (ctx', b1, r1, buf1))"
    using assms(1) by (auto simp: cpu_read_def split: if_splits prod.splits syscall.splits)
  with assms(2) show ?thesis by (metis read_execute_ok)
qed

text \<open>
  Whatever calls a client makes, in any order, with any buffers, lengths and faults of the
  copies, an open context stays well formed.
\<close>

lemma session_ok:
  assumes "session ctx"
  shows "cpu_ok (ctx_cpu ctx)"
  using assms
proof (induction rule: session.induct)
  case (opened run_val pause_val alloc g g' ctx r)
  then show ?case
    by (auto simp: cpu_open_def Let_def zero_context_def cpu_ok_zero split: if_splits)
next
  case (wrote ctx len buf b ctx' b' r)
  then show ?case by (blast intro: cpu_write_ok)
next
  case (read ctx len signalled input copied g b g' delayed ctx' b' r buf')
  then show ?case by (blast intro: cpu_read_ok)
qed

end
