(* ===== verification/Cpu_Wait.thy ===== *)
theory Cpu_Wait
  imports Cpu_Gate
begin

text \<open>
  The wait in \<open>cpu_read\<close> in detail (\<open>wait_event_interruptible\<close> on \<open>exec_wq\<close>).  The reader queues
  itself, then reads the counters one after the other, and sleeps when the condition was false unless a
  wake-up came since it queued.  A handler first stores its counter and then wakes the queue, and the
  reader may run in between.  The coarse steps of \<open>Cpu_Gate\<close> are what these steps amount to, and no
  wake-up is lost.
\<close>

subsection \<open>The steps\<close>

text \<open>Where a waiting reader is: about to queue itself, about to read a counter, or asleep.\<close>

datatype wait_point = Prepare | See_running | See_paused | See_steps | Asleep

text \<open>
  \<open>awake\<close> is whether a wake-up came since the reader queued itself, \<open>waking\<close> the number of handlers
  between their store and their wake-up.
\<close>

record wait_sys =
  base :: gate_sys
  at_point :: wait_point
  awake :: bool
  waking :: nat

definition wait_sys_init :: wait_sys where
  "wait_sys_init = \<lparr>base = gate_sys_init, at_point = Prepare, awake = False, waking = 0\<rparr>"

abbreviation counters :: "wait_sys \<Rightarrow> gate" where
  "counters w \<equiv> gate_of (base w)"

abbreviation waiting_at :: "wait_point \<Rightarrow> wait_sys \<Rightarrow> bool" where
  "waiting_at p w \<equiv> phase_of (base w) = Waiting \<and> at_point w = p"

text \<open>The condition was true: past the wait.\<close>

definition passes :: "wait_sys \<Rightarrow> wait_sys" where
  "passes w = w\<lparr>base := (base w)\<lparr>phase_of := Woken\<rparr>\<rparr>"

text \<open>The handlers and the opening of the device, each up to its wake-up.\<close>

inductive handler_step :: "wait_sys \<Rightarrow> wait_sys \<Rightarrow> bool" where
  run_store: "handler_step w (w\<lparr>base := (base w)\<lparr>gate_of := run_irq_thread v (counters w)\<rparr>,
    waking := (if v \<noteq> 0 then waking w + 1 else waking w)\<rparr>)"
| pause_store: "handler_step w (w\<lparr>base := (base w)\<lparr>gate_of := pause_irq_thread v (counters w)\<rparr>,
    waking := (if v \<noteq> 0 then waking w else waking w + 1)\<rparr>)"
| step_begin: "\<not> step_sleeping (base w) \<Longrightarrow>
    handler_step w (w\<lparr>base := (base w)\<lparr>step_sleeping := step_irq_begins (counters w)\<rparr>\<rparr>)"
| step_store: "step_sleeping (base w) \<Longrightarrow>
    handler_step w (w\<lparr>base := (base w)\<lparr>step_sleeping := False,
        gate_of := step_irq_finish v (counters w),
        granted := (if v \<noteq> 0 then granted (base w) + 1 else granted (base w))\<rparr>,
      waking := (if v \<noteq> 0 then waking w + 1 else waking w)\<rparr>)"

inductive wake_step :: "wait_sys \<Rightarrow> wait_sys \<Rightarrow> bool" where
  wake: "waking w > 0 \<Longrightarrow> wake_step w (w\<lparr>waking := waking w - 1, awake := True\<rparr>)"

inductive reader_step :: "wait_sys \<Rightarrow> wait_sys \<Rightarrow> bool" where
  queue: "waiting_at Prepare w \<Longrightarrow> reader_step w (w\<lparr>at_point := See_running, awake := False\<rparr>)"
| sees_running: "waiting_at See_running w \<Longrightarrow>
    reader_step w (w\<lparr>at_point := (if cpu_running (counters w) \<noteq> 0 then See_paused else Asleep)\<rparr>)"
| sees_unpaused: "waiting_at See_paused w \<Longrightarrow> cpu_paused (counters w) = 0 \<Longrightarrow> reader_step w (passes w)"
| sees_paused: "waiting_at See_paused w \<Longrightarrow> cpu_paused (counters w) \<noteq> 0 \<Longrightarrow>
    reader_step w (w\<lparr>at_point := See_steps\<rparr>)"
| sees_token: "waiting_at See_steps w \<Longrightarrow> steps_left (counters w) > 0 \<Longrightarrow> reader_step w (passes w)"
| sees_no_token: "waiting_at See_steps w \<Longrightarrow> \<not> steps_left (counters w) > 0 \<Longrightarrow>
    reader_step w (w\<lparr>at_point := Asleep\<rparr>)"
| wakes_up: "waiting_at Asleep w \<Longrightarrow> awake w \<Longrightarrow> reader_step w (w\<lparr>at_point := Prepare\<rparr>)"
| takes: "phase_of (base w) = Woken \<Longrightarrow> take_token (counters w) = (g', delayed) \<Longrightarrow>
    reader_step w (w\<lparr>base := (base w)\<lparr>phase_of := Ready, gate_of := g',
      consumed := (if delayed then consumed (base w) else consumed (base w) + 1)\<rparr>\<rparr>)"
| executes: "phase_of (base w) = Ready \<Longrightarrow>
    reader_step w (w\<lparr>base := (base w)\<lparr>phase_of := Idle, executed := executed (base w) + 1\<rparr>\<rparr>)"

text \<open>What the client does: call \<open>cpu_read\<close>, be interrupted in it by a signal, open the device.\<close>

inductive client_step :: "wait_sys \<Rightarrow> wait_sys \<Rightarrow> bool" where
  calls: "phase_of (base w) = Idle \<Longrightarrow>
    client_step w (w\<lparr>base := (base w)\<lparr>phase_of := Waiting\<rparr>, at_point := Prepare\<rparr>)"
| signalled: "waiting_at Asleep w \<Longrightarrow> client_step w (w\<lparr>base := (base w)\<lparr>phase_of := Idle\<rparr>\<rparr>)"
| opens: "phase_of (base w) = Idle \<Longrightarrow> r \<ge> 0 \<Longrightarrow>
    client_step w (w\<lparr>base := (base w)\<lparr>gate_of := open_gate r p (counters w)\<rparr>\<rparr>)"

definition wait_step :: "wait_sys \<Rightarrow> wait_sys \<Rightarrow> bool" where
  "wait_step w w' \<longleftrightarrow> handler_step w w' \<or> wake_step w w' \<or> reader_step w w' \<or> client_step w w'"

inductive wait_reachable :: "wait_sys \<Rightarrow> bool" where
  start: "wait_reachable wait_sys_init"
| step: "wait_reachable w \<Longrightarrow> wait_step w w' \<Longrightarrow> wait_reachable w'"

subsection \<open>No wake-up is lost\<close>

text \<open>
  What a waiting reader that would go to sleep relies on: what it has seen still holds, or a wake-up
  has come since it queued itself, or one is on its way.
\<close>

definition wait_ok :: "wait_sys \<Rightarrow> bool" where
  "wait_ok w \<longleftrightarrow> phase_of (base w) = Waiting \<longrightarrow>
     (case at_point w of
        Prepare \<Rightarrow> True
      | See_running \<Rightarrow> True
      | See_paused \<Rightarrow> cpu_running (counters w) \<noteq> 0
      | See_steps \<Rightarrow> cpu_running (counters w) \<noteq> 0 \<and>
          (awake w \<or> waking w > 0 \<or> cpu_paused (counters w) \<noteq> 0)
      | Asleep \<Rightarrow> awake w \<or> waking w > 0 \<or> \<not> can_execute (counters w))"

lemmas wait_defs = gate_defs passes_def wait_ok_def

lemma handler_step_ok [inv_intros]: "handler_step w w' \<Longrightarrow> wait_ok w \<Longrightarrow> wait_ok w'"
  by (induction rule: handler_step.induct) (auto simp: wait_defs split: wait_point.splits)

lemma wake_step_ok [inv_intros]: "wake_step w w' \<Longrightarrow> wait_ok w \<Longrightarrow> wait_ok w'"
  by (induction rule: wake_step.induct) (auto simp: wait_defs split: wait_point.splits)

lemma reader_step_ok [inv_intros]: "reader_step w w' \<Longrightarrow> wait_ok w \<Longrightarrow> wait_ok w'"
  by (induction rule: reader_step.induct) (auto simp: wait_defs split: wait_point.splits if_splits)

lemma client_step_ok [inv_intros]: "client_step w w' \<Longrightarrow> wait_ok w \<Longrightarrow> wait_ok w'"
  by (induction rule: client_step.induct) (auto simp: wait_defs split: wait_point.splits)

lemma wait_step_ok [inv_intros]: "wait_step w w' \<Longrightarrow> wait_ok w \<Longrightarrow> wait_ok w'"
  unfolding wait_step_def by (blast intro: inv_intros)

lemma wait_reachable_ok: "wait_reachable w \<Longrightarrow> wait_ok w"
proof (induction rule: wait_reachable.induct)
  case start
  show ?case by (simp add: wait_ok_def wait_sys_init_def gate_sys_init_def)
next
  case (step w w')
  then show ?case by (blast intro: wait_step_ok)
qed

subsection \<open>The coarse steps\<close>

lemma handler_step_coarse: "handler_step w w' \<Longrightarrow> gate_step (base w) (base w')"
proof (induction rule: handler_step.induct)
  case (step_store w v)
  from gate_step.step_irq_end [OF this, of v] show ?case by simp
qed (auto intro: gate_step.intros)

lemma reader_step_coarse:
  "reader_step w w' \<Longrightarrow> wait_ok w \<Longrightarrow> base w' = base w \<or> gate_step (base w) (base w')"
proof (induction rule: reader_step.induct)
  case (takes w g' delayed)
  from gate_step.read_takes [OF takes(1,2)] show ?case by simp
next
  case (executes w)
  from gate_step.read_executes [OF executes(1)] show ?case by simp
qed (auto intro: gate_step.intros simp: wait_ok_def passes_def can_execute_def)

lemma client_step_coarse: "client_step w w' \<Longrightarrow> gate_step (base w) (base w')"
  by (induction rule: client_step.induct) (auto intro: gate_step.intros)

lemma wake_step_coarse: "wake_step w w' \<Longrightarrow> base w' = base w"
  by (auto elim: wake_step.cases)

lemma wait_step_coarse:
  "wait_step w w' \<Longrightarrow> wait_ok w \<Longrightarrow> base w' = base w \<or> gate_step (base w) (base w')"
  unfolding wait_step_def
  using handler_step_coarse reader_step_coarse client_step_coarse wake_step_coarse by blast

lemma wait_reachable_coarse: "wait_reachable w \<Longrightarrow> gate_reachable (base w)"
proof (induction rule: wait_reachable.induct)
  case start
  show ?case by (simp add: wait_sys_init_def gate_reachable.start)
next
  case (step w w')
  with wait_step_coarse [OF step.hyps(2) wait_reachable_ok] show ?case
    by (auto intro: gate_reachable.step)
qed


subsection \<open>When the reader can move\<close>

definition reader_enabled :: "wait_sys \<Rightarrow> bool" where
  "reader_enabled w \<longleftrightarrow>
     (case phase_of (base w) of
        Idle \<Rightarrow> False
      | Waiting \<Rightarrow> at_point w = Asleep \<longrightarrow> awake w
      | Woken \<Rightarrow> True
      | Ready \<Rightarrow> True)"

lemma reader_enabled_iff: "reader_enabled w \<longleftrightarrow> (\<exists>w'. reader_step w w')"
proof
  assume "reader_enabled w"
  then show "\<exists>w'. reader_step w w'"
    by (cases "phase_of (base w)"; cases "at_point w"; cases "take_token (counters w)";
        cases "cpu_paused (counters w) = 0"; cases "steps_left (counters w) > 0")
      (auto simp: reader_enabled_def intro: reader_step.intros)
next
  assume "\<exists>w'. reader_step w w'"
  then show "reader_enabled w" by (auto simp: reader_enabled_def elim: reader_step.cases)
qed

text \<open>A call on the machine that was never started.\<close>

abbreviation stopped_at :: "wait_point \<Rightarrow> wait_sys" where
  "stopped_at pt \<equiv> \<lparr>base = gs 0 0 0 Waiting False 0 0 0, at_point = pt, awake = False, waking = 0\<rparr>"

lemma stopped_steps:
  "wait_step wait_sys_init (stopped_at Prepare)" "wait_step (stopped_at Prepare) (stopped_at See_running)"
  "wait_step (stopped_at See_running) (stopped_at Asleep)"
  using client_step.calls [of wait_sys_init] reader_step.queue [of "stopped_at Prepare"]
    reader_step.sees_running [of "stopped_at See_running"]
  by (simp_all add: wait_step_def wait_sys_init_def gate_sys_init_def gate_init_def)

lemma stopped_asleep: "wait_reachable (stopped_at Asleep)"
  using stopped_steps wait_reachable.intros by blast

subsection \<open>Another process opening the device\<close>

text \<open>
  \<open>cpu_open\<close> in another process, which may run wherever the reader is: like \<open>client_step.opens\<close> it stores
  what it read from the two pins.  Unlike the handlers, whose steps count the wake-up they go on to send in
  \<open>waking\<close>, its code sends none.
\<close>

inductive other_open :: "int \<Rightarrow> int \<Rightarrow> wait_sys \<Rightarrow> wait_sys \<Rightarrow> bool" for r p where
  stores: "r \<ge> 0 \<Longrightarrow> other_open r p w (w\<lparr>base := (base w)\<lparr>gate_of := open_gate r p (counters w)\<rparr>\<rparr>)"

text \<open>
  A stretch of steps, of the reader's system or of other processes that open the device, in which no
  handler that owes the queue a wake-up stores its counter and no signal ends the call.
\<close>

inductive quiet_steps :: "wait_sys \<Rightarrow> wait_sys \<Rightarrow> bool" where
  none: "quiet_steps w w"
| more: "quiet_steps w w' \<Longrightarrow> wait_step w' w'' \<or> other_open r p w' w'' \<Longrightarrow> waking w'' \<le> waking w' \<Longrightarrow>
    \<not> (phase_of (base w') = Waiting \<and> phase_of (base w'') = Idle) \<Longrightarrow> quiet_steps w w''"

definition stranded :: "wait_sys \<Rightarrow> bool" where
  "stranded w \<longleftrightarrow> waiting_at Asleep w \<and> \<not> awake w \<and> waking w = 0"

lemma stranded_stuck: "stranded w \<Longrightarrow> \<not> (\<exists>w'. reader_step w w')"
  by (simp add: stranded_def reader_enabled_iff [symmetric] reader_enabled_def)

lemma quiet_step_stranded:
  assumes "wait_step w w' \<or> other_open r p w w'" "waking w' \<le> waking w"
    and "\<not> (phase_of (base w) = Waiting \<and> phase_of (base w') = Idle)" "stranded w"
  shows "stranded w' \<and> executed (base w') = executed (base w)"
proof -
  have "\<not> reader_step w w'" "\<not> wake_step w w'"
    using stranded_stuck [OF assms(4)] assms(4) by (auto simp: stranded_def elim: wake_step.cases)
  then have "handler_step w w' \<or> client_step w w' \<or> other_open r p w w'" using assms(1) by (auto simp: wait_step_def)
  then show ?thesis
    using assms(2-4) by (auto simp: stranded_def elim!: handler_step.cases client_step.cases other_open.cases)
qed

lemma quiet_steps_stranded:
  "quiet_steps w w' \<Longrightarrow> stranded w \<Longrightarrow> stranded w' \<and> executed (base w') = executed (base w)"
proof (induction rule: quiet_steps.induct)
  case (more w w' w'' r p)
  with quiet_step_stranded [of w' w'' r p] show ?case by simp
qed simp

subsection \<open>Properties\<close>

text \<open>
  C23.  The wait in detail refines the atomic one: although the reader reads the counters one by one
  and the handlers run in between, every step is a step of the coarse system or none at all, so what is
  proved of the coarse system's reachable states and stretches holds of the code's.
\<close>

theorem wait_refines_gate:
  assumes "wait_reachable w" and "wait_step w w'"
  shows "gate_reachable (base w) \<and> (base w' = base w \<or> gate_step (base w) (base w'))"
  using wait_reachable_coarse [OF assms(1)] wait_step_coarse [OF assms(2) wait_reachable_ok [OF assms(1)]]
  by simp

theorem wait_refines_gate_witness:
  "gate_reachable (base wait_sys_init) \<and>
   (base (stopped_at Prepare) = base wait_sys_init \<or> gate_step (base wait_sys_init) (base (stopped_at Prepare)))"
  by (rule wait_refines_gate [OF wait_reachable.start stopped_steps(1)])

text \<open>
  C24.  No wake-up is lost: a reader is never asleep with its condition true unless a wake-up has
  reached it or a handler is about to send one.
\<close>

theorem no_lost_wakeup:
  assumes "wait_reachable w" and "waiting_at Asleep w" and "can_execute (counters w)"
  shows "awake w \<or> waking w > 0"
  using wait_reachable_ok [OF assms(1)] assms(2,3) by (simp add: wait_ok_def)

theorem no_lost_wakeup_witness:
  "\<exists>w. wait_reachable w \<and> waiting_at Asleep w \<and> can_execute (counters w) \<and> (awake w \<or> waking w > 0)"
proof -
  let ?w = "\<lparr>base = gs 1 0 0 Waiting False 0 0 0, at_point = Asleep, awake = False, waking = 1\<rparr>"
  have r: "wait_reachable ?w"
    by (rule wait_reachable.step [OF stopped_asleep])
      (use handler_step.run_store [of "stopped_at Asleep" 1] in \<open>simp add: wait_step_def run_irq_thread_def\<close>)
  from no_lost_wakeup [OF r] r show ?thesis
    by (intro exI [of _ ?w]) (simp add: can_execute_def)
qed

text \<open>
  C27.  Opening the device stores the switches without waking the queue.  Whenever a second process opens
  it so that the machine runs unpaused while the first sleeps in its call with no wake-up on its way, the
  first one's condition turns from false to true but it sleeps on, and does so until an interrupt handler
  wakes the queue or a signal ends the call: whatever else happens, it cannot move and executes nothing.
\<close>

theorem second_open_loses_wakeup:
  assumes "wait_reachable w" and "waiting_at Asleep w" and "\<not> awake w" and "waking w = 0"
    and "other_open r 0 w w1" and "r > 0" and "quiet_steps w1 w2"
  shows "\<not> can_execute (counters w) \<and> can_execute (counters w1) \<and> waiting_at Asleep w2 \<and>
    \<not> (\<exists>w3. reader_step w2 w3) \<and> executed (base w2) = executed (base w)"
proof -
  have f: "\<not> can_execute (counters w)" using wait_reachable_ok [OF assms(1)] assms(2-4) by (simp add: wait_ok_def)
  have w1: "w1 = w\<lparr>base := (base w)\<lparr>gate_of := open_gate r 0 (counters w)\<rparr>\<rparr>" using assms(5) by (auto elim: other_open.cases)
  then have "can_execute (counters w1)" using assms(6) by (simp add: gate_defs)
  moreover have "stranded w1" using assms(2-4) by (simp add: stranded_def w1)
  moreover have "executed (base w1) = executed (base w)" by (simp add: w1)
  ultimately show ?thesis using f quiet_steps_stranded [OF assms(7)] stranded_stuck [of w2] by (simp add: stranded_def)
qed

theorem second_open_loses_wakeup_witness:
  "\<exists>w1 w2. other_open 1 0 (stopped_at Asleep) w1 \<and> quiet_steps w1 w2 \<and> cpu_paused (counters w2) = 0 \<and>
     can_execute (counters w2) \<and> waiting_at Asleep w2 \<and> \<not> (\<exists>w3. reader_step w2 w3)"
proof -
  let ?w1 = "(stopped_at Asleep)\<lparr>base := (base (stopped_at Asleep))\<lparr>gate_of := open_gate 1 0 (counters (stopped_at Asleep))\<rparr>\<rparr>"
  have o: "other_open 1 0 (stopped_at Asleep) ?w1" by (rule other_open.stores) simp
  have q: "quiet_steps ?w1 ?w1" by (rule quiet_steps.none)
  have "can_execute (counters ?w1) \<and> waiting_at Asleep ?w1 \<and> \<not> (\<exists>w3. reader_step ?w1 w3)"
    using second_open_loses_wakeup [OF stopped_asleep _ _ _ o _ q] by simp
  moreover have "cpu_paused (counters ?w1) = 0" by (simp add: open_gate_def)
  ultimately show ?thesis using o q by blast
qed

end
