(* ===== verification/Cpu_Liveness.thy ===== *)
theory Cpu_Liveness
  imports Cpu_Wait
begin

text \<open>
  Progress of the reader: in a fair run a call of \<open>cpu_read\<close> whose condition holds while it waits
  executes its instruction, and so does a waiting call with a step token in hand, unless presses of the
  step button make the 32-bit counter wrap around.
\<close>

subsection \<open>Fair runs\<close>

text \<open>
  An infinite run in which handlers that have stored their counter eventually wake the queue and a
  reader that can move eventually does.
\<close>

definition fair_run :: "(nat \<Rightarrow> wait_sys) \<Rightarrow> bool" where
  "fair_run r \<longleftrightarrow> wait_reachable (r 0) \<and> (\<forall>i. r (Suc i) = r i \<or> wait_step (r i) (r (Suc i))) \<and>
     (\<forall>i. \<exists>j\<ge>i. waking (r j) = 0 \<or> wake_step (r j) (r (Suc j))) \<and>
     (\<forall>i. \<exists>j\<ge>i. \<not> reader_enabled (r j) \<or> reader_step (r j) (r (Suc j)))"

text \<open>From \<open>i\<close> on until the next execution no signal interrupts the call.\<close>

definition unsignalled :: "(nat \<Rightarrow> wait_sys) \<Rightarrow> nat \<Rightarrow> bool" where
  "unsignalled r i \<longleftrightarrow> (\<forall>j\<ge>i. executed (base (r j)) = executed (base (r i)) \<longrightarrow>
     \<not> (phase_of (base (r j)) = Waiting \<and> phase_of (base (r (Suc j))) = Idle))"

definition served :: "(nat \<Rightarrow> wait_sys) \<Rightarrow> nat \<Rightarrow> bool" where
  "served r i \<longleftrightarrow> (\<exists>j\<ge>i. executed (base (r i)) < executed (base (r j)))"

lemma fair_runD:
  assumes "fair_run r"
  shows "r (Suc i) = r i \<or> wait_step (r i) (r (Suc i))"
    "\<exists>j\<ge>i. waking (r j) = 0 \<or> wake_step (r j) (r (Suc j))"
    "\<exists>j\<ge>i. \<not> reader_enabled (r j) \<or> reader_step (r j) (r (Suc j))"
  using assms by (simp_all add: fair_run_def)

lemma fair_run_reachable: "fair_run r \<Longrightarrow> wait_reachable (r i)"
proof (induction i)
  case 0
  then show ?case by (simp add: fair_run_def)
next
  case (Suc i)
  with fair_runD(1) [OF Suc.prems, of i] show ?case by (auto intro: wait_reachable.step)
qed

lemma fair_run_ok: "fair_run r \<Longrightarrow> wait_ok (r i)"
  by (rule wait_reachable_ok [OF fair_run_reachable])

lemma wait_step_executed: "wait_step w w' \<Longrightarrow> executed (base w) \<le> executed (base w')"
  by (auto simp: wait_step_def passes_def elim!: handler_step.cases wake_step.cases reader_step.cases
      client_step.cases)

lemma executed_mono: "fair_run r \<Longrightarrow> i \<le> j \<Longrightarrow> executed (base (r i)) \<le> executed (base (r j))"
proof (induction j)
  case (Suc j)
  have "executed (base (r j)) \<le> executed (base (r (Suc j)))"
    using fair_runD(1) [OF Suc.prems(1), of j] wait_step_executed by auto
  with Suc show ?case by (cases "i = Suc j") auto
qed simp

lemma served_later: "fair_run r \<Longrightarrow> i \<le> j \<Longrightarrow> served r j \<Longrightarrow> served r i"
  unfolding served_def by (meson executed_mono le_less_trans le_trans)

text \<open>A call in progress moves on only by a step of the reader.\<close>

lemma call_stays:
  assumes "w' = w \<or> wait_step w w'" "\<not> reader_step w w'" "phase_of (base w) \<noteq> Idle"
    and "\<not> (phase_of (base w) = Waiting \<and> phase_of (base w') = Idle)"
  shows "phase_of (base w') = phase_of (base w)" "at_point w' = at_point w" "awake w \<Longrightarrow> awake w'"
    "executed (base w') = executed (base w)"
    "cpu_running (counters w) \<noteq> 0 \<Longrightarrow> cpu_running (counters w') \<noteq> 0"
proof -
  have "w' = w \<or> handler_step w w' \<or> wake_step w w' \<or> client_step w w'"
    using assms(1,2) by (auto simp: wait_step_def)
  then have "phase_of (base w') = phase_of (base w) \<and> at_point w' = at_point w \<and> (awake w \<longrightarrow> awake w') \<and>
      executed (base w') = executed (base w) \<and>
      (cpu_running (counters w) \<noteq> 0 \<longrightarrow> cpu_running (counters w') \<noteq> 0)"
    using assms(3,4)
    by (auto simp: gate_defs elim!: handler_step.cases wake_step.cases client_step.cases split: if_splits)
  then show "phase_of (base w') = phase_of (base w)" "at_point w' = at_point w" "awake w \<Longrightarrow> awake w'"
    "executed (base w') = executed (base w)"
    "cpu_running (counters w) \<noteq> 0 \<Longrightarrow> cpu_running (counters w') \<noteq> 0" by auto
qed

text \<open>
  The step counter does not go down while the call waits until the next execution: no press makes it wrap
  around.
\<close>

definition unwrapped :: "(nat \<Rightarrow> wait_sys) \<Rightarrow> nat \<Rightarrow> bool" where
  "unwrapped r i \<longleftrightarrow> (\<forall>j\<ge>i. executed (base (r j)) = executed (base (r i)) \<and> phase_of (base (r j)) = Waiting \<longrightarrow>
     steps_left (counters (r j)) \<le> steps_left (counters (r (Suc j))))"

lemma call_stays_until:
  assumes "fair_run r" "unsignalled r i" "phase_of (base (r i)) \<noteq> Idle" "i \<le> j"
    and "\<And>k. i \<le> k \<Longrightarrow> k < j \<Longrightarrow> \<not> reader_step (r k) (r (Suc k))"
  shows "phase_of (base (r j)) = phase_of (base (r i)) \<and> at_point (r j) = at_point (r i) \<and>
    (awake (r i) \<longrightarrow> awake (r j)) \<and>
    (phase_of (base (r i)) = Waiting \<and> unwrapped r i \<longrightarrow> steps_left (counters (r i)) \<le> steps_left (counters (r j))) \<and>
    executed (base (r j)) = executed (base (r i)) \<and>
    (cpu_running (counters (r i)) \<noteq> 0 \<longrightarrow> cpu_running (counters (r j)) \<noteq> 0)"
  using assms(4,5)
proof (induction j)
  case 0
  then show ?case by simp
next
  case (Suc j)
  show ?case
  proof (cases "i = Suc j")
    case True
    then show ?thesis by simp
  next
    case False
    with Suc.prems have ij: "i \<le> j" by simp
    with Suc have IH: "phase_of (base (r j)) = phase_of (base (r i)) \<and> at_point (r j) = at_point (r i) \<and>
      (awake (r i) \<longrightarrow> awake (r j)) \<and>
    (phase_of (base (r i)) = Waiting \<and> unwrapped r i \<longrightarrow> steps_left (counters (r i)) \<le> steps_left (counters (r j))) \<and>
      executed (base (r j)) = executed (base (r i)) \<and>
      (cpu_running (counters (r i)) \<noteq> 0 \<longrightarrow> cpu_running (counters (r j)) \<noteq> 0)" by auto
    have ns: "\<not> reader_step (r j) (r (Suc j))" using Suc.prems(2) ij by simp
    have idle: "phase_of (base (r j)) \<noteq> Idle" using IH assms(3) by simp
    have sig: "\<not> (phase_of (base (r j)) = Waiting \<and> phase_of (base (r (Suc j))) = Idle)"
      using assms(2) ij IH by (simp add: unsignalled_def)
    have "steps_left (counters (r j)) \<le> steps_left (counters (r (Suc j)))"
      if "phase_of (base (r i)) = Waiting" "unwrapped r i"
      using that ij IH by (simp add: unwrapped_def)
    then show ?thesis using IH call_stays [OF fair_runD(1) [OF assms(1)] ns idle sig] by auto
  qed
qed

text \<open>A reader that can move does, and finds the call as it was.\<close>

lemma reader_moves:
  assumes "fair_run r" "unsignalled r i" "reader_enabled (r i)"
  obtains j where "i \<le> j" "reader_step (r j) (r (Suc j))" "phase_of (base (r j)) = phase_of (base (r i))"
    "at_point (r j) = at_point (r i)"
    "phase_of (base (r i)) = Waiting \<Longrightarrow> unwrapped r i \<Longrightarrow> steps_left (counters (r i)) \<le> steps_left (counters (r j))"
    "executed (base (r j)) = executed (base (r i))"
proof -
  have idle: "phase_of (base (r i)) \<noteq> Idle" using assms(3) by (auto simp: reader_enabled_def)
  note stays = call_stays_until [OF assms(1,2) idle]
  have "\<exists>j\<ge>i. reader_step (r j) (r (Suc j))"
  proof (rule ccontr)
    assume no: "\<not> (\<exists>j\<ge>i. reader_step (r j) (r (Suc j)))"
    obtain j where j: "j \<ge> i" "\<not> reader_enabled (r j) \<or> reader_step (r j) (r (Suc j))"
      using fair_runD(3) [OF assms(1)] by blast
    have "reader_enabled (r j)"
      using stays [OF j(1)] no assms(3) by (auto simp: reader_enabled_def split: phase.splits)
    with j no show False by blast
  qed
  then obtain j where j: "i \<le> j" "reader_step (r j) (r (Suc j))"
    and least: "\<And>k. i \<le> k \<Longrightarrow> k < j \<Longrightarrow> \<not> reader_step (r k) (r (Suc k))"
    using exists_least_iff [of "\<lambda>j. i \<le> j \<and> reader_step (r j) (r (Suc j))"] by blast
  show thesis using that [OF j] stays [OF j(1) least] by auto
qed


lemma reader_step_from:
  assumes "reader_step w w'"
  shows "phase_of (base w) = Ready \<Longrightarrow> executed (base w') = executed (base w) + 1"
    "phase_of (base w) = Woken \<Longrightarrow> phase_of (base w') = Ready"
    "waiting_at Prepare w \<Longrightarrow> w' = w\<lparr>at_point := See_running, awake := False\<rparr>"
    "waiting_at See_running w \<Longrightarrow>
       w' = w\<lparr>at_point := (if cpu_running (counters w) \<noteq> 0 then See_paused else Asleep)\<rparr>"
    "waiting_at See_paused w \<Longrightarrow>
       w' = (if cpu_paused (counters w) = 0 then passes w else w\<lparr>at_point := See_steps\<rparr>)"
    "waiting_at See_steps w \<Longrightarrow>
       w' = (if steps_left (counters w) > 0 then passes w else w\<lparr>at_point := Asleep\<rparr>)"
    "waiting_at Asleep w \<Longrightarrow> awake w \<and> w' = w\<lparr>at_point := Prepare\<rparr>"
    "phase_of (base w) = Waiting \<Longrightarrow> executed (base w') = executed (base w)"
  using assms by (auto elim: reader_step.cases simp: passes_def)

text \<open>Past the wait the call executes its instruction.\<close>

lemma ready_served:
  assumes "fair_run r" "unsignalled r i" "phase_of (base (r i)) = Ready"
  shows "served r i"
proof -
  have "reader_enabled (r i)" using assms(3) by (simp add: reader_enabled_def)
  from reader_moves [OF assms(1,2) this] obtain j where j: "i \<le> j" "reader_step (r j) (r (Suc j))"
    "phase_of (base (r j)) = Ready" "executed (base (r j)) = executed (base (r i))" using assms(3) by metis
  with reader_step_from(1) [OF j(2,3)] show ?thesis
    unfolding served_def by (intro exI [of _ "Suc j"]) simp
qed

lemma unsignalled_later:
  "unsignalled r i \<Longrightarrow> i \<le> j \<Longrightarrow> executed (base (r j)) = executed (base (r i)) \<Longrightarrow> unsignalled r j"
  by (simp add: unsignalled_def)

lemma woken_served:
  assumes "fair_run r" "unsignalled r i" "phase_of (base (r i)) = Woken"
  shows "served r i"
proof -
  have "reader_enabled (r i)" using assms(3) by (simp add: reader_enabled_def)
  from reader_moves [OF assms(1,2) this] obtain j where j: "i \<le> j" "reader_step (r j) (r (Suc j))"
    "phase_of (base (r j)) = Woken" "executed (base (r j)) = executed (base (r i))" using assms(3) by metis
  have "executed (base (r (Suc j))) = executed (base (r i))"
    using j(2,3,4) by (auto elim: reader_step.cases)
  moreover have "phase_of (base (r (Suc j))) = Ready" by (rule reader_step_from(2) [OF j(2,3)])
  ultimately have "served r (Suc j)"
    using j(1) by (intro ready_served [OF assms(1)] unsignalled_later [OF assms(2)]) simp_all
  then show ?thesis using j(1) by (intro served_later [OF assms(1), of i "Suc j"]) simp_all
qed

text \<open>
  The condition holds whenever the call waits, until the instruction is executed, and the counter does not
  wrap around.
\<close>

definition let_through :: "(nat \<Rightarrow> wait_sys) \<Rightarrow> nat \<Rightarrow> bool" where
  "let_through r i \<longleftrightarrow> fair_run r \<and> unsignalled r i \<and>
     (\<forall>j\<ge>i. executed (base (r j)) = executed (base (r i)) \<and> phase_of (base (r j)) = Waiting \<longrightarrow>
        can_execute (counters (r j))) \<and> unwrapped r i"

lemma let_throughD:
  assumes "let_through r i"
  shows "fair_run r" "unsignalled r i"
    "phase_of (base (r i)) = Waiting \<Longrightarrow> can_execute (counters (r i))" "unwrapped r i"
  using assms by (simp_all add: let_through_def)

lemma let_through_later:
  "let_through r i \<Longrightarrow> i \<le> j \<Longrightarrow> executed (base (r j)) = executed (base (r i)) \<Longrightarrow> let_through r j"
  unfolding let_through_def unwrapped_def by (auto intro: unsignalled_later)

lemma waiting_moves:
  assumes "let_through r i" "waiting_at p (r i)" "p = Asleep \<longrightarrow> awake (r i)"
  obtains j where "i \<le> j" "reader_step (r j) (r (Suc j))" "waiting_at p (r j)" "let_through r j"
    "steps_left (counters (r i)) \<le> steps_left (counters (r j))"
    "let_through r (Suc j)" "served r (Suc j) \<Longrightarrow> served r i"
proof -
  note d = let_throughD [OF assms(1)]
  have "reader_enabled (r i)" using assms(2,3) by (simp add: reader_enabled_def)
  from reader_moves [OF d(1,2) this] obtain j where j: "i \<le> j" "reader_step (r j) (r (Suc j))"
    "waiting_at p (r j)" "steps_left (counters (r i)) \<le> steps_left (counters (r j))"
    "executed (base (r j)) = executed (base (r i))" using assms(2) d(4) by metis
  have "executed (base (r (Suc j))) = executed (base (r i))"
    using reader_step_from(8) [OF j(2)] j(3,5) by simp
  then have "let_through r (Suc j)" using j(1) by (intro let_through_later [OF assms(1)]) simp_all
  moreover have "served r (Suc j) \<Longrightarrow> served r i"
    using j(1) by (intro served_later [OF d(1), of i "Suc j"]) simp_all
  ultimately show thesis using that j let_through_later [OF assms(1) j(1) j(5)] by blast
qed

lemma token_seen:
  assumes "let_through r i" "waiting_at See_steps (r i)" "steps_left (counters (r i)) > 0"
  shows "served r i"
proof -
  obtain j where j: "reader_step (r j) (r (Suc j))" "waiting_at See_steps (r j)"
    "steps_left (counters (r i)) \<le> steps_left (counters (r j))" "let_through r (Suc j)"
    "served r (Suc j) \<Longrightarrow> served r i" using waiting_moves [OF assms(1,2)] by (metis wait_point.distinct(19))
  have "r (Suc j) = passes (r j)" using reader_step_from(6) [OF j(1,2)] j(3) assms(3) by simp
  then show ?thesis using let_throughD(1,2) [OF j(4)] by (intro j(5) woken_served) (simp_all add: passes_def)
qed

lemma paused_seen:
  assumes "let_through r i" "waiting_at See_paused (r i)"
  shows "served r i"
proof -
  obtain j where j: "reader_step (r j) (r (Suc j))" "waiting_at See_paused (r j)" "let_through r j"
    "let_through r (Suc j)" "served r (Suc j) \<Longrightarrow> served r i"
    using waiting_moves [OF assms] by (metis wait_point.distinct(17))
  show ?thesis
  proof (cases "cpu_paused (counters (r j)) = 0")
    case True
    then have "r (Suc j) = passes (r j)" using reader_step_from(5) [OF j(1,2)] by simp
    then show ?thesis
      using let_throughD(1,2) [OF j(4)] by (intro j(5) woken_served) (simp_all add: passes_def)
  next
    case False
    then have "r (Suc j) = (r j)\<lparr>at_point := See_steps\<rparr>" "steps_left (counters (r j)) > 0"
      using reader_step_from(5) [OF j(1,2)] let_throughD(3) [OF j(3)] j(2) by (simp_all add: can_execute_def)
    then show ?thesis using j(2) by (intro j(5) token_seen [OF j(4)]) simp_all
  qed
qed

lemma prepare_served:
  assumes "let_through r i" "waiting_at Prepare (r i) \<or> waiting_at See_running (r i)"
  shows "served r i"
proof -
  have running: "served r i" if l: "let_through r i" "waiting_at See_running (r i)" for i
  proof -
    obtain j where j: "reader_step (r j) (r (Suc j))" "waiting_at See_running (r j)" "let_through r j"
      "let_through r (Suc j)" "served r (Suc j) \<Longrightarrow> served r i"
      using waiting_moves [OF l] by (metis wait_point.distinct(13))
    have "cpu_running (counters (r j)) \<noteq> 0"
      using let_throughD(3) [OF j(3)] j(2) by (simp add: can_execute_def)
    then have "r (Suc j) = (r j)\<lparr>at_point := See_paused\<rparr>" using reader_step_from(4) [OF j(1,2)] by simp
    then show ?thesis using j(2) by (intro j(5) paused_seen [OF j(4)]) simp_all
  qed
  show ?thesis
  proof (cases "waiting_at See_running (r i)")
    case True
    then show ?thesis by (rule running [OF assms(1)])
  next
    case False
    then have p: "waiting_at Prepare (r i)" using assms(2) by blast
    obtain j where j: "reader_step (r j) (r (Suc j))" "waiting_at Prepare (r j)"
      "let_through r (Suc j)" "served r (Suc j) \<Longrightarrow> served r i"
      using waiting_moves [OF assms(1) p] by (metis wait_point.distinct(7))
    show ?thesis using reader_step_from(3) [OF j(1,2)] j(2) by (intro j(4) running [OF j(3)]) simp_all
  qed
qed

lemma awake_served:
  assumes "let_through r i" "waiting_at Asleep (r i)" "awake (r i)"
  shows "served r i"
proof -
  obtain j where j: "reader_step (r j) (r (Suc j))" "waiting_at Asleep (r j)"
    "let_through r (Suc j)" "served r (Suc j) \<Longrightarrow> served r i"
    using waiting_moves [OF assms(1,2)] assms(3) by metis
  show ?thesis using reader_step_from(7) [OF j(1,2)] j(2) by (intro j(4) prepare_served [OF j(3)]) simp_all
qed

text \<open>A sleeping reader whose condition holds is woken.\<close>

lemma asleep_woken:
  assumes "let_through r i" "waiting_at Asleep (r i)"
  shows "\<exists>j\<ge>i. waiting_at Asleep (r j) \<and> awake (r j) \<and> executed (base (r j)) = executed (base (r i))"
proof (rule ccontr)
  note d = let_throughD [OF assms(1)]
  have idle: "phase_of (base (r i)) \<noteq> Idle" using assms(2) by simp
  assume no: "\<not> (\<exists>j\<ge>i. waiting_at Asleep (r j) \<and> awake (r j) \<and> executed (base (r j)) = executed (base (r i)))"
  have asleep: "waiting_at Asleep (r j) \<and> executed (base (r j)) = executed (base (r i))" if "i \<le> j" for j
    using that
  proof (induction j rule: less_induct)
    case (less j)
    have "\<not> reader_step (r k) (r (Suc k))" if "i \<le> k" "k < j" for k
      using less.IH [OF that(2,1)] no that(1) reader_step_from(7) by blast
    from call_stays_until [OF d(1,2) idle less.prems this] assms(2) show ?case by simp
  qed
  obtain j where j: "j \<ge> i" "waking (r j) = 0 \<or> wake_step (r j) (r (Suc j))"
    using fair_runD(2) [OF d(1)] by blast
  have l: "let_through r j" using let_through_later [OF assms(1) j(1)] asleep [OF j(1)] by simp
  have "waking (r j) > 0"
    using fair_run_ok [OF d(1), of j] asleep [OF j(1)] let_throughD(3) [OF l] no j(1)
    by (auto simp: wait_ok_def)
  with j(2) have "awake (r (Suc j))" by (auto elim: wake_step.cases)
  with no asleep [of "Suc j"] j(1) show False by auto
qed

lemma asleep_served:
  assumes "let_through r i" "waiting_at Asleep (r i)"
  shows "served r i"
proof -
  obtain j where j: "j \<ge> i" "waiting_at Asleep (r j)" "awake (r j)" "executed (base (r j)) = executed (base (r i))"
    using asleep_woken [OF assms] by blast
  have "served r j" by (rule awake_served [OF let_through_later [OF assms(1) j(1,4)] j(2,3)])
  then show ?thesis by (rule served_later [OF let_throughD(1) [OF assms(1)] j(1)])
qed

lemma steps_seen:
  assumes "let_through r i" "waiting_at See_steps (r i)"
  shows "served r i"
proof -
  obtain j where j: "reader_step (r j) (r (Suc j))" "waiting_at See_steps (r j)" "let_through r j"
    "let_through r (Suc j)" "served r (Suc j) \<Longrightarrow> served r i" "i \<le> j"
    using waiting_moves [OF assms] by (metis wait_point.distinct(19))
  show ?thesis
  proof (cases "steps_left (counters (r j)) > 0")
    case True
    from token_seen [OF j(3,2) this] show ?thesis
      by (rule served_later [OF let_throughD(1) [OF assms(1)] j(6)])
  next
    case False
    then have "r (Suc j) = (r j)\<lparr>at_point := Asleep\<rparr>" using reader_step_from(6) [OF j(1,2)] by simp
    then show ?thesis using j(2) by (intro j(5) asleep_served [OF j(4)]) simp_all
  qed
qed

lemma call_served:
  assumes "let_through r i" "phase_of (base (r i)) \<noteq> Idle"
  shows "served r i"
proof (cases "phase_of (base (r i))")
  case Waiting
  with assms(1) prepare_served paused_seen steps_seen asleep_served show ?thesis
    by (cases "at_point (r i)") blast+
qed (use assms ready_served woken_served let_throughD in blast)+


subsection \<open>While the call waits\<close>

text \<open>
  A press that wraps the counter around ends with no other press under way, and while the counter is not
  positive and the machine not paused, none begins.
\<close>

definition spent :: "wait_sys \<Rightarrow> bool" where
  "spent w \<longleftrightarrow> steps_left (counters w) \<le> 0 \<and> \<not> step_sleeping (base w) \<and> cpu_paused (counters w) = 0"

lemma waiting_base:
  assumes "w' = w \<or> wait_step w w'" "phase_of (base w) = Waiting" "phase_of (base w') = Waiting"
  shows "base w' = base w \<or> handler_step w w'"
  using assms
  by (auto simp: wait_step_def passes_def elim!: wake_step.cases reader_step.cases client_step.cases split: if_splits)

lemma waiting_step:
  assumes "w' = w \<or> wait_step w w'" "phase_of (base w) = Waiting" "phase_of (base w') = Waiting"
  shows "executed (base w') = executed (base w)" "cpu_running (counters w) \<noteq> 0 \<Longrightarrow> cpu_running (counters w') \<noteq> 0"
    "steps_left (counters w') < steps_left (counters w) \<Longrightarrow>
       steps_left (counters w) = 2 ^ 31 - 1 \<and> steps_left (counters w') = - (2 ^ 31) \<and> \<not> step_sleeping (base w')"
    "spent w \<Longrightarrow> can_execute (counters w') \<Longrightarrow> spent w' \<and> steps_left (counters w') = steps_left (counters w)"
proof -
  note b = waiting_base [OF assms]
  show "executed (base w') = executed (base w)" using b by (auto elim!: handler_step.cases)
  show "cpu_running (counters w) \<noteq> 0 \<Longrightarrow> cpu_running (counters w') \<noteq> 0"
    using b by (auto simp: gate_defs elim!: handler_step.cases split: if_splits)
  show "steps_left (counters w') < steps_left (counters w) \<Longrightarrow>
       steps_left (counters w) = 2 ^ 31 - 1 \<and> steps_left (counters w') = - (2 ^ 31) \<and> \<not> step_sleeping (base w')"
    using b by (auto simp: gate_defs sint_inc elim!: handler_step.cases split: if_splits)
  show "spent w \<Longrightarrow> can_execute (counters w') \<Longrightarrow> spent w' \<and> steps_left (counters w') = steps_left (counters w)"
    using b by (auto simp: spent_def gate_defs elim!: handler_step.cases split: if_splits)
qed

text \<open>What the steps of a waiting call preserve holds as long as it waits.\<close>

lemma waiting_lasts:
  assumes "fair_run r" "unsignalled r i" "phase_of (base (r i)) = Waiting" "Q (r i)"
    and keep: "\<And>j. i \<le> j \<Longrightarrow> executed (base (r j)) = executed (base (r i)) \<Longrightarrow> phase_of (base (r j)) = Waiting \<Longrightarrow>
      phase_of (base (r (Suc j))) = Waiting \<Longrightarrow> Q (r j) \<Longrightarrow> Q (r (Suc j))"
    and "i \<le> j" "executed (base (r j)) = executed (base (r i))"
  shows "phase_of (base (r j)) \<noteq> Idle \<and> (phase_of (base (r j)) = Waiting \<longrightarrow> Q (r j))"
  using assms(6,7)
proof (induction j)
  case 0
  then show ?case using assms(3,4) by simp
next
  case (Suc j)
  show ?case
  proof (cases "i = Suc j")
    case True
    then show ?thesis using assms(3,4) by simp
  next
    case False
    with Suc.prems have ij: "i \<le> j" by simp
    have e: "executed (base (r j)) = executed (base (r i))"
      using executed_mono [OF assms(1) ij] executed_mono [OF assms(1), of j "Suc j"] Suc.prems(2) by simp
    note IH = Suc.IH [OF ij e]
    have sig: "\<not> (phase_of (base (r j)) = Waiting \<and> phase_of (base (r (Suc j))) = Idle)"
      using assms(2) ij e by (simp add: unsignalled_def)
    have "phase_of (base (r (Suc j))) \<noteq> Idle \<and> (phase_of (base (r (Suc j))) = Waiting \<longrightarrow> phase_of (base (r j)) = Waiting)"
    proof (cases "reader_step (r j) (r (Suc j))")
      case True
      then show ?thesis using Suc.prems(2) e IH by (auto elim!: reader_step.cases simp: passes_def)
    next
      case no: False
      from IH have idle: "phase_of (base (r j)) \<noteq> Idle" by blast
      from call_stays(1) [OF fair_runD(1) [OF assms(1)] no idle sig] idle show ?thesis by simp
    qed
    then show ?thesis using IH keep [OF ij e] by blast
  qed
qed

text \<open>A token in hand when the call waits keeps its condition true: only the reader takes tokens.\<close>

lemma token_lasts:
  assumes "fair_run r" "unsignalled r i" "unwrapped r i" "phase_of (base (r i)) = Waiting"
    and "cpu_running (counters (r i)) \<noteq> 0" "steps_left (counters (r i)) > 0"
    and "i \<le> j" "executed (base (r j)) = executed (base (r i))" "phase_of (base (r j)) = Waiting"
  shows "can_execute (counters (r j))"
proof -
  let ?Q = "\<lambda>w. cpu_running (counters w) \<noteq> 0 \<and> steps_left (counters w) > 0"
  have q: "?Q (r i)" using assms(5,6) by simp
  have k: "?Q (r (Suc k))" if "i \<le> k" "executed (base (r k)) = executed (base (r i))"
    "phase_of (base (r k)) = Waiting" "phase_of (base (r (Suc k))) = Waiting" "?Q (r k)" for k
  proof -
    have "steps_left (counters (r k)) \<le> steps_left (counters (r (Suc k)))"
      using assms(3) that(1-3) by (simp add: unwrapped_def)
    then show ?thesis using waiting_step(2) [OF fair_runD(1) [OF assms(1)] that(3,4)] that(5) by simp
  qed
  have "?Q (r j)" using waiting_lasts [of r i ?Q, OF assms(1,2,4) q k assms(7,8)] assms(9) by blast
  then show ?thesis unfolding can_execute_def by blast
qed

text \<open>
  A counter that wraps around while the call's condition holds leaves the machine unpaused for as long as
  the call waits, so the counter stays as it is.
\<close>

lemma wrapped_then_unwrapped:
  assumes "fair_run r" "unsignalled r i" "phase_of (base (r i)) = Waiting" "spent (r i)"
    and "\<And>j. i \<le> j \<Longrightarrow> executed (base (r j)) = executed (base (r i)) \<Longrightarrow> phase_of (base (r j)) = Waiting \<Longrightarrow>
      can_execute (counters (r j))"
  shows "unwrapped r i"
  unfolding unwrapped_def
proof (intro allI impI, elim conjE)
  fix j assume j: "i \<le> j" "executed (base (r j)) = executed (base (r i))" "phase_of (base (r j)) = Waiting"
  have keep: "spent (r (Suc k)) \<and> steps_left (counters (r (Suc k))) = steps_left (counters (r k))"
    if "i \<le> k" "executed (base (r k)) = executed (base (r i))"
      "phase_of (base (r k)) = Waiting" "phase_of (base (r (Suc k))) = Waiting" "spent (r k)" for k
  proof -
    note ws = waiting_step [OF fair_runD(1) [OF assms(1)] that(3,4)]
    have "can_execute (counters (r (Suc k)))" using that(1,2,4) ws(1) by (intro assms(5)) simp_all
    from ws(4) [OF that(5) this] show ?thesis .
  qed
  then have s: "spent (r j)"
    using waiting_lasts [of r i spent, OF assms(1-4) _ j(1,2)] j(3) by blast
  show "steps_left (counters (r j)) \<le> steps_left (counters (r (Suc j)))"
  proof (cases "phase_of (base (r (Suc j))) = Waiting")
    case True
    then show ?thesis using keep [OF j True s] by simp
  next
    case False
    then show ?thesis
      using fair_runD(1) [OF assms(1), of j] j(3)
      by (auto simp: wait_step_def passes_def
          elim!: handler_step.cases wake_step.cases reader_step.cases client_step.cases split: if_splits)
  qed
qed

lemma counter_wraps:
  assumes "fair_run r" "\<not> unwrapped r i"
  obtains j where "i \<le> j" "executed (base (r j)) = executed (base (r i))" "phase_of (base (r j)) = Waiting"
    "phase_of (base (r (Suc j))) = Waiting" "steps_left (counters (r (Suc j))) < steps_left (counters (r j))"
proof -
  obtain j where j: "i \<le> j" "executed (base (r j)) = executed (base (r i))" "phase_of (base (r j)) = Waiting"
    "steps_left (counters (r (Suc j))) < steps_left (counters (r j))"
    using assms(2) by (auto simp: unwrapped_def)
  have "phase_of (base (r (Suc j))) = Waiting"
    using fair_runD(1) [OF assms(1), of j] j(3,4)
    by (auto simp: wait_step_def passes_def
        elim!: handler_step.cases wake_step.cases reader_step.cases client_step.cases split: if_splits)
  with that j show thesis by blast
qed

lemma reader_served:
  assumes "fair_run r" "unsignalled r i" "phase_of (base (r i)) \<noteq> Idle"
    and c: "\<And>j. i \<le> j \<Longrightarrow> executed (base (r j)) = executed (base (r i)) \<Longrightarrow> phase_of (base (r j)) = Waiting \<Longrightarrow>
      can_execute (counters (r j))"
  shows "served r i"
proof (cases "unwrapped r i")
  case True
  then show ?thesis using assms by (intro call_served) (simp_all add: let_through_def)
next
  case False
  obtain j where j: "i \<le> j" "executed (base (r j)) = executed (base (r i))" "phase_of (base (r j)) = Waiting"
    "phase_of (base (r (Suc j))) = Waiting" "steps_left (counters (r (Suc j))) < steps_left (counters (r j))"
    by (rule counter_wraps [OF assms(1) False])
  note ws = waiting_step [OF fair_runD(1) [OF assms(1)] j(3,4)]
  have e: "executed (base (r (Suc j))) = executed (base (r i))" using ws(1) j(2) by simp
  have can: "can_execute (counters (r k))"
    if "Suc j \<le> k" "executed (base (r k)) = executed (base (r (Suc j)))" "phase_of (base (r k)) = Waiting" for k
    using that e j(1) by (intro c) simp_all
  have "spent (r (Suc j))" using ws(3) [OF j(5)] can [OF order_refl _ j(4)] by (simp add: spent_def can_execute_def)
  moreover have u: "unsignalled r (Suc j)" using j(1) e by (intro unsignalled_later [OF assms(2)]) simp_all
  ultimately have "unwrapped r (Suc j)" using wrapped_then_unwrapped [OF assms(1) _ j(4)] can by blast
  then have "served r (Suc j)"
    using assms(1) u can j(4) by (intro call_served) (simp_all add: let_through_def)
  then show ?thesis using j(1) by (intro served_later [OF assms(1), of i "Suc j"]) simp_all
qed

text \<open>A run for the witnesses: opened paused, a button press, then a call that takes the token.\<close>

abbreviation ws :: "i32 \<Rightarrow> phase \<Rightarrow> wait_point \<Rightarrow> bool \<Rightarrow> nat \<Rightarrow> nat \<Rightarrow> nat \<Rightarrow> bool \<Rightarrow> nat \<Rightarrow> wait_sys" where
  "ws n ph pt sl e g c aw wk \<equiv> \<lparr>base = gs 1 1 n ph sl e g c, at_point = pt, awake = aw, waking = wk\<rparr>"

definition press_states :: "wait_sys list" where
  "press_states =
    [wait_sys_init,
     ws 0 Idle Prepare False 0 0 0 False 0,
     ws 0 Idle Prepare True 0 0 0 False 0,
     ws 1 Idle Prepare False 0 1 0 False 1,
     ws 1 Idle Prepare False 0 1 0 True 0,
     ws 1 Waiting Prepare False 0 1 0 True 0,
     ws 1 Waiting See_running False 0 1 0 False 0,
     ws 1 Waiting See_paused False 0 1 0 False 0,
     ws 1 Waiting See_steps False 0 1 0 False 0,
     ws 1 Woken See_steps False 0 1 0 False 0,
     ws 0 Ready See_steps False 0 1 1 False 0,
     ws 0 Idle See_steps False 1 1 1 False 0]"

definition press_run :: "nat \<Rightarrow> wait_sys" where
  "press_run i = (if i < length press_states then press_states ! i else last press_states)"

lemma press_run_last: "11 \<le> i \<Longrightarrow> press_run i = ws 0 Idle See_steps False 1 1 1 False 0"
  by (cases "i = 11") (simp_all add: press_run_def press_states_def)

lemma press_run_steps: "i < 11 \<Longrightarrow> wait_step (press_run i) (press_run (Suc i))"
proof -
  assume "i < 11"
  then have "i \<in> {0, 1, 2, 3, 4, 5, 6, 7, 8, 9, 10}" unfolding insert_iff empty_iff by presburger
  then show ?thesis
    using client_step.opens [of "press_run 0" 1 1] handler_step.step_begin [of "press_run 1"]
      handler_step.step_store [of "press_run 2" 1] wake_step.wake [of "press_run 3"]
      client_step.calls [of "press_run 4"] reader_step.queue [of "press_run 5"]
      reader_step.sees_running [of "press_run 6"] reader_step.sees_paused [of "press_run 7"]
      reader_step.sees_token [of "press_run 8"]
      reader_step.takes [of "press_run 9" "\<lparr>cpu_running = 1, cpu_paused = 1, step_count = 0\<rparr>" False]
      reader_step.executes [of "press_run 10"]
    by (auto simp: wait_step_def press_run_def press_states_def wait_sys_init_def gate_sys_init_def
        gate_init_def gate_defs passes_def)
qed

lemma press_run_fair: "fair_run press_run"
  unfolding fair_run_def
proof (intro conjI allI)
  show "wait_reachable (press_run 0)"
    by (simp add: press_run_def press_states_def wait_reachable.start)
  fix i
  show "press_run (Suc i) = press_run i \<or> wait_step (press_run i) (press_run (Suc i))"
    using press_run_steps [of i] by (cases "i < 11") (simp_all add: press_run_last)
  show "\<exists>j\<ge>i. waking (press_run j) = 0 \<or> wake_step (press_run j) (press_run (Suc j))"
    by (rule exI [of _ "i + 11"]) (simp add: press_run_last)
  show "\<exists>j\<ge>i. \<not> reader_enabled (press_run j) \<or> reader_step (press_run j) (press_run (Suc j))"
    by (rule exI [of _ "i + 11"]) (simp add: press_run_last reader_enabled_def)
qed

lemma press_run_executed: "i \<le> 10 \<Longrightarrow> executed (base (press_run i)) = 0"
proof -
  assume "i \<le> 10"
  then have "i \<in> {0, 1, 2, 3, 4, 5, 6, 7, 8, 9, 10}" unfolding insert_iff empty_iff by presburger
  then show ?thesis
    by (auto simp: press_run_def press_states_def wait_sys_init_def gate_sys_init_def)
qed

lemma press_run_unsignalled: "unsignalled press_run 5"
  unfolding unsignalled_def
proof (intro allI impI)
  fix j assume j: "5 \<le> j" "executed (base (press_run j)) = executed (base (press_run 5))"
  then have "j \<le> 10" using press_run_last [of j] press_run_executed [of 5] by (cases "j \<le> 10") auto
  then have "j \<in> {5, 6, 7, 8, 9, 10}" using j(1) by auto
  then show "\<not> (phase_of (base (press_run j)) = Waiting \<and> phase_of (base (press_run (Suc j))) = Idle)"
    by (auto simp: press_run_def press_states_def)
qed

lemma press_run_unwrapped: "unwrapped press_run 5"
  unfolding unwrapped_def
proof (intro allI impI, elim conjE)
  fix j assume j: "5 \<le> j" "executed (base (press_run j)) = executed (base (press_run 5))"
    "phase_of (base (press_run j)) = Waiting"
  then have "j \<le> 10" using press_run_last [of j] by (cases "j \<le> 10") auto
  then have "j \<in> {5, 6, 7, 8, 9, 10}" using j(1) by auto
  then show "steps_left (counters (press_run j)) \<le> steps_left (counters (press_run (Suc j)))"
    using j(3) by (auto simp: press_run_def press_states_def)
qed

lemma press_run_counter: "steps_left (counters (press_run j)) \<le> 1"
proof (cases "j \<le> 10")
  case True
  then have "j \<in> {0, 1, 2, 3, 4, 5, 6, 7, 8, 9, 10}" unfolding insert_iff empty_iff by presburger
  then show ?thesis by (auto simp: press_run_def press_states_def wait_sys_init_def gate_sys_init_def gate_init_def)
qed (simp add: press_run_last)

subsection \<open>Properties\<close>

text \<open>
  C25.  A call whose condition holds as long as it waits, and that no signal interrupts, executes its
  instruction, in every fair run and from wherever it is in the wait.
\<close>

theorem reader_gets_through:
  assumes "fair_run r" and "unsignalled r i" and "phase_of (base (r i)) \<noteq> Idle"
    and "\<forall>j\<ge>i. executed (base (r j)) = executed (base (r i)) \<and> phase_of (base (r j)) = Waiting \<longrightarrow>
      can_execute (counters (r j))"
  shows "\<exists>j\<ge>i. executed (base (r i)) < executed (base (r j))"
  using reader_served [OF assms(1-3)] assms(4) unfolding served_def by blast

theorem reader_gets_through_witness: "\<exists>j\<ge>5. 0 < executed (base (press_run j))"
proof -
  have "can_execute (counters (press_run j))"
    if j: "5 \<le> j" "executed (base (press_run j)) = executed (base (press_run 5))"
      "phase_of (base (press_run j)) = Waiting" for j
    using token_lasts [OF press_run_fair press_run_unsignalled press_run_unwrapped _ _ _ j]
    by (simp add: press_run_def press_states_def)
  then show ?thesis
    using reader_gets_through [OF press_run_fair press_run_unsignalled] press_run_executed [of 5]
    by (simp add: press_run_def press_states_def)
qed

text \<open>
  C26.  A step token gets a waiting call through: with the machine running and a token in hand, the
  call executes its instruction however the pause switch is moved meanwhile, unless the button is pressed
  so often that the 32-bit counter reaches its largest value and wraps around to its smallest.
\<close>

theorem token_served:
  assumes "fair_run r" and "unsignalled r i" and "phase_of (base (r i)) = Waiting"
    and "cpu_running (counters (r i)) \<noteq> 0" and "steps_left (counters (r i)) > 0"
  shows "(\<exists>j\<ge>i. executed (base (r i)) < executed (base (r j))) \<or>
    (\<exists>j\<ge>i. executed (base (r j)) = executed (base (r i)) \<and>
      steps_left (counters (r j)) = 2 ^ 31 - 1 \<and> steps_left (counters (r (Suc j))) = - (2 ^ 31))"
proof (cases "unwrapped r i")
  case True
  have "served r i"
    using reader_served [OF assms(1,2)] assms(3) token_lasts [OF assms(1,2) True assms(3-5)] by simp
  then show ?thesis by (simp add: served_def)
next
  case False
  obtain j where j: "i \<le> j" "executed (base (r j)) = executed (base (r i))" "phase_of (base (r j)) = Waiting"
    "phase_of (base (r (Suc j))) = Waiting" "steps_left (counters (r (Suc j))) < steps_left (counters (r j))"
    by (rule counter_wraps [OF assms(1) False])
  from waiting_step(3) [OF fair_runD(1) [OF assms(1)] j(3,4,5)] j(1,2) show ?thesis by blast
qed

theorem token_served_witness:
  "fair_run press_run \<and> waiting_at Prepare (press_run 5) \<and> steps_left (counters (press_run 5)) = 1 \<and>
   executed (base (press_run 5)) = 0 \<and> (\<exists>j\<ge>5. 0 < executed (base (press_run j)))"
proof -
  have "steps_left (counters (press_run j)) \<noteq> 2 ^ 31 - 1" for j using press_run_counter [of j] by simp
  moreover have w: "waiting_at Prepare (press_run 5)" "steps_left (counters (press_run 5)) = 1"
    "cpu_running (counters (press_run 5)) = 1" by (simp_all add: press_run_def press_states_def)
  ultimately have "\<exists>j\<ge>5. executed (base (press_run 5)) < executed (base (press_run j))"
    using token_served [OF press_run_fair press_run_unsignalled] by simp
  then show ?thesis using w press_run_fair press_run_executed [of 5] by simp
qed

end
