(* ===== verification/Cpu_Readers.thy ===== *)
theory Cpu_Readers
  imports Cpu_Gate
begin

text \<open>
  Several processes with the device open.  Each has its own CPU, but the run, pause and step counters
  are the driver's: the readers test and decrement the step counter in two separate accesses, so they can
  get in between each other.  A reader that finds the condition false looks again later (the sleep in
  between is the matter of \<open>Cpu_Wait\<close>).
\<close>

subsection \<open>The steps\<close>

text \<open>Where a process is in \<open>cpu_read\<close>: about to make the named access.\<close>

datatype read_point =
    Outside | Check_running | Check_paused | Check_steps | Test_steps | Decrement | Execute

fun read_move :: "read_point \<Rightarrow> gate \<Rightarrow> read_point \<times> gate" where
  "read_move Outside g = (Check_running, g)"
| "read_move Check_running g = (if cpu_running g \<noteq> 0 then Check_paused else Check_running, g)"
| "read_move Check_paused g = (if cpu_paused g = 0 then Test_steps else Check_steps, g)"
| "read_move Check_steps g = (if steps_left g > 0 then Test_steps else Check_running, g)"
| "read_move Test_steps g = (if steps_left g > 0 then Decrement else Execute, g)"
| "read_move Decrement g = (Execute, g\<lparr>step_count := step_count g - 1\<rparr>)"
| "read_move Execute g = (Outside, g)"

definition in_wait :: "read_point \<Rightarrow> bool" where
  "in_wait p \<longleftrightarrow> p \<in> {Check_running, Check_paused, Check_steps}"

text \<open>\<open>runs\<close>, \<open>presses\<close> and \<open>decrements\<close> are histories that no step reads.\<close>

record readers_sys =
  shared :: gate
  points :: "read_point list"
  debouncing :: bool
  runs :: nat
  presses :: nat
  decrements :: nat

definition readers_init :: "nat \<Rightarrow> readers_sys" where
  "readers_init n = \<lparr>shared = gate_init, points = replicate n Outside, debouncing = False, runs = 0,
     presses = 0, decrements = 0\<rparr>"

datatype move =
    Run_irq int | Pause_irq int | Step_begin | Step_end int | Open_device int int | Reads nat | Signal nat

fun readers_step :: "move \<Rightarrow> readers_sys \<Rightarrow> readers_sys option" where
  "readers_step (Run_irq v) s = Some (s\<lparr>shared := run_irq_thread v (shared s)\<rparr>)"
| "readers_step (Pause_irq v) s = Some (s\<lparr>shared := pause_irq_thread v (shared s)\<rparr>)"
| "readers_step Step_begin s =
     (if debouncing s then None else Some (s\<lparr>debouncing := step_irq_begins (shared s)\<rparr>))"
| "readers_step (Step_end v) s =
     (if debouncing s
      then Some (s\<lparr>debouncing := False, shared := step_irq_finish v (shared s),
                  presses := (if v \<noteq> 0 then presses s + 1 else presses s)\<rparr>)
      else None)"
| "readers_step (Open_device r p) s =
     (if r < 0 then None else Some (s\<lparr>shared := open_gate r p (shared s)\<rparr>))"
| "readers_step (Reads i) s =
     (if i < length (points s)
      then (case read_move (points s ! i) (shared s) of
              (q, g) \<Rightarrow> Some (s\<lparr>points := (points s)[i := q], shared := g,
                runs := (if points s ! i = Execute then runs s + 1 else runs s),
                decrements := (if points s ! i = Decrement then decrements s + 1 else decrements s)\<rparr>))
      else None)"
| "readers_step (Signal i) s =
     (if i < length (points s) \<and> in_wait (points s ! i) then Some (s\<lparr>points := (points s)[i := Outside]\<rparr>)
      else None)"

inductive readers_reachable :: "nat \<Rightarrow> readers_sys \<Rightarrow> bool" for n where
  start: "readers_reachable n (readers_init n)"
| step: "readers_reachable n s \<Longrightarrow> readers_step m s = Some s' \<Longrightarrow> readers_reachable n s'"

fun do_moves :: "move list \<Rightarrow> readers_sys \<Rightarrow> readers_sys option" where
  "do_moves [] s = Some s"
| "do_moves (m # ms) s = (case readers_step m s of None \<Rightarrow> None | Some s' \<Rightarrow> do_moves ms s')"

lemma do_moves_reachable:
  "readers_reachable n s \<Longrightarrow> do_moves ms s = Some s' \<Longrightarrow> readers_reachable n s'"
  by (induction ms arbitrary: s) (auto split: option.splits intro: readers_reachable.step)

subsection \<open>The step counter\<close>

text \<open>
  Every reader that has tested the counter and not yet decremented it may take it one lower; it was
  positive when the last one tested it.  The counter is exact modulo its width, and on the nose while
  fewer than \<open>2 ^ 31\<close> presses have been counted.
\<close>

definition about_to_decrement :: "readers_sys \<Rightarrow> int" where
  "about_to_decrement s = int (count_list (points s) Decrement)"

definition readers_ok :: "nat \<Rightarrow> readers_sys \<Rightarrow> bool" where
  "readers_ok n s \<longleftrightarrow> length (points s) = n \<and>
     step_count (shared s) = of_nat (presses s) - of_nat (decrements s) \<and>
     (presses s < 2 ^ 31 \<longrightarrow> steps_left (shared s) = int (presses s) - int (decrements s) \<and>
        steps_left (shared s) - about_to_decrement s \<ge> 1 - int n)"

lemma count_update:
  "i < length xs \<Longrightarrow> int (count_list (xs[i := y]) z) =
     int (count_list xs z) - of_bool (xs ! i = z) + of_bool (y = z)"
proof (induction xs arbitrary: i)
  case (Cons x xs)
  show ?case
  proof (cases i)
    case (Suc j)
    then show ?thesis using Cons.IH [of j] Cons.prems by simp
  qed simp
qed simp

lemma count_less: "i < length xs \<Longrightarrow> xs ! i \<noteq> z \<Longrightarrow> count_list xs z < length xs"
proof (induction xs arbitrary: i)
  case (Cons x xs)
  show ?case
  proof (cases i)
    case 0
    then show ?thesis using Cons.prems count_le_length [of xs z] by (simp add: less_Suc_eq_le)
  next
    case (Suc j)
    then show ?thesis using Cons.IH [of j] Cons.prems by simp
  qed
qed simp

lemma read_move_ok:
  assumes "readers_ok n s" "i < length (points s)" "readers_step (Reads i) s = Some s'" "n \<le> 2 ^ 31"
  shows "readers_ok n s'"
proof -
  have c: "count_list (points s) Decrement < length (points s)" if "points s ! i \<noteq> Decrement"
    by (rule count_less [OF assms(2) that])
  have d: "count_list (points s) Decrement > 0" if "points s ! i = Decrement"
    using that assms(2) count_list_0_iff [of "points s" Decrement] nth_mem [OF assms(2)] by auto
  show ?thesis
  proof (cases "points s ! i = Decrement")
    case True
    then have "- (2 ^ 31) < steps_left (shared s)" if "presses s < 2 ^ 31"
      using that d assms(1,4) by (auto simp: readers_ok_def about_to_decrement_def)
    then show ?thesis
      using assms True by (auto simp: readers_ok_def about_to_decrement_def count_update sint_dec)
  next
    case False
    then show ?thesis
      using assms c by (cases "points s ! i")
        (auto simp: readers_ok_def about_to_decrement_def count_update split: if_splits)
  qed
qed

lemma readers_step_ok [inv_intros]:
  assumes "readers_step m s = Some s'" "readers_ok n s" "n \<le> 2 ^ 31"
  shows "readers_ok n s'"
proof (cases m)
  case (Reads i)
  then show ?thesis using assms read_move_ok [of n s i s'] by (auto split: if_splits)
next
  case (Signal i)
  then show ?thesis
    using assms by (auto simp: readers_ok_def about_to_decrement_def count_update in_wait_def split: if_splits)
qed (use assms in \<open>auto simp: readers_ok_def about_to_decrement_def gate_defs sint_inc split: if_splits\<close>)

lemma readers_reachable_ok: "readers_reachable n s \<Longrightarrow> n > 0 \<Longrightarrow> n \<le> 2 ^ 31 \<Longrightarrow> readers_ok n s"
proof (induction rule: readers_reachable.induct)
  case start
  then show ?case
    by (simp add: readers_ok_def readers_init_def gate_init_def about_to_decrement_def count_list_eq_length_filter)
next
  case (step s m s')
  then show ?case by (blast intro: readers_step_ok)
qed

subsection \<open>One press and all readers\<close>

text \<open>
  Every reader in turn goes as far as the decrement, seeing the one token; then they all decrement the
  counter and execute.
\<close>

definition approach :: "nat \<Rightarrow> move list" where
  "approach i = [Reads i, Reads i, Reads i, Reads i, Reads i]"

definition stampede :: "nat \<Rightarrow> move list" where
  "stampede n = [Step_begin, Step_end 1] @ concat (map approach [0..<n]) @ concat (map (\<lambda>i. [Reads i, Reads i]) [0..<n])"

fun press_or_read :: "move \<Rightarrow> bool" where
  "press_or_read Step_begin = True"
| "press_or_read (Step_end v) = True"
| "press_or_read (Reads i) = True"
| "press_or_read m = False"

lemma stampede_moves: "list_all press_or_read (stampede n)"
  by (auto simp: stampede_def approach_def list_all_iff)

lemma do_moves_append: "do_moves (xs @ ys) s = Option.bind (do_moves xs s) (do_moves ys)"
  by (induction xs arbitrary: s) (auto split: option.splits)

text \<open>A paused machine that is running, after one press.\<close>

abbreviation pressed :: "i32 \<Rightarrow> read_point list \<Rightarrow> nat \<Rightarrow> readers_sys" where
  "pressed c ps k \<equiv> \<lparr>shared = \<lparr>cpu_running = 1, cpu_paused = 1, step_count = c\<rparr>, points = ps, debouncing = False,
     runs = k, presses = 1, decrements = k\<rparr>"

lemma front_moves: "k < n \<Longrightarrow> (replicate k x @ replicate (n - k) y)[k := x] = replicate (Suc k) x @ replicate (n - Suc k) y"
  by (simp add: list_update_append replicate_append_same flip: Suc_diff_Suc)

lemma all_approach:
  assumes "0 < sint c" "k \<le> n"
  shows "do_moves (concat (map approach [0..<k])) (pressed c (replicate n Outside) 0) =
    Some (pressed c (replicate k Decrement @ replicate (n - k) Outside) 0)"
  using assms(2)
proof (induction k)
  case (Suc k)
  then have "(replicate k Decrement @ replicate (n - k) Outside) ! k = Outside" by (simp add: nth_append)
  then show ?case
    using Suc assms(1) front_moves [of k n Decrement Outside]
    by (simp add: do_moves_append approach_def)
qed simp

lemma all_execute:
  assumes "k \<le> n"
  shows "do_moves (concat (map (\<lambda>i. [Reads i, Reads i]) [0..<k])) (pressed c (replicate n Decrement) 0) =
    Some (pressed (c - of_nat k) (replicate k Outside @ replicate (n - k) Decrement) k)"
  using assms
proof (induction k)
  case (Suc k)
  then have "(replicate k Outside @ replicate (n - k) Decrement) ! k = Decrement" by (simp add: nth_append)
  then show ?case
    using Suc front_moves [of k n Outside Decrement]
    by (simp add: do_moves_append algebra_simps)
qed simp

lemma do_stampede:
  "do_moves (Run_irq 1 # Pause_irq 1 # stampede n) (readers_init n) = Some (pressed (1 - of_nat n) (replicate n Outside) n)"
  using all_approach [of 1 n n] all_execute [of n n 1]
  by (simp add: stampede_def do_moves_append readers_init_def gate_init_def gate_defs)

lemma stampede_left: "n \<le> 2 ^ 31 \<Longrightarrow> sint (1 - of_nat n :: i32) = 1 - int n"
  using sint_small [of "1 - int n"] by simp

subsection \<open>Properties\<close>

text \<open>
  C28.  With \<open>n\<close> processes reading, as long as fewer than \<open>2 ^ 31\<close> presses have been counted, so that the
  32-bit counter has not wrapped around, it is the number of presses minus the number of decrements, and it
  never falls below \<open>1 - n\<close>; in particular one process never makes it negative.
\<close>

theorem readers_token_bound:
  assumes "readers_reachable n s" and "n > 0" and "n \<le> 2 ^ 31" and "presses s < 2 ^ 31"
  shows "steps_left (shared s) = int (presses s) - int (decrements s) \<and> steps_left (shared s) \<ge> 1 - int n"
proof -
  have "steps_left (shared s) = int (presses s) - int (decrements s) \<and> steps_left (shared s) - about_to_decrement s \<ge> 1 - int n"
    using readers_reachable_ok [OF assms(1-3)] assms(4) unfolding readers_ok_def by blast
  moreover have "about_to_decrement s \<ge> 0" by (simp add: about_to_decrement_def)
  ultimately show ?thesis by linarith
qed

theorem readers_token_bound_witness:
  "\<exists>s. do_moves (Run_irq 1 # Pause_irq 1 # stampede 2) (readers_init 2) = Some s \<and> presses s = 1 \<and> decrements s = 2 \<and>
     steps_left (shared s) = int (presses s) - int (decrements s) \<and> steps_left (shared s) \<ge> - 1"
proof -
  let ?s = "pressed (1 - of_nat 2) (replicate 2 Outside) 2"
  note d = do_stampede [of 2]
  have "readers_reachable 2 ?s" by (rule do_moves_reachable [OF readers_reachable.start d])
  from readers_token_bound [OF this] d show ?thesis by (intro exI [of _ ?s]) simp
qed

text \<open>
  C29.  The bound is reached for every number of processes: on a machine that is running and paused, one press
  can execute one instruction of each of \<open>n\<close> processes, when all of them see the token before the first
  decrements the counter.  It is left at \<open>1 - n\<close>, so that the next press lets none of them through.
\<close>

theorem one_press_many_instructions:
  assumes "2 \<le> n" and "n \<le> 2 ^ 31"
  shows "\<exists>ms s. list_all press_or_read ms \<and>
    do_moves (Run_irq 1 # Pause_irq 1 # ms) (readers_init n) = Some s \<and>
    presses s = 1 \<and> runs s = n \<and> points s = replicate n Outside \<and> steps_left (shared s) = 1 - int n \<and>
    \<not> can_execute (step_irq_finish 1 (shared s))"
proof -
  have "steps_left (step_irq_finish 1 (shared (pressed (1 - of_nat n) (replicate n Outside) n))) = 2 - int n"
    using sint_inc [of "1 - of_nat n"] stampede_left [OF assms(2)] assms by (simp add: gate_defs)
  then show ?thesis
    using do_stampede [of n] stampede_moves [of n] stampede_left [OF assms(2)] assms(1)
    by (intro exI [of _ "stampede n"] exI [of _ "pressed (1 - of_nat n) (replicate n Outside) n"])
      (simp add: can_execute_def step_irq_finish_def)
qed

theorem one_press_many_instructions_witness:
  "\<exists>ms s. do_moves (Run_irq 1 # Pause_irq 1 # ms) (readers_init 3) = Some s \<and> presses s = 1 \<and> runs s = 3 \<and>
     steps_left (shared s) = - 2"
  using one_press_many_instructions [of 3] by auto

end
