(* ===== verification/Kernel_Services.thy ===== *)
theory Kernel_Services
  imports Rpi_Prelude
begin

text \<open>
  What the two drivers use of the kernel while they are loaded and unloaded.  Every call may succeed
  or fail, so its outcome is a field of \<open>services\<close>; its effect, when it succeeds, is recorded in a
  \<open>kernel\<close>: the interrupt lines that have a handler of the module, the levels the output pins were
  given, and the character device resources.  \<open>class_create\<close> returns a pointer that is valid or
  encodes an error; the fields allow the null pointer too, which some of the checks test for.
\<close>

datatype pointer = Null | Err_ptr status | Valid

record services =
  gpio_to_desc :: "nat \<Rightarrow> bool"
  gpiod_direction_output :: "nat \<Rightarrow> status"
  gpiod_direction_input :: "nat \<Rightarrow> status"
  gpiod_to_irq :: "nat \<Rightarrow> status"
  request_threaded_irq :: "status \<Rightarrow> status"
  alloc_chrdev_region :: status
  cdev_add :: status
  class_create :: pointer
  device_create :: pointer

record kernel =
  handlers :: "status list"
  levels :: "nat \<Rightarrow> int option"
  region :: bool
  cdev :: bool
  registered :: bool
  node :: bool

text \<open>A call of a module's init function returns a status or faults on a bad pointer.\<close>

datatype 'a init = Faults 'a | Init 'a status

text \<open>The effects of the calls that release.\<close>

definition free_irq :: "status \<Rightarrow> kernel \<Rightarrow> kernel" where
  "free_irq irq k = k\<lparr>handlers := remove1 irq (handlers k)\<rparr>"

definition request_irq :: "services \<Rightarrow> status \<Rightarrow> kernel \<Rightarrow> kernel \<times> status" where
  "request_irq sv irq k =
    (let s = request_threaded_irq sv irq in (if s = 0 then k\<lparr>handlers := irq # handlers k\<rparr> else k, s))"

definition set_level :: "nat \<Rightarrow> int \<Rightarrow> kernel \<Rightarrow> kernel" where
  "set_level pin v k = k\<lparr>levels := (levels k)(pin := Some v)\<rparr>"

definition class_unregister :: "kernel \<Rightarrow> kernel" where
  "class_unregister k = k\<lparr>registered := False\<rparr>"

text \<open>Destroying a class unregisters it, which does nothing the second time.\<close>

definition class_destroy :: "kernel \<Rightarrow> kernel" where
  "class_destroy k = class_unregister k"

definition device_destroy :: "kernel \<Rightarrow> kernel" where
  "device_destroy k = k\<lparr>node := False\<rparr>"

definition cdev_del :: "kernel \<Rightarrow> kernel" where
  "cdev_del k = k\<lparr>cdev := False\<rparr>"

definition unregister_chrdev_region :: "kernel \<Rightarrow> kernel" where
  "unregister_chrdev_region k = k\<lparr>region := False\<rparr>"

text \<open>No character device of the module.\<close>

definition no_chrdev :: "kernel \<Rightarrow> bool" where
  "no_chrdev k \<longleftrightarrow> \<not> region k \<and> \<not> cdev k \<and> \<not> registered k \<and> \<not> node k"

lemmas release_defs = free_irq_def class_unregister_def class_destroy_def device_destroy_def
  cdev_del_def unregister_chrdev_region_def

end
