(* ===== verification/Trace_Device.thy ===== *)
theory Trace_Device
  imports Uapi
begin

text \<open>
  The contract between the trace collector and its clients: the program that records accesses and
  the cache simulator that loads them.  A device state stands for the queue of accesses not
  read yet; a recorded access is appended unless the device reports an error, and reading \<open>n\<close>
  entries removes up to \<open>n\<close> from the front.  \<open>'k\<close> is what the kernel supplies to a write.
\<close>

locale trace_device =
  fixes ok :: "'d \<Rightarrow> bool"
    and queue :: "'d \<Rightarrow> mem_access list"
    and put :: "'k \<Rightarrow> mem_access \<Rightarrow> 'd \<Rightarrow> 'd \<times> status"
    and get :: "nat \<Rightarrow> 'd \<Rightarrow> 'd \<times> status \<times> mem_access list"
  assumes put: "ok d \<Longrightarrow> put k e d = (d', st) \<Longrightarrow>
      ok d' \<and> queue d' = queue d @ (if st < 0 then [] else [e])"
    and get: "ok d \<Longrightarrow> 0 < n \<Longrightarrow> get n d = (d', st, es) \<Longrightarrow>
      ok d' \<and> es = take n (queue d) \<and> queue d' = drop n (queue d) \<and> st = int (length es * 16)"
begin

lemma get_empty:
  assumes "ok d" "0 < n" "get n d = (d', st, es)"
  shows "st = 0 \<longleftrightarrow> queue d = []"
  using get [OF assms] assms(2) by (auto simp: min_def)

lemma get_shrinks:
  assumes "ok d" "0 < n" "get n d = (d', st, es)" "st \<noteq> 0"
  shows "length (queue d') < length (queue d)"
  using get [OF assms(1-3)] assms(2,4) by simp

end

end
