(* ===== verification/Trace_Collector.thy ===== *)
theory Trace_Collector
  imports Trace_Device
begin

text \<open>
  The trace collector driver (\<open>trace_collector_driver/trace_collector_driver.c\<close>): memory accesses
  written to \<open>/dev/trace_collector\<close> are appended to a list of 256-entry chunks, and a read hands
  out the entries that follow the last one read.  Pointers to chunks are positions in the chunk
  list, which only grows at its end until the buffer is freed.  The mutex makes each push and each
  read call one atomic operation, which is what the functions below are.
\<close>

subsection \<open>Chunks and the buffer\<close>

abbreviation (input) CHUNK_SIZE :: nat where "CHUNK_SIZE \<equiv> 256"
abbreviation (input) sizeof_mem_access :: nat where "sizeof_mem_access \<equiv> 16"

record trace_chunk =
  entries :: "nat \<Rightarrow> mem_access"
  count :: nat

record trace_buffer =
  chunks :: "trace_chunk list"
  total_count :: nat
  write_chunk :: "nat option"
  read_chunk :: "nat option"
  read_offset :: nat

definition trace_buffer_init :: trace_buffer where
  "trace_buffer_init = \<lparr>chunks = [], total_count = 0, write_chunk = None, read_chunk = None,
     read_offset = 0\<rparr>"

text \<open>\<open>list_for_each_entry_safe\<close> with \<open>list_del\<close> and \<open>kfree\<close> on every chunk.\<close>

fun free_chunks :: "trace_chunk list \<Rightarrow> trace_chunk list" where
  "free_chunks [] = []"
| "free_chunks (chunk # rest) = free_chunks rest"

definition trace_buffer_free :: "trace_buffer \<Rightarrow> trace_buffer" where
  "trace_buffer_free tb = tb\<lparr>chunks := free_chunks (chunks tb), total_count := 0,
     write_chunk := None, read_chunk := None, read_offset := 0\<rparr>"

subsection \<open>Appending\<close>

text \<open>
  \<open>kmalloc\<close> yields \<open>None\<close> when it fails and otherwise the arbitrary contents of the new chunk's
  entries.
\<close>

definition needs_chunk :: "trace_buffer \<Rightarrow> bool" where
  "needs_chunk tb = (case write_chunk tb of None \<Rightarrow> True | Some w \<Rightarrow> count (chunks tb ! w) = CHUNK_SIZE)"

definition add_chunk :: "(nat \<Rightarrow> mem_access) \<Rightarrow> trace_buffer \<Rightarrow> trace_buffer" where
  "add_chunk mem tb =
    (let new_chunk = \<lparr>entries = mem, count = 0\<rparr>;
         pos = length (chunks tb);
         tb1 = tb\<lparr>chunks := chunks tb @ [new_chunk], write_chunk := Some pos\<rparr>
     in if read_chunk tb1 = None then tb1\<lparr>read_chunk := Some pos, read_offset := 0\<rparr> else tb1)"

definition store_entry :: "mem_access \<Rightarrow> trace_buffer \<Rightarrow> trace_buffer" where
  "store_entry entry tb =
    (case write_chunk tb of
       None \<Rightarrow> tb
     | Some w \<Rightarrow>
         (let c = chunks tb ! w;
              c' = c\<lparr>entries := (entries c)(count c := entry), count := count c + 1\<rparr>
          in tb\<lparr>chunks := (chunks tb)[w := c'], total_count := total_count tb + 1\<rparr>))"

definition trace_buffer_push ::
    "(nat \<Rightarrow> mem_access) option \<Rightarrow> mem_access \<Rightarrow> trace_buffer \<Rightarrow> trace_buffer \<times> status" where
  "trace_buffer_push kmalloc entry tb =
    (if needs_chunk tb then
       (case kmalloc of
          None \<Rightarrow> (tb, - ENOMEM)
        | Some mem \<Rightarrow> (store_entry entry (add_chunk mem tb), 0))
     else (store_entry entry tb, 0))"

text \<open>\<open>buf\<close> is what \<open>copy_from_user\<close> yields, \<open>None\<close> when it fails.\<close>

definition trace_write ::
    "nat \<Rightarrow> mem_access option \<Rightarrow> (nat \<Rightarrow> mem_access) option \<Rightarrow> trace_buffer \<Rightarrow>
       trace_buffer \<times> status" where
  "trace_write len buf kmalloc tb =
    (if len < sizeof_mem_access then (tb, - EINVAL)
     else
       (case buf of
          None \<Rightarrow> (tb, - EFAULT)
        | Some entry \<Rightarrow>
            (case trace_buffer_push kmalloc entry tb of
               (tb', ret) \<Rightarrow> if ret \<noteq> 0 then (tb', ret) else (tb', int sizeof_mem_access))))"

subsection \<open>Reading\<close>

text \<open>
  The head of the read loop: stop at an empty buffer or at the end of the last chunk, step to the
  next chunk when the current one is exhausted.
\<close>

definition advance_read :: "trace_buffer \<Rightarrow> trace_buffer option" where
  "advance_read tb =
    (case read_chunk tb of
       None \<Rightarrow> None
     | Some r \<Rightarrow>
         (if read_offset tb \<ge> count (chunks tb ! r) then
            (if r + 1 = length (chunks tb) then None
             else Some (tb\<lparr>read_chunk := Some (r + 1), read_offset := 0\<rparr>))
          else Some tb))"

definition entry_at :: "trace_buffer \<Rightarrow> mem_access" where
  "entry_at tb = entries (chunks tb ! the (read_chunk tb)) (read_offset tb)"

text \<open>
  The loop with \<open>n\<close> entries still to copy and the entries copied so far; \<open>copy_ok k\<close> says whether
  copying entry number \<open>k\<close> of the call to the user's buffer succeeds.  The flag of the result
  reports a failed copy.
\<close>

fun read_loop ::
    "(nat \<Rightarrow> bool) \<Rightarrow> nat \<Rightarrow> mem_access list \<Rightarrow> trace_buffer \<Rightarrow> trace_buffer \<times> mem_access list \<times> bool"
  where
  "read_loop copy_ok 0 copied tb = (tb, copied, False)"
| "read_loop copy_ok (Suc n) copied tb =
    (case advance_read tb of
       None \<Rightarrow> (tb, copied, False)
     | Some tb1 \<Rightarrow>
         (if \<not> copy_ok (length copied) then (tb1, copied, True)
          else read_loop copy_ok n (copied @ [entry_at tb1])
                 (tb1\<lparr>read_offset := read_offset tb1 + 1\<rparr>)))"

definition trace_read ::
    "nat \<Rightarrow> (nat \<Rightarrow> bool) \<Rightarrow> trace_buffer \<Rightarrow> trace_buffer \<times> status \<times> mem_access list" where
  "trace_read len copy_ok tb =
    (if len < sizeof_mem_access then (tb, - EINVAL, [])
     else
       (let max_entries = len div sizeof_mem_access
        in case read_loop copy_ok max_entries [] tb of
             (tb', copied, failed) \<Rightarrow>
               (if failed then
                  (tb', if length copied > 0 then int (length copied * sizeof_mem_access)
                        else - EFAULT, copied)
                else (tb', int (length copied * sizeof_mem_access), copied))))"

subsection \<open>What the buffer stands for\<close>

definition chunk_list :: "trace_chunk \<Rightarrow> mem_access list" where
  "chunk_list c = map (entries c) [0..<count c]"

definition contents :: "trace_buffer \<Rightarrow> mem_access list" where
  "contents tb = concat (map chunk_list (chunks tb))"

text \<open>The entries not yet handed out.\<close>

definition pending :: "trace_buffer \<Rightarrow> mem_access list" where
  "pending tb =
    (case read_chunk tb of
       None \<Rightarrow> []
     | Some r \<Rightarrow> drop (read_offset tb) (concat (map chunk_list (drop r (chunks tb)))))"

text \<open>
  All chunks but the last are full and the last is not empty; the write pointer is at the last
  chunk; the read pointer is inside the list and inside its chunk.
\<close>

definition buffer_ok :: "trace_buffer \<Rightarrow> bool" where
  "buffer_ok tb \<longleftrightarrow>
     (\<forall>c\<in>set (butlast (chunks tb)). count c = CHUNK_SIZE) \<and>
     (chunks tb \<noteq> [] \<longrightarrow> 0 < count (last (chunks tb)) \<and> count (last (chunks tb)) \<le> CHUNK_SIZE) \<and>
     write_chunk tb = (if chunks tb = [] then None else Some (length (chunks tb) - 1)) \<and>
     (case read_chunk tb of
        None \<Rightarrow> chunks tb = []
      | Some r \<Rightarrow> r < length (chunks tb) \<and> read_offset tb \<le> count (chunks tb ! r)) \<and>
     total_count tb = length (contents tb)"


subsection \<open>Appending keeps the invariant and appends\<close>

abbreviation stream :: "trace_chunk list \<Rightarrow> mem_access list" where
  "stream cs \<equiv> concat (map chunk_list cs)"

lemma length_chunk_list [simp]: "length (chunk_list c) = count c"
  by (simp add: chunk_list_def)

lemma chunk_list_store:
  "chunk_list (c\<lparr>entries := (entries c)(count c := e), count := Suc (count c)\<rparr>) = chunk_list c @ [e]"
  by (simp add: chunk_list_def)

lemma chunk_list_fresh: "chunk_list \<lparr>entries = m, count = 0\<rparr> = []"
  by (simp add: chunk_list_def)

lemma stream_from:
  "r < length cs \<Longrightarrow> stream (drop r cs) = chunk_list (cs ! r) @ stream (drop (Suc r) cs)"
  by (simp flip: Cons_nth_drop_Suc)

lemma store_entry_ok:
  assumes w: "write_chunk tb = Some (length cs)" and c: "chunks tb = cs @ [c]"
    and full: "\<forall>d\<in>set cs. count d = CHUNK_SIZE" and room: "count c < CHUNK_SIZE"
    and rd: "read_chunk tb = Some r" "r \<le> length cs" "read_offset tb \<le> count (chunks tb ! r)"
    and tot: "total_count tb = length (contents tb)"
  shows "buffer_ok (store_entry e tb)" "contents (store_entry e tb) = contents tb @ [e]"
    "pending (store_entry e tb) = pending tb @ [e]"
proof -
  let ?c = "c\<lparr>entries := (entries c)(count c := e), count := Suc (count c)\<rparr>"
  have ch: "chunks (store_entry e tb) = cs @ [?c]"
    by (simp add: store_entry_def w c Let_def)
  have fr: "read_chunk (store_entry e tb) = Some r" "read_offset (store_entry e tb) = read_offset tb"
    "write_chunk (store_entry e tb) = Some (length cs)"
    "total_count (store_entry e tb) = Suc (total_count tb)"
    using w rd by (simp_all add: store_entry_def Let_def)
  show ct: "contents (store_entry e tb) = contents tb @ [e]"
    by (simp add: contents_def ch c chunk_list_store)
  have "read_offset tb \<le> length (stream (drop r (chunks tb)))"
    using rd c stream_from [of r "chunks tb"] by simp
  then show "pending (store_entry e tb) = pending tb @ [e]"
    using rd by (simp add: pending_def fr ch c chunk_list_store)
  have "read_offset tb \<le> count ((cs @ [?c]) ! r)"
    using rd c by (cases "r = length cs") (auto simp: nth_append)
  then show "buffer_ok (store_entry e tb)"
    using full room rd tot ct by (simp add: buffer_ok_def fr ch)
qed

lemma add_chunk_ready:
  assumes ok: "buffer_ok tb" and need: "needs_chunk tb" and tb1_def: "tb1 = add_chunk mem tb"
  shows "write_chunk tb1 = Some (length (chunks tb))"
    "chunks tb1 = chunks tb @ [\<lparr>entries = mem, count = 0\<rparr>]"
    "\<forall>d\<in>set (chunks tb). count d = CHUNK_SIZE"
    "\<exists>r. read_chunk tb1 = Some r \<and> r \<le> length (chunks tb) \<and> read_offset tb1 \<le> count (chunks tb1 ! r)"
    "total_count tb1 = length (contents tb1)" "contents tb1 = contents tb" "pending tb1 = pending tb"
proof -
  show ch: "chunks tb1 = chunks tb @ [\<lparr>entries = mem, count = 0\<rparr>]"
    and "write_chunk tb1 = Some (length (chunks tb))"
    by (simp_all add: tb1_def add_chunk_def Let_def)
  show ct: "contents tb1 = contents tb"
    by (simp add: contents_def ch chunk_list_fresh)
  show "total_count tb1 = length (contents tb1)"
    using ok ct by (simp add: buffer_ok_def tb1_def add_chunk_def Let_def)
  show "\<forall>d\<in>set (chunks tb). count d = CHUNK_SIZE"
    using ok need
    by (cases "chunks tb" rule: rev_cases) (auto simp: buffer_ok_def needs_chunk_def nth_append)
  show "\<exists>r. read_chunk tb1 = Some r \<and> r \<le> length (chunks tb) \<and> read_offset tb1 \<le> count (chunks tb1 ! r)"
    using ok by (auto simp: buffer_ok_def tb1_def add_chunk_def Let_def nth_append split: option.splits)
  show "pending tb1 = pending tb"
    using ok
    by (auto simp: buffer_ok_def tb1_def add_chunk_def Let_def pending_def chunk_list_fresh
        split: option.splits)
qed

lemma push_cases:
  assumes ok: "buffer_ok tb" and p: "trace_buffer_push km e tb = (tb', st)"
  shows "(needs_chunk tb \<and> km = None \<and> st = - ENOMEM \<and> tb' = tb) \<or>
    (st = 0 \<and> buffer_ok tb' \<and> contents tb' = contents tb @ [e] \<and> pending tb' = pending tb @ [e])"
proof (cases "needs_chunk tb")
  case True
  show ?thesis
  proof (cases km)
    case None
    with True p show ?thesis by (simp add: trace_buffer_push_def)
  next
    case (Some mem)
    note r = add_chunk_ready [where mem = mem, OF ok True refl]
    obtain k where "read_chunk (add_chunk mem tb) = Some k" "k \<le> length (chunks tb)"
      "read_offset (add_chunk mem tb) \<le> count (chunks (add_chunk mem tb) ! k)" using r(4) by blast
    from store_entry_ok [OF r(1,2,3) _ this r(5), of e] r(6,7) Some True p
    show ?thesis by (simp add: trace_buffer_push_def)
  qed
next
  case False
  then obtain cs c where c: "chunks tb = cs @ [c]"
    using ok by (cases "chunks tb" rule: rev_cases) (auto simp: buffer_ok_def needs_chunk_def)
  have w: "write_chunk tb = Some (length cs)" using ok c by (simp add: buffer_ok_def)
  have room: "count c < CHUNK_SIZE"
    using ok False c w by (simp add: buffer_ok_def needs_chunk_def)
  obtain r where "read_chunk tb = Some r" "r \<le> length cs" "read_offset tb \<le> count (chunks tb ! r)"
    using ok c by (auto simp: buffer_ok_def split: option.splits)
  from store_entry_ok [OF w c _ room this, of e] ok c False p
  show ?thesis by (auto simp: buffer_ok_def trace_buffer_push_def)
qed

subsection \<open>Reading hands out the pending entries in order\<close>

lemma advance_read_None:
  assumes "buffer_ok tb" shows "advance_read tb = None \<longleftrightarrow> pending tb = []"
proof (cases "read_chunk tb")
  case None
  then show ?thesis by (simp add: advance_read_def pending_def)
next
  case (Some r)
  then have r: "r < length (chunks tb)" "read_offset tb \<le> count (chunks tb ! r)"
    using assms by (simp_all add: buffer_ok_def)
  have nxt: "r + 1 < length (chunks tb) \<Longrightarrow> stream (drop (Suc r) (chunks tb)) \<noteq> []"
  proof -
    assume "r + 1 < length (chunks tb)"
    then have ne: "drop (Suc r) (chunks tb) \<noteq> []" by simp
    then have "last (chunks tb) = last (drop (Suc r) (chunks tb))" by simp
    moreover have "0 < count (last (chunks tb))" using assms ne by (auto simp: buffer_ok_def)
    ultimately obtain xs c where "drop (Suc r) (chunks tb) = xs @ [c]" "0 < count c"
      using ne by (metis append_butlast_last_id)
    moreover have "chunk_list c \<noteq> []" using calculation by (metis length_chunk_list length_0_conv less_irrefl)
    ultimately show ?thesis by simp
  qed
  have "pending tb = drop (read_offset tb) (chunk_list (chunks tb ! r)) @ stream (drop (Suc r) (chunks tb))"
    using r Some by (simp add: pending_def stream_from [OF r(1)])
  then show ?thesis
    using Some r nxt by (auto simp: advance_read_def)
qed


lemma advance_read_Some:
  assumes ok: "buffer_ok tb" and adv: "advance_read tb = Some tb1"
  shows "buffer_ok tb1" "contents tb1 = contents tb" "pending tb1 = pending tb"
    "pending tb = entry_at tb1 # pending (tb1\<lparr>read_offset := read_offset tb1 + 1\<rparr>)"
    "\<exists>r. read_chunk tb1 = Some r \<and> r < length (chunks tb1) \<and> read_offset tb1 < count (chunks tb1 ! r)"
proof -
  obtain r where r: "read_chunk tb = Some r" "r < length (chunks tb)"
      "read_offset tb \<le> count (chunks tb ! r)"
    using ok adv by (auto simp: advance_read_def buffer_ok_def split: option.splits)
  have p: "pending tb = drop (read_offset tb) (chunk_list (chunks tb ! r)) @ stream (drop (Suc r) (chunks tb))"
    using r by (simp add: pending_def stream_from [OF r(2)])
  have same: "chunks tb1 = chunks tb" "write_chunk tb1 = write_chunk tb"
      "total_count tb1 = total_count tb"
    using adv r(1) by (auto simp: advance_read_def split: if_splits)
  have cases: "tb1 = tb \<and> read_offset tb < count (chunks tb ! r) \<or>
      tb1 = tb\<lparr>read_chunk := Some (Suc r), read_offset := 0\<rparr> \<and> Suc r < length (chunks tb) \<and>
      read_offset tb = count (chunks tb ! r)"
    using adv r by (auto simp: advance_read_def split: if_splits)
  show ct: "contents tb1 = contents tb" by (simp add: contents_def same)
  show ok1: "buffer_ok tb1"
    using ok cases ct by (auto simp: buffer_ok_def)
  show p1: "pending tb1 = pending tb"
    using cases p by (auto simp: pending_def)
  obtain k where k: "read_chunk tb1 = Some k" "k < length (chunks tb1)"
      "read_offset tb1 \<le> count (chunks tb1 ! k)"
    using ok1 cases r by (auto simp: buffer_ok_def)
  have "0 < count (chunks tb ! Suc r)" if "Suc r < length (chunks tb)"
    using nth_last_or_butlast [OF that] ok that by (auto simp: buffer_ok_def)
  then have lt: "read_offset tb1 < count (chunks tb1 ! k)"
    using cases k r by auto
  with k show "\<exists>r. read_chunk tb1 = Some r \<and> r < length (chunks tb1) \<and>
      read_offset tb1 < count (chunks tb1 ! r)" by blast
  let ?c = "chunks tb1 ! k"
  have "drop (read_offset tb1) (chunk_list ?c) = entries ?c (read_offset tb1) #
      drop (Suc (read_offset tb1)) (chunk_list ?c)"
    using lt by (subst Cons_nth_drop_Suc [symmetric]) (simp_all add: chunk_list_def)
  then show "pending tb = entry_at tb1 # pending (tb1\<lparr>read_offset := read_offset tb1 + 1\<rparr>)"
    unfolding p1 [symmetric] using k lt
    by (simp add: pending_def entry_at_def stream_from [OF k(2)])
qed

lemma step_offset_ok:
  assumes "buffer_ok tb" "advance_read tb = Some tb1"
  shows "buffer_ok (tb1\<lparr>read_offset := read_offset tb1 + 1\<rparr>)"
    "contents (tb1\<lparr>read_offset := read_offset tb1 + 1\<rparr>) = contents tb"
  using advance_read_Some [OF assms] by (auto simp: buffer_ok_def contents_def)

lemma read_loop_spec:
  assumes "buffer_ok tb" "read_loop copy_ok n acc tb = (tb', out, failed)"
  shows "buffer_ok tb' \<and> contents tb' = contents tb \<and>
    (\<exists>k\<le>n. out = acc @ take k (pending tb) \<and> k \<le> length (pending tb) \<and>
       pending tb' = drop k (pending tb) \<and>
       (failed \<longrightarrow> k < n \<and> \<not> copy_ok (length acc + k)) \<and>
       (\<not> failed \<longrightarrow> k = min n (length (pending tb))))"
  using assms
proof (induction copy_ok n acc tb rule: read_loop.induct)
  case (1 copy_ok acc tb)
  then show ?case by auto
next
  case (2 copy_ok n acc tb)
  show ?case
  proof (cases "advance_read tb")
    case None
    with 2 have "tb' = tb" "out = acc" "\<not> failed" "pending tb = []"
      by (simp_all add: advance_read_None)
    with 2 show ?thesis by simp
  next
    case (Some tb1)
    let ?tb2 = "tb1\<lparr>read_offset := read_offset tb1 + 1\<rparr>"
    note adv = advance_read_Some [OF 2(2) Some]
    show ?thesis
    proof (cases "copy_ok (length acc)")
      case False
      with 2(3) Some have "tb' = tb1" "out = acc" failed by simp_all
      with adv False show ?thesis by (auto intro!: exI [of _ 0])
    next
      case True
      with 2(3) Some have "read_loop copy_ok n (acc @ [entry_at tb1]) ?tb2 = (tb', out, failed)"
        by simp
      from 2(1) [OF Some _ step_offset_ok(1) [OF 2(2) Some] this] True
      obtain k where "buffer_ok tb'" "contents tb' = contents ?tb2" "k \<le> n"
        "out = acc @ entry_at tb1 # take k (pending ?tb2)" "k \<le> length (pending ?tb2)"
        "pending tb' = drop k (pending ?tb2)"
        "failed \<longrightarrow> k < n \<and> \<not> copy_ok (Suc (length acc) + k)"
        "\<not> failed \<longrightarrow> k = min n (length (pending ?tb2))" by auto
      then show ?thesis
        using adv(4) step_offset_ok(2) [OF 2(2) Some] by (intro conjI exI [of _ "Suc k"]) auto
    qed
  qed
qed


text \<open>The collector keeps the contract; a client call passes full-size buffers that can be copied.\<close>

interpretation collector: trace_device buffer_ok pending
  "\<lambda>kmalloc entry. trace_write sizeof_mem_access (Some entry) kmalloc"
  "\<lambda>n. trace_read (n * sizeof_mem_access) (\<lambda>_. True)"
proof
  fix d k e d' st
  assume "buffer_ok d" "trace_write sizeof_mem_access (Some e) k d = (d', st)"
  then show "buffer_ok d' \<and> pending d' = pending d @ (if st < 0 then [] else [e])"
    using push_cases [of d k e] by (auto simp: trace_write_def split: prod.splits if_splits)
next
  fix d n d' st es
  assume "buffer_ok d" "0 < n" "trace_read (n * sizeof_mem_access) (\<lambda>_. True) d = (d', st, es)"
  then show "buffer_ok d' \<and> es = take n (pending d) \<and> pending d' = drop n (pending d) \<and>
      st = int (length es * 16)"
    using read_loop_spec [of d "\<lambda>_. True" n "[]"]
    by (fastforce simp: trace_read_def min_def split: prod.splits if_splits)
qed

lemma buffer_ok_total: "buffer_ok tb \<Longrightarrow> total_count tb = length (contents tb)"
  by (simp add: buffer_ok_def)

lemma buffer_ok_init: "buffer_ok trace_buffer_init" "contents trace_buffer_init = []"
    "pending trace_buffer_init = []"
  by (simp_all add: buffer_ok_def trace_buffer_init_def contents_def pending_def)

lemma free_chunks_all: "free_chunks cs = []"
  by (induction cs) auto

lemma free_init: "trace_buffer_free tb = trace_buffer_init"
  by (simp add: trace_buffer_free_def trace_buffer_init_def free_chunks_all)

lemma trace_write_cases:
  assumes "buffer_ok tb" and "trace_write len buf kmalloc tb = (tb', st)"
  shows "buffer_ok tb' \<and>
    (if len < sizeof_mem_access then st = - EINVAL \<and> tb' = tb
     else (case buf of
             None \<Rightarrow> st = - EFAULT \<and> tb' = tb
           | Some e \<Rightarrow>
               if needs_chunk tb \<and> kmalloc = None then st = - ENOMEM \<and> tb' = tb
               else st = int sizeof_mem_access \<and> contents tb' = contents tb @ [e] \<and>
                    pending tb' = pending tb @ [e] \<and> total_count tb' = total_count tb + 1))"
proof (cases "len < sizeof_mem_access \<or> buf = None")
  case True
  with assms show ?thesis by (auto simp: trace_write_def split: if_splits)
next
  case False
  then obtain e where e: "buf = Some e" by blast
  obtain tb1 st1 where p: "trace_buffer_push kmalloc e tb = (tb1, st1)" by fastforce
  have nomem: "needs_chunk tb \<Longrightarrow> kmalloc = None \<Longrightarrow> st1 = - ENOMEM"
    using p by (simp add: trace_buffer_push_def)
  from assms(2) False e p have r: "tb' = tb1" "st = (if st1 \<noteq> 0 then st1 else int sizeof_mem_access)"
    by (auto simp: trace_write_def split: if_splits)
  from push_cases [OF assms(1) p] show ?thesis
  proof
    assume "needs_chunk tb \<and> kmalloc = None \<and> st1 = - ENOMEM \<and> tb1 = tb"
    with False e r assms(1) show ?thesis by simp
  next
    assume *: "st1 = 0 \<and> buffer_ok tb1 \<and> contents tb1 = contents tb @ [e] \<and>
      pending tb1 = pending tb @ [e]"
    then have "\<not> (needs_chunk tb \<and> kmalloc = None)" using nomem by auto
    with * False e r assms(1) show ?thesis by (simp add: buffer_ok_total)
  qed
qed

lemma trace_read_cases:
  assumes "buffer_ok tb" and "trace_read len copy_ok tb = (tb', st, out)"
  shows "buffer_ok tb' \<and> contents tb' = contents tb \<and> pending tb = out @ pending tb' \<and>
    (if len < sizeof_mem_access then st = - EINVAL \<and> out = []
     else if st = - EFAULT then out = [] \<and> \<not> copy_ok 0
     else st = int (length out * sizeof_mem_access) \<and>
          (length out = min (len div sizeof_mem_access) (length (pending tb)) \<or> \<not> copy_ok (length out)))"
proof (cases "len < sizeof_mem_access")
  case True
  with assms show ?thesis by (simp add: trace_read_def)
next
  case False
  obtain tb1 out1 f where l: "read_loop copy_ok (len div sizeof_mem_access) [] tb = (tb1, out1, f)"
    using prod_cases3 by blast
  from read_loop_spec [OF assms(1) l] obtain k where
    "buffer_ok tb1" "contents tb1 = contents tb" "out1 = take k (pending tb)" "k \<le> length (pending tb)"
    "pending tb1 = drop k (pending tb)" "f \<longrightarrow> \<not> copy_ok k"
    "\<not> f \<longrightarrow> k = min (len div sizeof_mem_access) (length (pending tb))" by auto
  note k = this
  show ?thesis
  proof (cases f)
    case True
    with assms(2) l False have "tb' = tb1" "out = out1"
      "st = (if length out1 > 0 then int (length out1 * sizeof_mem_access) else - EFAULT)"
      by (auto simp: trace_read_def split: if_splits)
    with k True False show ?thesis by (auto split: if_splits)
  next
    case nf: False
    with assms(2) l False have "tb' = tb1" "out = out1"
      "st = int (length out1 * sizeof_mem_access)"
      by (auto simp: trace_read_def)
    with k nf False show ?thesis by auto
  qed
qed

subsection \<open>Properties\<close>

text \<open>
  C33.  A write of the trace device either appends exactly the entry it was given, at the end of the
  recorded accesses and of those not yet read, and reports its size, or reports the error that
  stopped it (a short buffer, a failed copy, no memory for a new chunk) and changes nothing.
\<close>

theorem trace_write_appends:
  assumes "buffer_ok tb" and "trace_write len buf kmalloc tb = (tb', st)"
  shows "buffer_ok tb' \<and>
    (if len < sizeof_mem_access then st = - EINVAL \<and> tb' = tb
     else (case buf of
             None \<Rightarrow> st = - EFAULT \<and> tb' = tb
           | Some e \<Rightarrow>
               if needs_chunk tb \<and> kmalloc = None then st = - ENOMEM \<and> tb' = tb
               else st = int sizeof_mem_access \<and> contents tb' = contents tb @ [e] \<and>
                    pending tb' = pending tb @ [e] \<and> total_count tb' = total_count tb + 1))"
  by (rule trace_write_cases [OF assms])

theorem trace_write_appends_witness:
  "\<exists>tb'. trace_write 16 (Some \<lparr>acc_addr = 5, acc_type = 1\<rparr>) (Some (\<lambda>_. \<lparr>acc_addr = 0, acc_type = 0\<rparr>))
      trace_buffer_init = (tb', 16) \<and> contents tb' = [\<lparr>acc_addr = 5, acc_type = 1\<rparr>]"
proof -
  have ok: "buffer_ok trace_buffer_init"
    by (simp add: buffer_ok_def trace_buffer_init_def contents_def)
  obtain tb' st where w: "trace_write 16 (Some \<lparr>acc_addr = 5, acc_type = 1\<rparr>)
      (Some (\<lambda>_. \<lparr>acc_addr = 0, acc_type = 0\<rparr>)) trace_buffer_init = (tb', st)" by fastforce
  with trace_write_appends [OF ok w] show ?thesis
    by (simp add: contents_def trace_buffer_init_def)
qed

text \<open>
  A read returns the next entries in the order they were written: as many as fit the buffer and
  are there, or fewer when a copy to the user fails, in which case the entry that could not be
  copied is still the next one.  It never skips, repeats or alters an entry.
\<close>

lemma trace_read_fifo:
  assumes "buffer_ok tb" and "trace_read len copy_ok tb = (tb', st, out)"
  shows "buffer_ok tb' \<and> contents tb' = contents tb \<and> pending tb = out @ pending tb' \<and>
    (if len < sizeof_mem_access then st = - EINVAL \<and> out = []
     else if st = - EFAULT then out = [] \<and> \<not> copy_ok 0
     else st = int (length out * sizeof_mem_access) \<and>
          (length out = min (len div sizeof_mem_access) (length (pending tb)) \<or> \<not> copy_ok (length out)))"
  by (rule trace_read_cases [OF assms])


text \<open>A client's history: calls of write and read, with what the kernel gave each of them.\<close>

datatype trace_op =
    Write_call nat "mem_access option" "(nat \<Rightarrow> mem_access) option"
  | Read_call nat "nat \<Rightarrow> bool"

text \<open>The final buffer, the entries whose write was accepted, the entries handed out by reads.\<close>

fun run_ops ::
    "trace_op list \<Rightarrow> trace_buffer \<Rightarrow> trace_buffer \<times> mem_access list \<times> mem_access list" where
  "run_ops [] tb = (tb, [], [])"
| "run_ops (Write_call len buf kmalloc # ops) tb =
    (case trace_write len buf kmalloc tb of
       (tb1, st) \<Rightarrow>
         (case run_ops ops tb1 of
            (tb2, accepted, delivered) \<Rightarrow>
              (tb2, (if st < 0 then [] else [the buf]) @ accepted, delivered)))"
| "run_ops (Read_call len copy_ok # ops) tb =
    (case trace_read len copy_ok tb of
       (tb1, st, out) \<Rightarrow>
         (case run_ops ops tb1 of
            (tb2, accepted, delivered) \<Rightarrow> (tb2, accepted, out @ delivered)))"

lemma write_history:
  assumes "buffer_ok tb" "trace_write len buf km tb = (tb1, st)"
  shows "buffer_ok tb1" "contents tb1 = contents tb @ (if st < 0 then [] else [the buf])"
    "pending tb1 = pending tb @ (if st < 0 then [] else [the buf])"
  using trace_write_cases [OF assms] by (auto split: if_splits option.splits)

lemma run_ops_history:
  assumes "buffer_ok tb" "run_ops ops tb = (tb', accepted, delivered)"
  shows "buffer_ok tb' \<and> contents tb' = contents tb @ accepted \<and>
    pending tb @ accepted = delivered @ pending tb'"
  using assms
proof (induction ops tb arbitrary: tb' accepted delivered rule: run_ops.induct)
  case (1 tb)
  then show ?case by simp
next
  case (2 len buf km ops tb)
  obtain tb1 st where w: "trace_write len buf km tb = (tb1, st)" by fastforce
  obtain a d where r: "run_ops ops tb1 = (tb', a, d)"
    and eq: "accepted = (if st < 0 then [] else [the buf]) @ a" "delivered = d"
    using 2(3) w by (auto split: prod.splits)
  from 2(1) [OF w [symmetric] _ r] write_history [OF 2(2) w] eq
  show ?case by simp
next
  case (3 len ck ops tb)
  obtain tb1 st out where w: "trace_read len ck tb = (tb1, st, out)" using prod_cases3 by blast
  obtain a d where r: "run_ops ops tb1 = (tb', a, d)"
    and eq: "accepted = a" "delivered = out @ d"
    using 3(3) w by (auto split: prod.splits)
  from 3(1) [OF w [symmetric] refl _ r] trace_read_cases [OF 3(2) w] eq
  show ?case by simp
qed

text \<open>
  C20.  From a fresh buffer, after any sequence of writes and reads (short, failing or not), the
  entries handed out followed by those still pending are exactly the accepted writes, in order;
  the counter of the buffer is their number; freeing gives the fresh buffer again.
\<close>

theorem trace_history:
  "case run_ops ops trace_buffer_init of
     (tb, accepted, delivered) \<Rightarrow>
       accepted = delivered @ pending tb \<and> contents tb = accepted \<and>
       total_count tb = length accepted \<and> buffer_ok tb \<and> trace_buffer_free tb = trace_buffer_init"
proof -
  obtain tb a d where r: "run_ops ops trace_buffer_init = (tb, a, d)" using prod_cases3 by blast
  from run_ops_history [OF buffer_ok_init(1) r] r buffer_ok_total [of tb] show ?thesis
    by (simp add: buffer_ok_init free_init)
qed

end
