(* ===== verification/Driver_Init.thy ===== *)
theory Driver_Init
  imports Kernel_Services Uapi Trace_Collector
begin

text \<open>
  Loading and unloading the two kernel modules: \<open>gpio_init\<close>, \<open>chrdev_init\<close>, \<open>cpu_init\<close> and
  \<open>cpu_exit\<close> of the CPU driver, \<open>trace_init\<close> and \<open>trace_exit\<close> of the trace collector.  The loops over
  the pins are functions over the list of pins, in the order of the code; the static variables that
  hold the interrupt numbers are the record \<open>irqs\<close>.
\<close>

subsection \<open>Pins\<close>

definition LED_PINS :: "nat list" where "LED_PINS = [17, 27, 22, 26]"

abbreviation (input) RUN_SWITCH :: nat where "RUN_SWITCH \<equiv> 23"
abbreviation (input) PAUSE_SWITCH :: nat where "PAUSE_SWITCH \<equiv> 24"
abbreviation (input) INPUT_DEVICE :: nat where "INPUT_DEVICE \<equiv> 25"
abbreviation (input) OUTPUT_DEVICE :: nat where "OUTPUT_DEVICE \<equiv> 16"
abbreviation (input) IO_OFFSET :: nat where "IO_OFFSET \<equiv> 512"

record irqs =
  run_irq :: status
  pause_irq :: status
  step_irq :: status

subsection \<open>The pins of the CPU driver\<close>

fun get_descs :: "services \<Rightarrow> nat list \<Rightarrow> status" where
  "get_descs sv [] = 0"
| "get_descs sv (pin # pins) =
    (if gpio_to_desc sv (pin + IO_OFFSET) then get_descs sv pins else - ENODEV)"

fun set_outputs :: "services \<Rightarrow> nat list \<Rightarrow> kernel \<Rightarrow> kernel \<times> status" where
  "set_outputs sv [] k = (k, 0)"
| "set_outputs sv (pin # pins) k =
    (let status = gpiod_direction_output sv pin
     in if status \<noteq> 0 then (k, status) else set_outputs sv pins (set_level pin 0 k))"

fun set_inputs :: "services \<Rightarrow> nat list \<Rightarrow> status" where
  "set_inputs sv [] = 0"
| "set_inputs sv (pin # pins) =
    (let status = gpiod_direction_input sv pin
     in if status \<noteq> 0 then status else set_inputs sv pins)"

definition request_irqs :: "services \<Rightarrow> irqs \<Rightarrow> kernel \<Rightarrow> irqs \<times> kernel \<times> status" where
  "request_irqs sv q k =
    (let q1 = q\<lparr>run_irq := gpiod_to_irq sv RUN_SWITCH\<rparr>
     in if run_irq q1 < 0 then (q1, k, run_irq q1)
        else
          (let (k1, status) = request_irq sv (run_irq q1) k
           in if status \<noteq> 0 then (q1, k1, status)
              else
                (let q2 = q1\<lparr>pause_irq := gpiod_to_irq sv PAUSE_SWITCH\<rparr>
                 in if pause_irq q2 < 0 then (q2, free_irq (run_irq q2) k1, pause_irq q2)
                    else
                      (let (k2, status) = request_irq sv (pause_irq q2) k1
                       in if status \<noteq> 0 then (q2, free_irq (run_irq q2) k2, status)
                          else
                            (let q3 = q2\<lparr>step_irq := gpiod_to_irq sv INPUT_DEVICE\<rparr>
                             in if step_irq q3 < 0
                                then (q3, free_irq (pause_irq q3) (free_irq (run_irq q3) k2), step_irq q3)
                                else
                                  (let (k3, status) = request_irq sv (step_irq q3) k2
                                   in if status \<noteq> 0
                                      then (q3, free_irq (pause_irq q3) (free_irq (run_irq q3) k3), status)
                                      else (q3, k3, 0)))))))"

definition gpio_init :: "services \<Rightarrow> irqs \<Rightarrow> kernel \<Rightarrow> irqs \<times> kernel \<times> status" where
  "gpio_init sv q k =
    (let status = get_descs sv (LED_PINS @ [OUTPUT_DEVICE, RUN_SWITCH, PAUSE_SWITCH, INPUT_DEVICE])
     in if status \<noteq> 0 then (q, k, status)
        else
          (let (k1, status) = set_outputs sv (LED_PINS @ [OUTPUT_DEVICE]) k
           in if status \<noteq> 0 then (q, k1, status)
              else
                (let status = set_inputs sv [RUN_SWITCH, PAUSE_SWITCH, INPUT_DEVICE]
                 in if status \<noteq> 0 then (q, k1, status) else request_irqs sv q k1)))"

subsection \<open>The character device of the CPU driver\<close>

text \<open>
  \<open>cpu_class->devnode\<close> is stored through the class pointer, which faults unless the pointer is valid;
  an error pointer of \<open>device_create\<close> passes the test and no node exists.
\<close>

definition chrdev_init :: "services \<Rightarrow> kernel \<Rightarrow> kernel init" where
  "chrdev_init sv k =
    (if alloc_chrdev_region sv \<noteq> 0 then Init k (alloc_chrdev_region sv)
     else
       (let k1 = k\<lparr>region := True\<rparr>
        in if cdev_add sv \<noteq> 0 then Init (unregister_chrdev_region k1) (cdev_add sv)
           else
             (let k2 = k1\<lparr>cdev := True\<rparr>
              in case class_create sv of
                   Null \<Rightarrow> Init (unregister_chrdev_region (cdev_del k2)) (- ENOMEM)
                 | Err_ptr e \<Rightarrow> Faults k2
                 | Valid \<Rightarrow>
                     (let k3 = k2\<lparr>registered := True\<rparr>
                      in case device_create sv of
                           Null \<Rightarrow>
                             Init (unregister_chrdev_region (cdev_del (class_destroy (class_unregister k3))))
                               (- ENOMEM)
                         | Err_ptr e \<Rightarrow> Init k3 0
                         | Valid \<Rightarrow> Init (k3\<lparr>node := True\<rparr>) 0))))"

definition cpu_init :: "services \<Rightarrow> irqs \<Rightarrow> kernel \<Rightarrow> irqs \<times> kernel init" where
  "cpu_init sv q k =
    (let (q1, k1, gpio_status) = gpio_init sv q k
     in if gpio_status \<noteq> 0 then (q1, Init k1 gpio_status) else (q1, chrdev_init sv k1))"

definition cpu_exit :: "irqs \<Rightarrow> kernel \<Rightarrow> kernel" where
  "cpu_exit q k =
    (let k1 = free_irq (step_irq q) (free_irq (pause_irq q) (free_irq (run_irq q) k));
         k2 = fold (\<lambda>pin. set_level pin 0) LED_PINS k1;
         k3 = set_level OUTPUT_DEVICE 0 k2
     in unregister_chrdev_region (cdev_del (class_destroy (class_unregister (device_destroy k3)))))"

subsection \<open>The trace collector module\<close>

definition trace_init :: "services \<Rightarrow> kernel \<Rightarrow> trace_buffer \<times> kernel init" where
  "trace_init sv k =
    (let tb = trace_buffer_init
     in if alloc_chrdev_region sv < 0 then (tb, Init k (alloc_chrdev_region sv))
        else
          (let k1 = k\<lparr>region := True\<rparr>
           in if cdev_add sv < 0 then (tb, Init (unregister_chrdev_region k1) (cdev_add sv))
              else
                (let k2 = k1\<lparr>cdev := True\<rparr>
                 in case class_create sv of
                      Null \<Rightarrow> (tb, Faults k2)
                    | Err_ptr e \<Rightarrow> (tb, Init (unregister_chrdev_region (cdev_del k2)) e)
                    | Valid \<Rightarrow>
                        (let k3 = k2\<lparr>registered := True\<rparr>
                         in case device_create sv of
                              Null \<Rightarrow>
                                (tb, Init (unregister_chrdev_region (cdev_del (class_destroy (class_unregister k3))))
                                  (- ENOMEM))
                            | Err_ptr e \<Rightarrow> (tb, Init k3 0)
                            | Valid \<Rightarrow> (tb, Init (k3\<lparr>node := True\<rparr>) 0)))))"

definition trace_exit :: "trace_buffer \<Rightarrow> kernel \<Rightarrow> trace_buffer \<times> kernel" where
  "trace_exit tb k =
    (trace_buffer_free tb,
     unregister_chrdev_region (cdev_del (class_destroy (class_unregister (device_destroy k)))))"


subsection \<open>What loading acquires\<close>

definition irq_lines :: "irqs \<Rightarrow> status list" where
  "irq_lines q = [step_irq q, pause_irq q, run_irq q]"

text \<open>Two kernels with the same character device resources.\<close>

definition same_chrdev :: "kernel \<Rightarrow> kernel \<Rightarrow> bool" where
  "same_chrdev k k' \<longleftrightarrow> region k' = region k \<and> cdev k' = cdev k \<and> registered k' = registered k \<and> node k' = node k"

lemma set_level_frame [simp]:
  "handlers (set_level pin v k) = handlers k" "same_chrdev k (set_level pin v k') = same_chrdev k k'"
  by (simp_all add: set_level_def same_chrdev_def)

lemma same_chrdev_refl [simp]: "same_chrdev k k"
  by (simp add: same_chrdev_def)

lemma set_outputs_frame:
  "set_outputs sv pins k = (k', s) \<Longrightarrow> handlers k' = handlers k \<and> same_chrdev k k'"
  by (induction pins arbitrary: k) (auto simp: Let_def same_chrdev_def set_level_def split: if_splits)

lemma free_two: "remove1 p (remove1 r (p # r # hs)) = hs"
  by simp

lemma request_irqs_lines:
  assumes "request_irqs sv q k = (q', k', s)"
  shows "same_chrdev k k' \<and> handlers k' = (if s = 0 then irq_lines q' @ handlers k else handlers k)"
  using assms free_two
  by (auto simp: request_irqs_def request_irq_def free_irq_def irq_lines_def same_chrdev_def Let_def
      split: if_splits prod.splits)

lemma gpio_init_lines:
  assumes "gpio_init sv q k = (q', k', s)"
  shows "same_chrdev k k' \<and> handlers k' = (if s = 0 then irq_lines q' @ handlers k else handlers k)"
  using assms
  by (auto simp: gpio_init_def Let_def same_chrdev_def split: if_splits prod.splits
      dest!: set_outputs_frame request_irqs_lines)

lemma chrdev_init_cases:
  assumes "no_chrdev k"
  shows "case chrdev_init sv k of
      Faults k' \<Rightarrow> (\<exists>e. class_create sv = Err_ptr e) \<and> handlers k' = handlers k \<and> region k' \<and> cdev k'
    | Init k' s \<Rightarrow> handlers k' = handlers k \<and>
        (if s = 0 then region k' \<and> cdev k' \<and> registered k' \<and> (node k' \<longleftrightarrow> device_create sv = Valid)
         else no_chrdev k')"
  using assms by (auto simp: chrdev_init_def no_chrdev_def release_defs Let_def split: pointer.splits)

text \<open>
  C13.  Loading the CPU driver over a kernel without its device: on success its three handlers and
  the character device are there (the node only if \<open>device_create\<close> returned a device); an error of
  \<open>class_create\<close> makes it fault with the device number and the handlers still held; on any other failure
  the character device is taken back completely, and the handlers exactly when \<open>gpio_init\<close> failed: when
  \<open>chrdev_init\<close> fails they stay.
\<close>

theorem cpu_module_load:
  assumes "no_chrdev k" "gpio_init sv q k = (q1, k1, s1)"
  shows "fst (cpu_init sv q k) = q1 \<and>
    (case snd (cpu_init sv q k) of
       Faults k' \<Rightarrow> s1 = 0 \<and> (\<exists>e. class_create sv = Err_ptr e) \<and>
         handlers k' = irq_lines q1 @ handlers k \<and> region k' \<and> cdev k'
     | Init k' s \<Rightarrow>
         handlers k' = (if s1 = 0 then irq_lines q1 @ handlers k else handlers k) \<and>
         (if s = 0 then s1 = 0 \<and> region k' \<and> cdev k' \<and> registered k' \<and>
            (node k' \<longleftrightarrow> device_create sv = Valid)
          else no_chrdev k'))"
proof -
  note g = gpio_init_lines [OF assms(2)]
  then have n: "no_chrdev k1" using assms(1) by (simp add: same_chrdev_def no_chrdev_def)
  show ?thesis
    using chrdev_init_cases [OF n, of sv] g n assms(2)
    by (cases "chrdev_init sv k1") (auto simp: cpu_init_def)
qed

text \<open>A kernel in which every call succeeds, and one in which the device number cannot be reserved.\<close>

definition willing :: services where
  "willing = \<lparr>gpio_to_desc = (\<lambda>_. True), gpiod_direction_output = (\<lambda>_. 0), gpiod_direction_input = (\<lambda>_. 0),
     gpiod_to_irq = int, request_threaded_irq = (\<lambda>_. 0), alloc_chrdev_region = 0, cdev_add = 0,
     class_create = Valid, device_create = Valid\<rparr>"

definition unloaded :: kernel where
  "unloaded = \<lparr>handlers = [], levels = (\<lambda>_. None), region = False, cdev = False, registered = False,
     node = False\<rparr>"

abbreviation (input) no_irqs :: irqs where
  "no_irqs \<equiv> \<lparr>run_irq = 0, pause_irq = 0, step_irq = 0\<rparr>"

theorem cpu_module_load_witness:
  "\<exists>q' k'. cpu_init (willing\<lparr>alloc_chrdev_region := - 16\<rparr>) no_irqs unloaded = (q', Init k' (- 16)) \<and>
    no_chrdev k' \<and> handlers k' = [25, 24, 23]"
proof -
  let ?sv = "willing\<lparr>alloc_chrdev_region := - 16\<rparr>"
  obtain q1 k1 s1 where g: "gpio_init ?sv no_irqs unloaded = (q1, k1, s1)" by (metis prod_cases3)
  have s: "s1 = 0" "q1 = \<lparr>run_irq = 23, pause_irq = 24, step_irq = 25\<rparr>"
    using g by (simp_all add: gpio_init_def request_irqs_def request_irq_def willing_def LED_PINS_def Let_def)
  have c: "snd (cpu_init ?sv no_irqs unloaded) = Init k1 (- 16)"
    by (simp add: cpu_init_def g s chrdev_init_def)
  have "no_chrdev unloaded" by (simp add: no_chrdev_def unloaded_def)
  from cpu_module_load [OF this g] c s show ?thesis
    by (cases "cpu_init ?sv no_irqs unloaded") (simp add: irq_lines_def unloaded_def)
qed

text \<open>
  C15.  Unloading the CPU driver after a successful load gives everything back and turns the LEDs and
  the output pin off.
\<close>

theorem cpu_module_roundtrip:
  assumes "no_chrdev k" "cpu_init sv q k = (q', Init k' 0)"
  shows "handlers (cpu_exit q' k') = handlers k \<and> no_chrdev (cpu_exit q' k') \<and>
    (\<forall>pin. pin \<in> set LED_PINS \<union> {OUTPUT_DEVICE} \<longrightarrow> levels (cpu_exit q' k') pin = Some 0)"
proof -
  obtain q1 k1 s1 where g: "gpio_init sv q k = (q1, k1, s1)" by (metis prod_cases3)
  from gpio_init_lines [OF g] assms(1) have n: "no_chrdev k1"
    by (simp add: same_chrdev_def no_chrdev_def)
  have "q' = q1 \<and> handlers k' = irq_lines q1 @ handlers k"
    using assms(2) g gpio_init_lines [OF g] chrdev_init_cases [OF n, of sv]
    by (auto simp: cpu_init_def split: if_splits)
  then show ?thesis
    by (auto simp: cpu_exit_def irq_lines_def release_defs set_level_def LED_PINS_def no_chrdev_def Let_def)
qed

definition loaded :: kernel where
  "loaded = \<lparr>handlers = [25, 24, 23], levels = [17 \<mapsto> 0, 27 \<mapsto> 0, 22 \<mapsto> 0, 26 \<mapsto> 0, 16 \<mapsto> 0], region = True,
     cdev = True, registered = True, node = True\<rparr>"

lemma willing_load:
  "cpu_init willing no_irqs unloaded = (\<lparr>run_irq = 23, pause_irq = 24, step_irq = 25\<rparr>, Init loaded 0)"
  by (simp add: cpu_init_def gpio_init_def request_irqs_def request_irq_def chrdev_init_def willing_def
      LED_PINS_def set_level_def unloaded_def loaded_def Let_def)

lemma unloaded_chrdev: "no_chrdev unloaded"
  by (simp add: no_chrdev_def unloaded_def)

theorem cpu_module_roundtrip_witness:
  "handlers (cpu_exit \<lparr>run_irq = 23, pause_irq = 24, step_irq = 25\<rparr> loaded) = [] \<and>
    levels (cpu_exit \<lparr>run_irq = 23, pause_irq = 24, step_irq = 25\<rparr> loaded) 22 = Some 0"
  using cpu_module_roundtrip [OF unloaded_chrdev willing_load] by (simp add: unloaded_def LED_PINS_def)

text \<open>
  C16.  Loading the trace collector over a kernel without its device never faults when \<open>class_create\<close>
  returns a class or an error: it starts with an empty buffer, a negative status means that nothing
  was kept, any other status is 0 with the device registered, and unloading then gives back what
  loading took and empties the buffer, whatever was traced in between.
\<close>

theorem trace_module_roundtrip:
  assumes "no_chrdev k" "class_create sv \<noteq> Null" "\<And>e. class_create sv = Err_ptr e \<Longrightarrow> e < 0"
  shows "\<exists>k' s. trace_init sv k = (trace_buffer_init, Init k' s) \<and>
    (if s < 0 then k' = k
     else s = 0 \<and> region k' \<and> cdev k' \<and> registered k' \<and> (node k' \<longleftrightarrow> device_create sv = Valid) \<and>
       trace_exit tb k' = (trace_buffer_init, k))"
proof -
  have "k = \<lparr>handlers = handlers k, levels = levels k, region = False, cdev = False, registered = False, node = False\<rparr>"
    using assms(1) by (cases k) (simp add: no_chrdev_def)
  then obtain hs ls where k: "k = \<lparr>handlers = hs, levels = ls, region = False, cdev = False, registered = False,
      node = False\<rparr>" by blast
  show ?thesis
    unfolding k using assms(2,3) free_init
    by (cases "class_create sv"; cases "device_create sv")
      (auto simp: trace_init_def trace_exit_def release_defs Let_def)
qed

theorem trace_module_roundtrip_witness:
  "\<exists>k' s. trace_init willing unloaded = (trace_buffer_init, Init k' s) \<and>
    (if s < 0 then k' = unloaded
     else s = 0 \<and> region k' \<and> cdev k' \<and> registered k' \<and> (node k' \<longleftrightarrow> device_create willing = Valid) \<and>
       trace_exit trace_buffer_init k' = (trace_buffer_init, unloaded))"
  by (rule trace_module_roundtrip [OF unloaded_chrdev]) (simp_all add: willing_def)

end
