(* ===== verification/Word_Memory.thy ===== *)
theory Word_Memory
  imports Rpi_Prelude
begin

text \<open>
  The contract of a memory of words: which addresses are valid, that a word stored is the word
  loaded, and that a store leaves the words apart from it alone.  What a program of stores leaves
  behind follows from the contract.
\<close>

fun store_all :: "('m \<Rightarrow> 'a \<Rightarrow> 'v \<Rightarrow> 'm option) \<Rightarrow> ('a \<times> 'v) list \<Rightarrow> 'm \<Rightarrow> 'm option" where
  "store_all store [] m = Some m"
| "store_all store ((a, v) # ops) m =
    (case store m a v of None \<Rightarrow> None | Some m' \<Rightarrow> store_all store ops m')"

text \<open>The value the operations leave at \<open>a\<close>, \<open>v\<close> being the one before them.\<close>

fun last_store :: "'a \<Rightarrow> ('a \<times> 'v) list \<Rightarrow> 'v \<Rightarrow> 'v" where
  "last_store a [] v = v"
| "last_store a ((b, w) # ops) v = last_store a ops (if b = a then w else v)"

locale word_memory =
  fixes in_range :: "'a \<Rightarrow> bool"
    and apart :: "'a \<Rightarrow> 'a \<Rightarrow> bool"
    and load :: "'m \<Rightarrow> 'a \<Rightarrow> 'v option"
    and store :: "'m \<Rightarrow> 'a \<Rightarrow> 'v \<Rightarrow> 'm option"
  assumes load_in_range: "in_range a \<longleftrightarrow> (\<exists>v. load m a = Some v)"
    and store_in_range: "in_range a \<longleftrightarrow> (\<exists>m'. store m a v = Some m')"
    and load_stored: "store m a v = Some m' \<Longrightarrow> load m' a = Some v"
    and load_apart: "store m a v = Some m' \<Longrightarrow> apart a b \<Longrightarrow> load m' b = load m b"
begin

lemma store_all_runs:
  "\<forall>(a, v)\<in>set ops. in_range a \<Longrightarrow> \<exists>m'. store_all store ops m = Some m'"
proof (induction ops arbitrary: m)
  case (Cons op ops)
  obtain a v where op: "op = (a, v)" by fastforce
  then obtain m1 where "store m a v = Some m1" using Cons.prems store_in_range by fastforce
  with Cons op show ?case by simp
qed simp

lemma load_last:
  assumes "store_all store ops m = Some m'" "load m a = Some v"
    and "\<forall>(b, w)\<in>set ops. b = a \<or> apart b a"
  shows "load m' a = Some (last_store a ops v)"
  using assms
proof (induction ops arbitrary: m v)
  case (Cons op ops)
  obtain b w where op: "op = (b, w)" by fastforce
  then obtain m1 where s: "store m b w = Some m1" "store_all store ops m1 = Some m'"
    using Cons.prems(1) by (auto split: option.splits)
  have "load m1 a = Some (if b = a then w else v)"
    using s(1) op Cons.prems(2,3) load_stored [OF s(1)] load_apart [OF s(1), of a] by auto
  with Cons op s(2) show ?case by simp
qed simp

end

end
