(* ===== verification/Memory.thy ===== *)
theory Memory
  imports Uapi Word_Memory
begin

text \<open>
  The simulated memory of the userspace program (\<open>memory\<close>, \<open>read_from_memory\<close>, \<open>write_to_memory\<close>
  and \<open>fetch_next\<close> in \<open>userspace/src/cpu_emulator_userspace.c\<close>) and the loading of a program
  (\<open>store_machine_code\<close> in \<open>userspace/src/assembler.c\<close>).  The C functions do not check their
  addresses; an access outside the array, which is undefined there, is the result \<open>None\<close>.  A copy
  of a 64-bit object is its bytes in little-endian order, as on the Raspberry Pi.
\<close>

subsection \<open>The array\<close>

abbreviation (input) MEM_SIZE :: nat where "MEM_SIZE \<equiv> 0x10000"

type_synonym memory = "nat \<Rightarrow> u8"

definition mem_get :: "memory \<Rightarrow> u64 \<Rightarrow> u8 option" where
  "mem_get m a = (if unat a < MEM_SIZE then Some (m (unat a)) else None)"

definition mem_set :: "memory \<Rightarrow> u64 \<Rightarrow> u8 \<Rightarrow> memory option" where
  "mem_set m a v = (if unat a < MEM_SIZE then Some (m(unat a := v)) else None)"

subsection \<open>Words\<close>

definition read_from_memory :: "memory \<Rightarrow> u64 \<Rightarrow> u64 option" where
  "read_from_memory m address =
     fold (\<lambda>i acc. case acc of
              None \<Rightarrow> None
            | Some v \<Rightarrow>
                (case mem_get m (address + of_nat i) of
                   None \<Rightarrow> None
                 | Some byte \<Rightarrow> Some (v OR push_bit (i * 8) (ucast byte))))
       [0..<8] (Some 0)"

definition write_to_memory :: "memory \<Rightarrow> u64 \<Rightarrow> u64 \<Rightarrow> memory option" where
  "write_to_memory m address v =
     fold (\<lambda>i acc. case acc of
              None \<Rightarrow> None
            | Some m' \<Rightarrow> mem_set m' (address + of_nat i) (ucast (drop_bit (i * 8) v AND 0xFF)))
       [0..<8] (Some m)"

subsection \<open>Instructions\<close>

text \<open>The \<open>memcpy\<close> into \<open>operand2\<close> reads the bytes of a word.\<close>

definition fetch_next :: "memory \<Rightarrow> u64 \<Rightarrow> instruction option" where
  "fetch_next m PC =
    (case mem_get m PC of
       None \<Rightarrow> None
     | Some op \<Rightarrow>
         (case mem_get m (PC + 1) of
            None \<Rightarrow> None
          | Some md \<Rightarrow>
              (case mem_get m (PC + 2) of
                 None \<Rightarrow> None
               | Some op1 \<Rightarrow>
                   (case read_from_memory m (PC + 3) of
                      None \<Rightarrow> None
                    | Some op2 \<Rightarrow>
                        Some \<lparr>operand2 = op2, operand1 = op1, opcode = op, mode = md\<rparr>))))"

definition store_instruction :: "memory \<Rightarrow> u64 \<Rightarrow> instruction \<Rightarrow> memory option" where
  "store_instruction m base i =
    (case mem_set m base (opcode i) of
       None \<Rightarrow> None
     | Some m1 \<Rightarrow>
         (case mem_set m1 (base + 1) (mode i) of
            None \<Rightarrow> None
          | Some m2 \<Rightarrow>
              (case mem_set m2 (base + 2) (operand1 i) of
                 None \<Rightarrow> None
               | Some m3 \<Rightarrow> write_to_memory m3 (base + 3) (operand2 i))))"

definition store_machine_code :: "memory \<Rightarrow> nat \<Rightarrow> instruction list \<Rightarrow> nat \<Rightarrow> memory option" where
  "store_machine_code m memory_size instructions num_instructions =
    (if num_instructions * INSTR_SIZE + INSTR_SIZE > memory_size then Some m
     else
       fold (\<lambda>i acc. case acc of
                None \<Rightarrow> None
              | Some m' \<Rightarrow> store_instruction m' (of_nat (i * INSTR_SIZE)) (instructions ! i))
         [0..<num_instructions] (Some m))"

subsection \<open>Little-endian words\<close>

definition le_word :: "(nat \<Rightarrow> u8) \<Rightarrow> u64" where
  "le_word f = fold (\<lambda>i acc. acc OR push_bit (i * 8) (ucast (f i))) [0..<8] 0"

definition le_byte :: "u64 \<Rightarrow> nat \<Rightarrow> u8" where
  "le_byte v i = ucast (drop_bit (i * 8) v AND 0xFF)"

lemma upt_0_8: "[0..<8] = [0, 1, 2, 3, 4, 5, 6, 7::nat]"
  by (simp add: upt_rec)

lemma le_word_cong: "(\<And>i. i < 8 \<Longrightarrow> f i = g i) \<Longrightarrow> le_word f = le_word g"
  by (simp add: le_word_def upt_0_8)

lemma bit_le_byte: "bit (le_byte v i) n \<longleftrightarrow> n < 8 \<and> bit v (i * 8 + n)"
proof -
  have ff: "(0xFF :: u64) = mask 8" by (simp add: mask_eq_exp_minus_1)
  show ?thesis
    unfolding le_byte_def ff
    by (auto simp: bit_ucast_iff bit_and_iff bit_mask_iff bit_drop_bit_eq add.commute
        dest: bit_imp_le_length)
qed

lemma bit_fold_or:
  "bit (fold (\<lambda>i acc. acc OR g i) is a) n \<longleftrightarrow> bit a n \<or> (\<exists>i\<in>set is. bit (g i) n)" for a :: u64
  by (induction "is" arbitrary: a) (auto simp: bit_or_iff)

lemma le_word_le_byte: "le_word (le_byte v) = v"
proof (rule bit_word_eqI)
  fix n assume n: "n < LENGTH(64)"
  have one: "bit (push_bit (i * 8) (ucast (le_byte v i)) :: u64) n \<longleftrightarrow> i * 8 \<le> n \<and> n < i * 8 + 8 \<and> bit v n" for i
    using n by (auto simp: bit_push_bit_iff bit_ucast_iff bit_le_byte)
  have "bit v n \<longrightarrow> (\<exists>i\<in>{0..<8}. i * 8 \<le> n \<and> n < i * 8 + 8 \<and> bit v n)"
    using n by (intro impI bexI [of _ "n div 8"]) auto
  then show "bit (le_word (le_byte v)) n \<longleftrightarrow> bit v n"
    unfolding le_word_def bit_fold_or one by auto
qed


subsection \<open>Access inside and outside the array\<close>

abbreviation step_opt :: "('i \<Rightarrow> 'v \<Rightarrow> 'v option) \<Rightarrow> 'i \<Rightarrow> 'v option \<Rightarrow> 'v option" where
  "step_opt f i acc \<equiv> (case acc of None \<Rightarrow> None | Some v \<Rightarrow> f i v)"

lemma fold_opt_None: "fold (step_opt f) is None = None"
  by (induction "is") auto

lemma fold_opt_fail:
  assumes "i \<in> set is" "\<And>v. f i v = None"
  shows "fold (step_opt f) is acc = None"
  using assms
proof (induction "is" arbitrary: acc)
  case (Cons j js)
  then show ?case by (cases acc; cases "i = j") (auto simp: fold_opt_None)
qed simp

lemma fold_opt_total:
  assumes "\<And>i v. i \<in> set is \<Longrightarrow> f i v = Some (g i v)"
  shows "fold (step_opt f) is (Some v) = Some (fold g is v)"
  using assms by (induction "is" arbitrary: v) auto

lemma unat_offset: "unat (a :: u64) + i < 2 ^ 64 \<Longrightarrow> unat (a + of_nat i) = unat a + i"
proof -
  assume *: "unat a + i < 2 ^ 64"
  then have "unat (of_nat i :: u64) = i" by (simp add: unat_of_nat take_bit_nat_eq_self_iff)
  with * show ?thesis by (simp add: unat_word_ariths)
qed

lemma outside:
  assumes "\<not> unat (a :: u64) + n \<le> MEM_SIZE" "0 < n" "n \<le> 2 ^ 16"
  shows "\<exists>i<n. \<not> unat (a + of_nat i) < MEM_SIZE"
proof (cases "unat a < MEM_SIZE")
  case True
  then have "unat (a + of_nat (n - 1)) = unat a + (n - 1)" using assms by (intro unat_offset) simp
  with True assms show ?thesis by (intro exI [of _ "n - 1"]) simp
next
  case False
  with assms(2) show ?thesis by (intro exI [of _ 0]) simp
qed

lemma inside: "unat (a :: u64) + n \<le> MEM_SIZE \<Longrightarrow> i < n \<Longrightarrow> unat (a + of_nat i) = unat a + i"
  by (rule unat_offset) simp

lemma read_from_memory_spec:
  "read_from_memory m a =
     (if unat a + 8 \<le> MEM_SIZE then Some (le_word (\<lambda>i. m (unat a + i))) else None)"
proof (cases "unat a + 8 \<le> MEM_SIZE")
  case True
  have "read_from_memory m a =
      Some (fold (\<lambda>i acc. acc OR push_bit (i * 8) (ucast (m (unat a + i)))) [0..<8] 0)"
    unfolding read_from_memory_def
    by (rule fold_opt_total) (use inside [OF True] True in \<open>simp add: mem_get_def\<close>)
  with True show ?thesis by (simp add: le_word_def)
next
  case False
  then obtain i where i: "i < 8" "\<not> unat (a + of_nat i) < MEM_SIZE" using outside [of a 8] by auto
  have "read_from_memory m a = None"
    unfolding read_from_memory_def
    by (rule fold_opt_fail [where i = i]) (use i in \<open>simp_all add: mem_get_def\<close>)
  with False show ?thesis by simp
qed

definition put_bytes :: "nat \<Rightarrow> (nat \<Rightarrow> u8) \<Rightarrow> nat \<Rightarrow> memory \<Rightarrow> memory" where
  "put_bytes a f n m = (\<lambda>k. if a \<le> k \<and> k < a + n then f (k - a) else m k)"

lemma fold_put_bytes: "fold (\<lambda>i m. m(a + i := f i)) [0..<n] m = put_bytes a f n m"
  by (induction n) (auto simp: put_bytes_def fun_eq_iff less_Suc_eq)

lemma write_to_memory_spec:
  "write_to_memory m a v =
     (if unat a + 8 \<le> MEM_SIZE then Some (put_bytes (unat a) (le_byte v) 8 m) else None)"
proof (cases "unat a + 8 \<le> MEM_SIZE")
  case True
  have "write_to_memory m a v = Some (fold (\<lambda>i m. m(unat a + i := le_byte v i)) [0..<8] m)"
    unfolding write_to_memory_def
    by (rule fold_opt_total) (use inside [OF True] True in \<open>simp add: mem_set_def le_byte_def\<close>)
  with True show ?thesis by (simp add: fold_put_bytes)
next
  case False
  then obtain i where i: "i < 8" "\<not> unat (a + of_nat i) < MEM_SIZE" using outside [of a 8] by auto
  have "write_to_memory m a v = None"
    unfolding write_to_memory_def
    by (rule fold_opt_fail [where i = i]) (use i in \<open>simp_all add: mem_set_def\<close>)
  with False show ?thesis by simp
qed

text \<open>An instruction in memory is eleven bytes.\<close>

definition code_byte :: "instruction \<Rightarrow> nat \<Rightarrow> u8" where
  "code_byte i k = (if k = 0 then opcode i else if k = 1 then mode i
                    else if k = 2 then operand1 i else le_byte (operand2 i) (k - 3))"

lemma store_instruction_spec:
  assumes "unat a + INSTR_SIZE \<le> MEM_SIZE"
  shows "store_instruction m a i = Some (put_bytes (unat a) (code_byte i) INSTR_SIZE m)"
proof -
  have u: "unat (a + 1) = unat a + 1" "unat (a + 2) = unat a + 2" "unat (a + 3) = unat a + 3"
    using unat_offset [of a 1] unat_offset [of a 2] unat_offset [of a 3] assms by simp_all
  let ?m3 = "m(unat a := opcode i, unat a + 1 := mode i, unat a + 2 := operand1 i)"
  have "store_instruction m a i = Some (put_bytes (unat a + 3) (le_byte (operand2 i)) 8 ?m3)"
    using assms u by (simp add: store_instruction_def mem_set_def write_to_memory_spec)
  moreover have "put_bytes (unat a + 3) (le_byte (operand2 i)) 8 ?m3 =
      put_bytes (unat a) (code_byte i) INSTR_SIZE m"
    by (rule ext) (auto simp: put_bytes_def code_byte_def)
  ultimately show ?thesis by simp
qed

lemma fetch_next_spec:
  "fetch_next m a =
     (if unat a + INSTR_SIZE \<le> MEM_SIZE
      then Some \<lparr>operand2 = le_word (\<lambda>i. m (unat a + 3 + i)), operand1 = m (unat a + 2),
                 opcode = m (unat a), mode = m (unat a + 1)\<rparr>
      else None)"
proof (cases "unat a < MEM_SIZE")
  case True
  then have u: "unat (a + 1) = unat a + 1" "unat (a + 2) = unat a + 2" "unat (a + 3) = unat a + 3"
    using unat_offset [of a 1] unat_offset [of a 2] unat_offset [of a 3] by simp_all
  with True show ?thesis
    by (auto simp: fetch_next_def mem_get_def read_from_memory_spec add.assoc)
next
  case False
  then show ?thesis by (simp add: fetch_next_def mem_get_def)
qed

lemma fetch_put_same:
  assumes "unat a + INSTR_SIZE \<le> MEM_SIZE"
  shows "fetch_next (put_bytes (unat a) (code_byte i) INSTR_SIZE m) a = Some i"
proof -
  have "le_word (\<lambda>k. put_bytes (unat a) (code_byte i) INSTR_SIZE m (unat a + 3 + k)) =
      le_word (le_byte (operand2 i))"
    by (rule le_word_cong) (simp add: put_bytes_def code_byte_def)
  with assms show ?thesis
    by (simp add: fetch_next_spec le_word_le_byte) (simp add: put_bytes_def code_byte_def)
qed

lemma fetch_cong:
  assumes "\<And>k. unat a \<le> k \<Longrightarrow> k < unat a + INSTR_SIZE \<Longrightarrow> m k = m' k"
  shows "fetch_next m a = fetch_next m' a"
proof -
  have "le_word (\<lambda>i. m (unat a + 3 + i)) = le_word (\<lambda>i. m' (unat a + 3 + i))"
    using assms by (intro le_word_cong) simp
  with assms show ?thesis by (simp add: fetch_next_spec)
qed


subsection \<open>The memory keeps the contract of words\<close>

definition word_in_range :: "u64 \<Rightarrow> bool" where
  "word_in_range a \<longleftrightarrow> unat a + 8 \<le> MEM_SIZE"

definition words_apart :: "u64 \<Rightarrow> u64 \<Rightarrow> bool" where
  "words_apart a b \<longleftrightarrow> unat a + 8 \<le> unat b \<or> unat b + 8 \<le> unat a"

interpretation mem: word_memory word_in_range words_apart read_from_memory write_to_memory
proof
  fix a b v m m'
  show "word_in_range a \<longleftrightarrow> (\<exists>v. read_from_memory m a = Some v)"
    by (simp add: word_in_range_def read_from_memory_spec)
  show "word_in_range a \<longleftrightarrow> (\<exists>m'. write_to_memory m a v = Some m')"
    by (simp add: word_in_range_def write_to_memory_spec)
  assume w: "write_to_memory m a v = Some m'"
  then have m': "m' = put_bytes (unat a) (le_byte v) 8 m" "unat a + 8 \<le> MEM_SIZE"
    by (auto simp: write_to_memory_spec split: if_splits)
  have "le_word (\<lambda>i. m' (unat a + i)) = le_word (le_byte v)"
    by (rule le_word_cong) (simp add: m' put_bytes_def)
  then show "read_from_memory m' a = Some v"
    using m'(2) by (simp add: read_from_memory_spec le_word_le_byte)
  assume "words_apart a b"
  then have "le_word (\<lambda>i. m' (unat b + i)) = le_word (\<lambda>i. m (unat b + i))"
    by (intro le_word_cong) (auto simp: m' put_bytes_def words_apart_def)
  then show "read_from_memory m' b = read_from_memory m b"
    by (simp add: read_from_memory_spec)
qed

subsection \<open>Loading a program\<close>

lemma store_program:
  assumes "n * INSTR_SIZE + INSTR_SIZE \<le> MEM_SIZE"
  shows "fold (step_opt (\<lambda>i m'. store_instruction m' (of_nat (i * INSTR_SIZE)) (instructions ! i)))
      [0..<n] (Some m) =
    Some (\<lambda>k. if k < n * INSTR_SIZE then code_byte (instructions ! (k div INSTR_SIZE)) (k mod INSTR_SIZE) else m k)"
  using assms
proof (induction n)
  case 0
  then show ?case by simp
next
  case (Suc n)
  let ?m = "\<lambda>n k. if k < n * INSTR_SIZE then code_byte (instructions ! (k div INSTR_SIZE)) (k mod INSTR_SIZE) else m k"
  have u: "unat (of_nat (n * INSTR_SIZE) :: u64) = n * INSTR_SIZE"
    using Suc.prems by (subst unat_of_nat) (simp add: take_bit_nat_eq_self_iff del: of_nat_mult)
  have "put_bytes (n * INSTR_SIZE) (code_byte (instructions ! n)) INSTR_SIZE (?m n) = ?m (Suc n)"
  proof (rule ext)
    fix k
    have "k div INSTR_SIZE = n \<and> k mod INSTR_SIZE = k - n * INSTR_SIZE"
      if "n * INSTR_SIZE \<le> k" "k < n * INSTR_SIZE + INSTR_SIZE"
    proof -
      have d: "k div INSTR_SIZE = n" using that by (intro div_nat_eqI) simp_all
      moreover have "k mod INSTR_SIZE = k - INSTR_SIZE * (k div INSTR_SIZE)" by (simp add: minus_mult_div_eq_mod)
      ultimately show ?thesis by (simp add: mult.commute)
    qed
    then show "put_bytes (n * INSTR_SIZE) (code_byte (instructions ! n)) INSTR_SIZE (?m n) k = ?m (Suc n) k"
      by (auto simp: put_bytes_def)
  qed
  moreover have "store_instruction (?m n) (of_nat (n * INSTR_SIZE)) (instructions ! n) =
      Some (put_bytes (n * INSTR_SIZE) (code_byte (instructions ! n)) INSTR_SIZE (?m n))"
    using store_instruction_spec [of "of_nat (n * INSTR_SIZE)" "?m n" "instructions ! n"] u Suc.prems
    by (simp del: of_nat_mult)
  ultimately show ?case using Suc by (simp del: of_nat_mult)
qed

lemma fetch_stored:
  assumes "n * INSTR_SIZE + INSTR_SIZE \<le> MEM_SIZE" "i < n"
    and "store_machine_code m MEM_SIZE instructions n = Some m'"
  shows "fetch_next m' (of_nat (i * INSTR_SIZE)) = Some (instructions ! i)"
proof -
  let ?a = "of_nat (i * INSTR_SIZE) :: u64"
  have in_n: "i * INSTR_SIZE + INSTR_SIZE \<le> n * INSTR_SIZE"
  proof -
    have "Suc i * INSTR_SIZE \<le> n * INSTR_SIZE" using assms(2) by (intro mult_le_mono1) simp
    then show ?thesis by simp
  qed
  have u: "unat ?a = i * INSTR_SIZE"
    using assms(1) in_n by (subst unat_of_nat) (simp add: take_bit_nat_eq_self_iff del: of_nat_mult)
  have m': "m' = (\<lambda>k. if k < n * INSTR_SIZE then code_byte (instructions ! (k div INSTR_SIZE)) (k mod INSTR_SIZE) else m k)"
    using assms(1,3) store_program [OF assms(1), of instructions m]
    by (simp add: store_machine_code_def del: of_nat_mult)
  have "m' (unat ?a + k) = put_bytes (unat ?a) (code_byte (instructions ! i)) INSTR_SIZE m (unat ?a + k)"
    if "k < INSTR_SIZE" for k
  proof -
    have "(i * INSTR_SIZE + k) div INSTR_SIZE = i" "(i * INSTR_SIZE + k) mod INSTR_SIZE = k"
      using that by simp_all
    with in_n that show ?thesis by (simp add: m' u put_bytes_def del: of_nat_mult)
  qed
  then have "fetch_next m' ?a = fetch_next (put_bytes (unat ?a) (code_byte (instructions ! i)) INSTR_SIZE m) ?a"
    by (intro fetch_cong) (metis le_add_diff_inverse nat_add_left_cancel_less)
  then show ?thesis
    using fetch_put_same [of ?a "instructions ! i" m] u in_n assms(1) by (simp del: of_nat_mult)
qed

subsection \<open>Properties\<close>

text \<open>
  The simulated memory behaves as a memory of 64-bit words: any sequence of writes to addresses
  inside the array succeeds, and a word read afterwards is the last one written there, or the
  original one if no write touched it.  Writes that only partly overlap the word are excluded.
\<close>

lemma memory_last_write:
  assumes "word_in_range a" and "\<forall>(b, w)\<in>set ops. word_in_range b \<and> (b = a \<or> words_apart b a)"
    and "read_from_memory m a = Some v"
  shows "\<exists>m'. store_all write_to_memory ops m = Some m' \<and>
    read_from_memory m' a = Some (last_store a ops v)"
proof -
  have "\<forall>(b, w)\<in>set ops. word_in_range b" "\<forall>(b, w)\<in>set ops. b = a \<or> words_apart b a"
    using assms(2) by auto
  with mem.store_all_runs [of ops m] mem.load_last [of ops m _ a v] assms(3) show ?thesis by blast
qed


text \<open>
  C34.  A program that fits is loaded so that the machine fetches back exactly its instructions: the
  one with index \<open>i\<close> from address \<open>11 * i\<close>.  A program that does not fit, with the space for one
  further instruction, leaves the memory unchanged.
\<close>

theorem program_loaded:
  assumes "store_machine_code m MEM_SIZE instructions n = Some m'"
  shows "if n * INSTR_SIZE + INSTR_SIZE > MEM_SIZE then m' = m
    else (\<forall>i<n. fetch_next m' (of_nat (i * INSTR_SIZE)) = Some (instructions ! i)) \<and>
         (\<forall>k\<ge>n * INSTR_SIZE. m' k = m k)"
proof (cases "n * INSTR_SIZE + INSTR_SIZE > MEM_SIZE")
  case True
  with assms show ?thesis by (simp add: store_machine_code_def)
next
  case False
  then have fits: "n * INSTR_SIZE + INSTR_SIZE \<le> MEM_SIZE" by simp
  have "\<forall>k\<ge>n * INSTR_SIZE. m' k = m k"
    using assms store_program [OF fits, of instructions m] fits
    by (auto simp: store_machine_code_def simp del: of_nat_mult)
  with fetch_stored [OF fits _ assms] False show ?thesis by simp
qed

theorem program_loaded_witness:
  "\<exists>m'. store_machine_code (\<lambda>_. 0) MEM_SIZE
      [\<lparr>operand2 = 0xFFFF, operand1 = 0, opcode = 0x10, mode = 3\<rparr>] 1 = Some m' \<and>
     fetch_next m' 0 = Some \<lparr>operand2 = 0xFFFF, operand1 = 0, opcode = 0x10, mode = 3\<rparr>"
proof -
  let ?is = "[\<lparr>operand2 = 0xFFFF, operand1 = 0, opcode = 0x10, mode = 3\<rparr>]"
  obtain m' where s: "store_machine_code (\<lambda>_. 0) MEM_SIZE ?is 1 = Some m'"
    by (simp add: store_machine_code_def store_instruction_spec)
  from program_loaded [OF s] s show ?thesis by simp
qed

text \<open>
  An instruction can be fetched exactly from the addresses whose eleven bytes lie inside the
  array.  In particular the target of a jump to a label that is not defined, whose operand keeps
  the assembler's default of all ones, is outside.
\<close>

lemma fetch_outside:
  "(fetch_next m a = None \<longleftrightarrow> MEM_SIZE < unat a + INSTR_SIZE) \<and>
   fetch_next m ((- 1) * INSTR_SIZE) = None"
  by (simp add: fetch_next_spec not_le)

end
