(* ===== verification/Emulator.thy ===== *)
theory Emulator
  imports Memory Cpu_Device Trace_Collector
begin

text \<open>
  The execution loop of the userspace program (\<open>run\<close> in
  \<open>userspace/src/cpu_emulator_userspace.c\<close>): it feeds the CPU device one instruction at a time,
  serves the memory requests the device answers with, and records every access in the trace
  collector.  The two devices are the models of their drivers.  What else happens in an iteration is
  its environment: interrupts before the read gets past its wait, a signal, the input pin, and
  the allocations of the collector.
\<close>

subsection \<open>State\<close>

record env =
  irqs :: "gate \<Rightarrow> gate"
  got_signal :: bool
  pin :: int
  kmalloc_data :: "(nat \<Rightarrow> mem_access) option"
  kmalloc_fetch :: "(nat \<Rightarrow> mem_access) option"

record emu =
  emu_memory :: memory
  write_buf :: write_value
  read_buf :: read_value
  access :: mem_access
  dev_ctx :: cpu_context
  dev_gate :: gate
  dev_board :: board
  dev_trace :: trace_buffer

text \<open>
  How the loop ends: the function returns a value, waits in the read for good, or the program or
  the kernel faults.
\<close>

datatype run_end = Finished status | Waiting | Segfault | Kernel_fault

datatype 'a flow = Go 'a | Stop run_end 'a

subsection \<open>One iteration\<close>

text \<open>Set \<open>access\<close> and write it to the collector; the program goes on when that fails.\<close>

definition record_access :: "(nat \<Rightarrow> mem_access) option \<Rightarrow> u64 \<Rightarrow> u8 \<Rightarrow> emu \<Rightarrow> emu" where
  "record_access kmalloc a ty e =
    (let acc = \<lparr>acc_addr = a, acc_type = ty\<rparr>
     in e\<lparr>access := acc,
          dev_trace := fst (trace_write sizeof_mem_access (Some acc) kmalloc (dev_trace e))\<rparr>)"

definition fetch_step :: "env \<Rightarrow> emu \<Rightarrow> emu flow" where
  "fetch_step v e =
    (case fetch_next (emu_memory e) (rv_pc (read_buf e)) of
       None \<Rightarrow> Stop Segfault e
     | Some i \<Rightarrow>
         Go (record_access (kmalloc_fetch v) (rv_pc (read_buf e)) 0
               (e\<lparr>write_buf := (write_buf e)\<lparr>wv_instruction := i\<rparr>\<rparr>)))"

definition serve_read :: "env \<Rightarrow> emu \<Rightarrow> emu flow" where
  "serve_read v e =
    (let e1 = e\<lparr>write_buf := (write_buf e)\<lparr>is_instruction := 0\<rparr>\<rparr>
     in case read_from_memory (emu_memory e1) (rv_mem_addr (read_buf e1)) of
          None \<Rightarrow> Stop Segfault e1
        | Some value \<Rightarrow>
            (let e2 = e1\<lparr>write_buf := (write_buf e1)\<lparr>wv_val := value\<rparr>\<rparr>
             in case cpu_write sizeof_write_value (Some (write_buf e2)) (dev_ctx e2) (dev_board e2) of
                  Blocks \<Rightarrow> Stop Waiting e2
                | Oops f \<Rightarrow> Stop Kernel_fault e2
                | Returns (ctx, b, r) \<Rightarrow>
                    (let e3 = record_access (kmalloc_data v) (rv_mem_addr (read_buf e2)) 0
                                (e2\<lparr>dev_ctx := ctx, dev_board := b\<rparr>)
                     in fetch_step v (e3\<lparr>write_buf := (write_buf e3)\<lparr>is_instruction := 1\<rparr>\<rparr>))))"

definition serve_write :: "env \<Rightarrow> emu \<Rightarrow> emu flow" where
  "serve_write v e =
    (case write_to_memory (emu_memory e) (rv_mem_addr (read_buf e)) (rv_val (read_buf e)) of
       None \<Rightarrow> Stop Segfault e
     | Some m \<Rightarrow>
         fetch_step v (record_access (kmalloc_data v) (rv_mem_addr (read_buf e)) 1
                         (e\<lparr>emu_memory := m\<rparr>)))"

definition serve :: "env \<Rightarrow> emu \<Rightarrow> emu flow" where
  "serve v e =
    (let r = exec_return (read_buf e)
     in if r = EXEC_SUCCESS then fetch_step v e
        else if r = EXEC_HALT then Stop (Finished 0) e
        else if r = EXEC_PENDING_MEM_READ then serve_read v e
        else if r = EXEC_PENDING_MEM_WRITE then serve_write v e
        else if r = EXEC_PENDING_MMIO_READ then fetch_step v e
        else Stop (Finished (- 1)) e)"

text \<open>
  \<open>i\<close> is a C \<open>int\<close>; printing \<open>instruction_text[i]\<close> reads outside the array when it is negative.
\<close>

definition run_iteration :: "int \<Rightarrow> env \<Rightarrow> emu \<Rightarrow> emu flow" where
  "run_iteration count' v e =
    (let i = sint (ucast (rv_pc (read_buf e) div INSTR_SIZE) :: 32 word)
     in case cpu_write sizeof_write_value (Some (write_buf e)) (dev_ctx e) (dev_board e) of
          Blocks \<Rightarrow> Stop Waiting e
        | Oops f \<Rightarrow> Stop Kernel_fault e
        | Returns (ctx1, b1, r1) \<Rightarrow>
            (let e1 = e\<lparr>dev_ctx := ctx1, dev_board := b1\<rparr>
             in if r1 < 0 then Stop (Finished 0) e1
                else
                  (case cpu_read sizeof_read_value (got_signal v) (pin v) True
                          (irqs v (dev_gate e1)) ctx1 b1 of
                     Blocks \<Rightarrow> Stop Waiting e1
                   | Oops f \<Rightarrow> Stop Kernel_fault e1
                   | Returns (g2, delayed, ctx2, b2, r2, buf) \<Rightarrow>
                       (let e2 = e1\<lparr>dev_gate := g2, dev_ctx := ctx2, dev_board := b2\<rparr>
                        in if r2 < 0 then Stop (Finished 0) e2
                           else
                             (let e3 = e2\<lparr>read_buf := the buf\<rparr>
                              in if i \<ge> count' then Stop (Finished 0) e3
                                 else if i < 0 then Stop Segfault e3
                                 else serve v e3)))))"

subsection \<open>The loop and its start\<close>

text \<open>\<open>envs k\<close> is the environment of iteration \<open>k\<close>; \<open>None\<close> is a run that never ends.\<close>

partial_function (option) run_loop ::
    "(nat \<Rightarrow> env) \<Rightarrow> int \<Rightarrow> nat \<Rightarrow> emu \<Rightarrow> (run_end \<times> emu) option" where
  "run_loop envs count' k e =
    (case run_iteration count' (envs k) e of
       Stop r e' \<Rightarrow> Some (r, e')
     | Go e' \<Rightarrow> run_loop envs count' (k + 1) e')"

text \<open>
  \<open>opened\<close> is what opening the CPU device gives (the values of its two switches, the allocation)
  and \<open>trace_open\<close> whether the collector can be opened; a failed \<open>open\<close> is \<open>-1\<close>.
\<close>

definition run_init :: "memory \<Rightarrow> gate \<Rightarrow> cpu_context \<Rightarrow> board \<Rightarrow>
    (nat \<Rightarrow> mem_access) option \<Rightarrow> trace_buffer \<Rightarrow> emu option" where
  "run_init m g ctx b kmalloc tb =
    (case fetch_next m 0 of
       None \<Rightarrow> None
     | Some i \<Rightarrow>
         Some \<lparr>emu_memory = m,
               write_buf = \<lparr>wv_instruction = i, wv_val = 0, is_instruction = 1\<rparr>,
               read_buf = \<lparr>rv_pc = 0, rv_mem_addr = 0, rv_val = 0, exec_return = 0\<rparr>,
               access = \<lparr>acc_addr = 0, acc_type = 0\<rparr>,
               dev_ctx = ctx, dev_gate = g, dev_board = b,
               dev_trace = fst (trace_write sizeof_mem_access
                  (Some \<lparr>acc_addr = 0, acc_type = 0\<rparr>) kmalloc tb)\<rparr>)"

definition run ::
    "(nat \<Rightarrow> env) \<Rightarrow> int \<times> int \<times> bool \<Rightarrow> bool \<Rightarrow> (nat \<Rightarrow> mem_access) option \<Rightarrow> int \<Rightarrow>
      memory \<Rightarrow> gate \<Rightarrow> board \<Rightarrow> trace_buffer \<Rightarrow> (run_end \<times> emu option) option" where
  "run envs opened trace_open kmalloc count' m g b tb =
    (case opened of (run_val, pause_val, alloc) \<Rightarrow>
      (case cpu_open run_val pause_val alloc g of
         (g', None, r) \<Rightarrow> Some (Finished (- 1), None)
       | (g', Some ctx, r) \<Rightarrow>
           (if \<not> trace_open then Some (Finished (- 1), None)
            else
              (case run_init m g' ctx b kmalloc tb of
                 None \<Rightarrow> Some (Segfault, None)
               | Some e \<Rightarrow>
                   (case run_loop envs count' 0 e of
                      None \<Rightarrow> None
                    | Some (r, e') \<Rightarrow> Some (r, Some e'))))))"


subsection \<open>The whole machine\<close>

text \<open>
  The specification of the running system: the abstract CPU, the memory and the log of accesses.
  A step executes the instruction at the program counter together with its memory access and then
  fetches the next instruction, which the log records.
\<close>

record machine =
  cpu :: isa_state
  ram :: memory
  log :: "mem_access list"

datatype outcome = Runs machine | Ends run_end machine

definition log_access :: "u64 \<Rightarrow> u8 \<Rightarrow> machine \<Rightarrow> machine" where
  "log_access a ty M = M\<lparr>log := log M @ [\<lparr>acc_addr = a, acc_type = ty\<rparr>]\<rparr>"

definition next_fetch :: "machine \<Rightarrow> outcome" where
  "next_fetch M =
    (case fetch_next (ram M) (ip (cpu M)) of
       None \<Rightarrow> Ends Segfault M
     | Some i \<Rightarrow> Runs (log_access (ip (cpu M)) 0 M))"

definition finish_event :: "event \<Rightarrow> machine \<Rightarrow> outcome" where
  "finish_event ev M =
    (case ev of
       Rejected \<Rightarrow> Ends (Finished 0) M
     | Halted \<Rightarrow> Ends (Finished 0) M
     | Want_read k a \<Rightarrow>
         (case read_from_memory (ram M) a of
            None \<Rightarrow> Ends Segfault M
          | Some v \<Rightarrow>
              (case reg_of (ucast k) of
                 None \<Rightarrow> Ends Kernel_fault M
               | Some q \<Rightarrow> next_fetch (log_access a 0 (M\<lparr>cpu := set_reg q v (cpu M)\<rparr>))))
     | Want_write k a \<Rightarrow>
         (case reg_of (ucast k) of
            None \<Rightarrow> Ends Kernel_fault M
          | Some q \<Rightarrow>
              (case write_to_memory (ram M) a (rf (cpu M) q) of
                 None \<Rightarrow> Ends Segfault M
               | Some m \<Rightarrow> next_fetch (log_access a 1 (M\<lparr>ram := m\<rparr>))))
     | _ \<Rightarrow> next_fetch M)"

text \<open>
  \<open>n\<close> is the number of instructions of the program.  An instruction past them is still executed
  by the CPU, and the program stops without serving it.
\<close>

definition machine_step :: "nat \<Rightarrow> int \<Rightarrow> machine \<Rightarrow> outcome" where
  "machine_step n input M =
    (case fetch_next (ram M) (ip (cpu M)) of
       None \<Rightarrow> Ends Segfault M
     | Some i \<Rightarrow>
         (case isa_exec input (decode i) (cpu M) of
            (s', ev) \<Rightarrow>
              (let M' = M\<lparr>cpu := s'\<rparr>
               in if faults ev then Ends Kernel_fault M'
                  else if n \<le> unat (ip (cpu M)) div INSTR_SIZE then Ends (Finished 0) M'
                  else finish_event ev M')))"

subsection \<open>The simulation\<close>

text \<open>
  \<open>old\<close> is what the collector held before the run.  The collector has memory for every entry.
\<close>

definition simulates :: "mem_access list \<Rightarrow> emu \<Rightarrow> machine \<Rightarrow> bool" where
  "simulates old e M \<longleftrightarrow>
     cpu_ok (ctx_cpu (dev_ctx e)) \<and> abs_cpu (ctx_cpu (dev_ctx e)) = cpu M \<and>
     emu_memory e = ram M \<and> buffer_ok (dev_trace e) \<and> contents (dev_trace e) = old @ log M"

definition ready :: "mem_access list \<Rightarrow> emu \<Rightarrow> machine \<Rightarrow> bool" where
  "ready old e M \<longleftrightarrow> simulates old e M \<and> rv_pc (read_buf e) = ip (cpu M) \<and>
     is_instruction (write_buf e) = 1 \<and>
     fetch_next (ram M) (ip (cpu M)) = Some (wv_instruction (write_buf e))"

definition matches :: "mem_access list \<Rightarrow> emu flow \<Rightarrow> outcome \<Rightarrow> bool" where
  "matches old fl out \<longleftrightarrow>
     (case out of
        Runs M \<Rightarrow> (\<exists>e. fl = Go e \<and> ready old e M)
      | Ends r M \<Rightarrow> (\<exists>e. fl = Stop r e \<and> emu_memory e = ram M \<and> buffer_ok (dev_trace e) \<and>
                         contents (dev_trace e) = old @ log M))"

lemma record_access_frame [simp]:
  "emu_memory (record_access km a ty e) = emu_memory e" "write_buf (record_access km a ty e) = write_buf e"
  "read_buf (record_access km a ty e) = read_buf e" "dev_ctx (record_access km a ty e) = dev_ctx e"
  "dev_gate (record_access km a ty e) = dev_gate e" "dev_board (record_access km a ty e) = dev_board e"
  by (simp_all add: record_access_def Let_def)

lemma record_access_log:
  assumes "buffer_ok (dev_trace e)" "km \<noteq> None"
  shows "buffer_ok (dev_trace (record_access km a ty e)) \<and>
    contents (dev_trace (record_access km a ty e)) =
      contents (dev_trace e) @ [\<lparr>acc_addr = a, acc_type = ty\<rparr>]"
proof -
  obtain tb' st where w: "trace_write sizeof_mem_access (Some \<lparr>acc_addr = a, acc_type = ty\<rparr>) km (dev_trace e) =
      (tb', st)" by fastforce
  from trace_write_cases [OF assms(1) w] assms(2) w show ?thesis
    by (simp add: record_access_def)
qed

lemma fetch_step_matches:
  assumes "simulates old e M" "rv_pc (read_buf e) = ip (cpu M)" "is_instruction (write_buf e) = 1"
    "kmalloc_fetch v \<noteq> None"
  shows "matches old (fetch_step v e) (next_fetch M)"
proof (cases "fetch_next (ram M) (ip (cpu M))")
  case None
  with assms show ?thesis by (simp add: fetch_step_def next_fetch_def matches_def simulates_def)
next
  case (Some i)
  let ?e = "record_access (kmalloc_fetch v) (ip (cpu M)) 0 (e\<lparr>write_buf := (write_buf e)\<lparr>wv_instruction := i\<rparr>\<rparr>)"
  have "buffer_ok (dev_trace ?e) \<and> contents (dev_trace ?e) = old @ log M @ [\<lparr>acc_addr = ip (cpu M), acc_type = 0\<rparr>]"
    using record_access_log [of "e\<lparr>write_buf := (write_buf e)\<lparr>wv_instruction := i\<rparr>\<rparr>" "kmalloc_fetch v"] assms
    by (simp add: simulates_def)
  with Some assms show ?thesis
    by (simp add: fetch_step_def next_fetch_def matches_def ready_def simulates_def log_access_def)
qed

lemma serve_read_matches:
  assumes sim: "simulates old e M" and pc: "rv_pc (read_buf e) = ip (cpu M)"
    and adr: "rv_mem_addr (read_buf e) = a" and idx: "pending_reg_idx (ctx_cpu (dev_ctx e)) = k"
    and km: "kmalloc_fetch v \<noteq> None" "kmalloc_data v \<noteq> None"
  shows "matches old (serve_read v e) (finish_event (Want_read k a) M)"
proof (cases "read_from_memory (ram M) a")
  case None
  with sim adr show ?thesis by (simp add: serve_read_def finish_event_def matches_def simulates_def)
next
  case (Some x)
  let ?wv = "(write_buf e)\<lparr>is_instruction := 0, wv_val := x\<rparr>"
  let ?e2 = "e\<lparr>write_buf := ?wv\<rparr>"
  have ok: "cpu_ok (ctx_cpu (dev_ctx e))" using sim by (simp add: simulates_def)
  have wv: "(write_buf e)\<lparr>is_instruction := 0\<rparr>\<lparr>wv_val := x\<rparr> = ?wv" by simp
  show ?thesis
  proof (cases "reg_of (ucast k)")
    case None
    with write_value_cases [OF ok, of ?wv "dev_board e"] idx Some sim adr show ?thesis
      by (simp add: serve_read_def finish_event_def matches_def simulates_def)
  next
    case (Some q)
    from write_value_cases [OF ok, of ?wv "dev_board e"] idx Some obtain cpu' b' where
      w: "cpu_write sizeof_write_value (Some ?wv) (dev_ctx e) (dev_board e) =
        Returns ((dev_ctx e)\<lparr>ctx_cpu := cpu'\<rparr>, b', int sizeof_write_value)"
      "cpu_ok cpu'" "abs_cpu cpu' = set_reg q x (abs_cpu (ctx_cpu (dev_ctx e)))" by auto
    let ?e3 = "record_access (kmalloc_data v) a 0
        (?e2\<lparr>dev_ctx := (dev_ctx e)\<lparr>ctx_cpu := cpu'\<rparr>, dev_board := b'\<rparr>)"
    let ?M = "log_access a 0 (M\<lparr>cpu := set_reg q x (cpu M)\<rparr>)"
    have "simulates old ?e3 ?M"
      using record_access_log [of "?e2\<lparr>dev_ctx := (dev_ctx e)\<lparr>ctx_cpu := cpu'\<rparr>, dev_board := b'\<rparr>" "kmalloc_data v" a 0]
        sim km w(2,3) by (simp add: simulates_def log_access_def)
    then have "matches old (fetch_step v (?e3\<lparr>write_buf := (write_buf ?e3)\<lparr>is_instruction := 1\<rparr>\<rparr>)) (next_fetch ?M)"
      using pc km by (intro fetch_step_matches) (simp_all add: simulates_def log_access_def set_reg_def)
    with \<open>read_from_memory (ram M) a = Some x\<close> Some w(1) sim adr show ?thesis
      by (simp add: serve_read_def finish_event_def simulates_def Let_def)
  qed
qed

lemma serve_write_matches:
  assumes sim: "simulates old e M" and pc: "rv_pc (read_buf e) = ip (cpu M)"
    and adr: "rv_mem_addr (read_buf e) = a" and val: "reg_of (ucast k) = Some q" "rv_val (read_buf e) = rf (cpu M) q"
    and wb: "is_instruction (write_buf e) = 1"
    and km: "kmalloc_fetch v \<noteq> None" "kmalloc_data v \<noteq> None"
  shows "matches old (serve_write v e) (finish_event (Want_write k a) M)"
proof (cases "write_to_memory (ram M) a (rf (cpu M) q)")
  case None
  with sim adr val show ?thesis by (simp add: serve_write_def finish_event_def matches_def simulates_def)
next
  case (Some m)
  let ?e = "record_access (kmalloc_data v) a 1 (e\<lparr>emu_memory := m\<rparr>)"
  let ?M = "log_access a 1 (M\<lparr>ram := m\<rparr>)"
  have "simulates old ?e ?M"
    using record_access_log [of "e\<lparr>emu_memory := m\<rparr>" "kmalloc_data v" a 1] sim km
    by (simp add: simulates_def log_access_def)
  then have "matches old (fetch_step v ?e) (next_fetch ?M)"
    using pc km wb by (intro fetch_step_matches) (simp_all add: log_access_def)
  with Some val sim adr show ?thesis
    by (simp add: serve_write_def finish_event_def simulates_def)
qed


text \<open>An environment that lets the iteration through and has memory for the collector.\<close>

definition lets_run :: "env \<Rightarrow> gate \<Rightarrow> bool" where
  "lets_run v g \<longleftrightarrow> can_execute (irqs v g) \<and> kmalloc_fetch v \<noteq> None \<and> kmalloc_data v \<noteq> None"

lemma iteration_index:
  assumes "fetch_next m a \<noteq> None"
  shows "sint (ucast ((a :: u64) div INSTR_SIZE) :: 32 word) = int (unat a div INSTR_SIZE)"
proof -
  have "unat a < MEM_SIZE" using assms by (auto simp: fetch_next_spec split: if_splits)
  then have q: "unat a div INSTR_SIZE < 2 ^ 16" by simp
  have "unat (a div INSTR_SIZE) = unat a div INSTR_SIZE" by (simp add: unat_div)
  with q have u: "uint (ucast (a div INSTR_SIZE) :: 32 word) = int (unat a div INSTR_SIZE)"
    by (simp add: unsigned_ucast_eq take_bit_eq_mod uint_nat)
  have "signed_take_bit 31 (int (unat a div INSTR_SIZE)) = int (unat a div INSTR_SIZE)"
    using q by (intro signed_take_bit_int_eq_self) simp_all
  then show ?thesis by (simp add: sint_uint u)
qed

lemma iteration_matches:
  assumes rdy: "ready old e M" and run: "lets_run v (dev_gate e)"
  shows "matches old (run_iteration (int n) v e) (machine_step n (pin v) M)"
proof -
  let ?i = "wv_instruction (write_buf e)"
  let ?ctx = "(dev_ctx e)\<lparr>pending_instruction := ?i\<rparr>"
  have sim: "simulates old e M" and pc: "rv_pc (read_buf e) = ip (cpu M)"
    and wb: "is_instruction (write_buf e) = 1"
    and f: "fetch_next (ram M) (ip (cpu M)) = Some ?i" using rdy by (simp_all add: ready_def)
  have idx: "sint (ucast (rv_pc (read_buf e) div INSTR_SIZE) :: 32 word) = int (unat (ip (cpu M)) div INSTR_SIZE)"
    using iteration_index [of "ram M" "ip (cpu M)"] f pc by simp
  obtain s' ev where x: "isa_exec (pin v) (decode ?i) (cpu M) = (s', ev)" by fastforce
  have w: "cpu_write sizeof_write_value (Some (write_buf e)) (dev_ctx e) (dev_board e) =
      Returns (?ctx, dev_board e, int sizeof_write_value)"
    using wb by (simp add: write_instruction)
  have ok: "cpu_ok (ctx_cpu ?ctx)" using sim by (simp add: simulates_def)
  have x': "isa_exec (pin v) (decode (pending_instruction ?ctx)) (abs_cpu (ctx_cpu ?ctx)) = (s', ev)"
    using x sim by (simp add: simulates_def)
  have go: "can_execute (irqs v (dev_gate e))" using run by (simp add: lets_run_def)
  have km: "kmalloc_fetch v \<noteq> None" "kmalloc_data v \<noteq> None" using run by (simp_all add: lets_run_def)
  have flt: "faults ev \<longleftrightarrow> (\<exists>k a. ev = Want_write k a \<and> k > 3)"
    by (simp add: faults_def reg_of_None_iff)
  let ?M = "M\<lparr>cpu := s'\<rparr>"
  let ?i' = "int (unat (ip (cpu M)) div INSTR_SIZE)"
  note rd = cpu_read_outcome [OF ok go x', where signalled = "got_signal v" and b = "dev_board e"]
  show ?thesis
  proof (cases "cpu_read sizeof_read_value (got_signal v) (pin v) True (irqs v (dev_gate e)) ?ctx (dev_board e)")
    case Blocks
    with rd show ?thesis by simp
  next
    case (Oops fl)
    with rd have "faults ev" using flt by simp
    with Oops w f x sim show ?thesis
      by (simp add: run_iteration_def machine_step_def matches_def simulates_def Let_def)
  next
    case (Returns out)
    then obtain g2 dl ctx2 b2 r2 buf where
      r: "cpu_read sizeof_read_value (got_signal v) (pin v) True (irqs v (dev_gate e)) ?ctx (dev_board e) =
        Returns (g2, dl, ctx2, b2, r2, buf)" by (cases out) auto
    with rd have nf: "\<not> faults ev" and post: "cpu_ok (ctx_cpu ctx2)" "abs_cpu (ctx_cpu ctx2) = s'"
      "reports ev (ctx_cpu ctx2)"
      "if ev = Rejected then r2 = - EINVAL else r2 = int sizeof_read_value \<and> buf = Some (answer s' ev)"
      using flt by (auto split: if_splits)
    let ?e2 = "e\<lparr>dev_gate := g2, dev_ctx := ctx2, dev_board := b2\<rparr>"
    show ?thesis
    proof (cases "ev = Rejected")
      case True
      with r w f x nf post sim show ?thesis
        by (simp add: run_iteration_def machine_step_def matches_def simulates_def Let_def finish_event_def)
    next
      case False
      let ?e3 = "?e2\<lparr>read_buf := answer s' ev\<rparr>"
      have it: "run_iteration (int n) v e =
          (if ?i' \<ge> int n then Stop (Finished 0) ?e3 else serve v ?e3)"
        using False post(4) r w by (simp add: run_iteration_def idx Let_def)
      have sim3: "simulates old ?e3 ?M" using sim post by (simp add: simulates_def)
      have pc3: "rv_pc (answer s' ev) = ip s'"
        by (cases ev) (simp_all add: answer_def)
      show ?thesis
      proof (cases "n \<le> unat (ip (cpu M)) div INSTR_SIZE")
        case True
        then have "?i' \<ge> int n" by simp
        with True it f x nf sim3 show ?thesis
          by (simp add: machine_step_def matches_def simulates_def)
      next
        case False
        then have "\<not> ?i' \<ge> int n" by simp
        then have it3: "run_iteration (int n) v e = serve v ?e3" using it by simp
        have st: "machine_step n (pin v) M = finish_event ev ?M"
          using False f x nf by (simp add: machine_step_def)
        note fetch = fetch_step_matches [OF sim3 _ _ km(1)]
        show ?thesis
        proof (cases ev)
          case (Want_read k a)
          then have "serve v ?e3 = serve_read v ?e3"
            by (simp add: serve_def answer_def)
          with it3 st Want_read serve_read_matches [OF sim3, of a k v] post(3) pc3 km
          show ?thesis by (simp add: answer_def)
        next
          case (Want_write k a)
          then obtain q where q: "reg_of (ucast k) = Some q" using nf by (auto simp: faults_def)
          have "serve v ?e3 = serve_write v ?e3" using Want_write by (simp add: serve_def answer_def)
          with it3 st Want_write q serve_write_matches [OF sim3, of a k q v] post(3) pc3 km wb
          show ?thesis by (simp add: answer_def)
        next
          case Halted
          with it3 st sim3 show ?thesis
            by (simp add: serve_def answer_def finish_event_def matches_def simulates_def)
        qed (use it3 st fetch pc3 wb \<open>ev \<noteq> Rejected\<close> in
            \<open>simp_all add: serve_def answer_def finish_event_def\<close>)
      qed
    qed
  qed
qed

subsection \<open>Runs\<close>

fun machine_run :: "nat \<Rightarrow> (nat \<Rightarrow> int) \<Rightarrow> nat \<Rightarrow> nat \<Rightarrow> machine \<Rightarrow> (run_end \<times> machine) option" where
  "machine_run n input 0 k M = None"
| "machine_run n input (Suc fuel) k M =
    (case machine_step n (input k) M of
       Ends r M' \<Rightarrow> Some (r, M')
     | Runs M' \<Rightarrow> machine_run n input fuel (k + 1) M')"

text \<open>
  A run that is never held up: the CPU is running and not paused, and the interrupts keep it so.
\<close>

definition unpaused :: "gate \<Rightarrow> bool" where
  "unpaused g \<longleftrightarrow> cpu_running g \<noteq> 0 \<and> cpu_paused g = 0"

definition undisturbed :: "(nat \<Rightarrow> env) \<Rightarrow> bool" where
  "undisturbed envs \<longleftrightarrow>
     (\<forall>k. kmalloc_fetch (envs k) \<noteq> None \<and> kmalloc_data (envs k) \<noteq> None \<and>
        (\<forall>g. unpaused g \<longrightarrow> unpaused (irqs (envs k) g)))"

lemma undisturbed_lets_run: "undisturbed envs \<Longrightarrow> unpaused g \<Longrightarrow> lets_run (envs k) g"
  by (auto simp: undisturbed_def lets_run_def can_execute_def unpaused_def)

lemma fetch_step_gate: "fetch_step v e = Go e' \<Longrightarrow> dev_gate e' = dev_gate e"
  by (auto simp: fetch_step_def split: option.splits)

lemma serve_gate: "serve v e = Go e' \<Longrightarrow> dev_gate e' = dev_gate e"
  by (auto simp: serve_def serve_read_def serve_write_def Let_def dest!: fetch_step_gate
      split: if_splits option.splits syscall.splits)

lemma cpu_read_gate:
  "cpu_read len sg input cp g ctx b = Returns (g', rest) \<Longrightarrow> unpaused g \<Longrightarrow> unpaused g'"
  by (auto simp: cpu_read_def take_token_def unpaused_def split: if_splits prod.splits syscall.splits)

lemma iteration_gate:
  assumes "run_iteration n v e = Go e'" "unpaused (irqs v (dev_gate e))"
  shows "unpaused (dev_gate e')"
  using assms
  by (auto simp: run_iteration_def Let_def dest!: serve_gate cpu_read_gate
      split: if_splits syscall.splits prod.splits)

lemma run_matches:
  assumes "ready old e M" "undisturbed envs" "unpaused (dev_gate e)"
    and "machine_run n (\<lambda>k. pin (envs k)) fuel k M = Some (r, M')"
  shows "\<exists>e'. run_loop envs (int n) k e = Some (r, e') \<and> emu_memory e' = ram M' \<and>
    buffer_ok (dev_trace e') \<and> contents (dev_trace e') = old @ log M'"
  using assms(1,3,4)
proof (induction fuel arbitrary: k e M)
  case 0
  then show ?case by simp
next
  case (Suc fuel)
  have m: "matches old (run_iteration (int n) (envs k) e) (machine_step n (pin (envs k)) M)"
    using Suc.prems(1,2) assms(2) by (intro iteration_matches undisturbed_lets_run)
  show ?case
  proof (cases "machine_step n (pin (envs k)) M")
    case (Ends r1 M1)
    with m Suc.prems(3) show ?thesis
      by (auto simp: matches_def run_loop.simps [of envs "int n" k e])
  next
    case (Runs M1)
    with m obtain e1 where e1: "run_iteration (int n) (envs k) e = Go e1" "ready old e1 M1"
      by (auto simp: matches_def)
    have "unpaused (dev_gate e1)"
      using iteration_gate [OF e1(1)] Suc.prems(2) assms(2) by (simp add: undisturbed_def)
    with Suc.IH [of e1 M1 "k + 1"] e1 Suc.prems(3) Runs show ?thesis
      by (simp add: run_loop.simps [of envs "int n" k e])
  qed
qed

text \<open>The machine at the start of a run: registers zero, flags clear, the first fetch logged.\<close>

definition reset_machine :: "memory \<Rightarrow> machine" where
  "reset_machine m = \<lparr>cpu = abs_cpu zero_cpu, ram = m, log = [\<lparr>acc_addr = 0, acc_type = 0\<rparr>]\<rparr>"

lemma run_init_ready:
  assumes "buffer_ok tb" "km \<noteq> None"
  shows "\<exists>e. run_init m g zero_context b km tb = Some e \<and> ready (contents tb) e (reset_machine m)"
proof -
  obtain tb' st where w: "trace_write sizeof_mem_access (Some \<lparr>acc_addr = 0, acc_type = 0\<rparr>) km tb = (tb', st)"
    by fastforce
  from trace_write_cases [OF assms(1) w] assms(2)
  have "buffer_ok tb'" "contents tb' = contents tb @ [\<lparr>acc_addr = 0, acc_type = 0\<rparr>]" by auto
  moreover have "fetch_next m 0 \<noteq> None" by (simp add: fetch_next_spec)
  moreover have "ip (abs_cpu zero_cpu) = 0" by (simp add: abs_cpu_def zero_cpu_def)
  ultimately show ?thesis
    using w by (auto simp: run_init_def ready_def simulates_def reset_machine_def zero_context_def
        cpu_ok_zero)
qed


subsection \<open>Programs without jumps\<close>

text \<open>
  The first \<open>n\<close> instructions of the memory contain no jump and no store into the program, and the
  last one is the halt the assembler appends.
\<close>

definition goes_straight :: "nat \<Rightarrow> isa option \<Rightarrow> bool" where
  "goes_straight n op =
     (case op of
        Some (Jump c t) \<Rightarrow> False
      | Some (Store k a) \<Rightarrow> n * INSTR_SIZE \<le> unat a
      | _ \<Rightarrow> True)"

definition straight_line :: "memory \<Rightarrow> nat \<Rightarrow> bool" where
  "straight_line m n \<longleftrightarrow> 0 < n \<and> n * INSTR_SIZE \<le> MEM_SIZE \<and>
     (\<forall>i<n. \<exists>w. fetch_next m (of_nat (i * INSTR_SIZE)) = Some w \<and> goes_straight n (decode w) \<and>
        (i = n - 1 \<longrightarrow> decode w = Some Halt))"

lemma exec_straight:
  assumes "isa_exec input op s = (s', ev)" "goes_straight n op"
  shows "ev = Rejected \<or> ev = Halted \<or> ip s' = ip s + 11"
    "ev = Want_write k a \<Longrightarrow> n * INSTR_SIZE \<le> unat a"
    "op = Some Halt \<Longrightarrow> ev = Halted"
  using assms
  by (auto simp: isa_exec_def goes_straight_def next_ip_def set_reg_def Let_def
      split: option.splits isa.splits if_splits)

lemma finish_event_Runs:
  assumes "finish_event ev M = Runs M'"
  shows "ev \<noteq> Rejected" "ev \<noteq> Halted" "ip (cpu M') = ip (cpu M)"
    "ram M' = ram M \<or> (\<exists>k a v. ev = Want_write k a \<and> write_to_memory (ram M) a v = Some (ram M'))"
  using assms
  by (cases ev; auto simp: finish_event_def next_fetch_def log_access_def set_reg_def
      split: option.splits)+

lemma straight_step:
  assumes sl: "straight_line m n" and k: "k < n" and ip: "ip (cpu M) = of_nat (k * INSTR_SIZE)"
    and code: "\<forall>j<n * INSTR_SIZE. ram M j = m j" and run: "machine_step n input M = Runs M'"
  shows "Suc k < n \<and> ip (cpu M') = of_nat (Suc k * INSTR_SIZE) \<and> (\<forall>j<n * INSTR_SIZE. ram M' j = m j)"
proof -
  obtain w where w: "fetch_next m (of_nat (k * INSTR_SIZE)) = Some w" "goes_straight n (decode w)"
    "k = n - 1 \<longrightarrow> decode w = Some Halt"
    using sl k by (auto simp: straight_line_def)
  have le: "k * INSTR_SIZE + INSTR_SIZE \<le> n * INSTR_SIZE"
  proof -
    have "Suc k * INSTR_SIZE \<le> n * INSTR_SIZE" using k by (intro mult_le_mono1) simp
    then show ?thesis by simp
  qed
  have u: "unat (of_nat (k * INSTR_SIZE) :: u64) = k * INSTR_SIZE"
    using sl le by (subst unat_of_nat) (simp add: straight_line_def take_bit_nat_eq_self_iff del: of_nat_mult)
  have "fetch_next (ram M) (ip (cpu M)) = fetch_next m (ip (cpu M))"
    by (rule fetch_cong) (use code le u ip in \<open>simp del: of_nat_mult\<close>)
  then have f: "fetch_next (ram M) (ip (cpu M)) = Some w" using w(1) ip by simp
  obtain s' ev where x: "isa_exec input (decode w) (cpu M) = (s', ev)" by fastforce
  have run': "finish_event ev (M\<lparr>cpu := s'\<rparr>) = Runs M'"
    using run f x by (auto simp: machine_step_def Let_def split: if_splits)
  note fin = finish_event_Runs [OF run']
  have "ip s' = ip (cpu M) + 11" using exec_straight(1) [OF x w(2)] fin by auto
  then have ip': "ip (cpu M') = of_nat (Suc k * INSTR_SIZE)" using fin(3) ip by simp
  have "k \<noteq> n - 1" using exec_straight(3) [OF x w(2)] w(3) fin(2) by auto
  then have "Suc k < n" using k by simp
  moreover have "\<forall>j<n * INSTR_SIZE. ram M' j = m j"
  proof (cases "ram M' = ram M")
    case True
    with code show ?thesis by simp
  next
    case False
    with fin(4) obtain q a v where a: "ev = Want_write q a" "write_to_memory (ram M) a v = Some (ram M')"
      by auto
    then have "n * INSTR_SIZE \<le> unat a" using exec_straight(2) [OF x w(2)] by simp
    moreover have "ram M' = put_bytes (unat a) (le_byte v) 8 (ram M)"
      using a(2) by (simp add: write_to_memory_spec split: if_splits)
    ultimately show ?thesis using code by (simp add: put_bytes_def)
  qed
  ultimately show ?thesis using ip' by simp
qed

lemma straight_run:
  assumes "straight_line m n" "k < n" "ip (cpu M) = of_nat (k * INSTR_SIZE)"
    "\<forall>j<n * INSTR_SIZE. ram M j = m j"
  shows "\<exists>r M'. machine_run n input (n - k) k M = Some (r, M')"
  using assms
proof (induction "n - k" arbitrary: k M)
  case 0
  then show ?case by simp
next
  case (Suc d)
  then have d: "n - k = Suc (n - Suc k)" by simp
  show ?case
  proof (cases "machine_step n (input k) M")
    case (Ends r M1)
    then show ?thesis by (simp add: d)
  next
    case (Runs M1)
    from straight_step [OF Suc.prems this]
    have "\<exists>r M'. machine_run n input (n - Suc k) (Suc k) M1 = Some (r, M')"
      using Suc.hyps(2) Suc.prems(1) by (intro Suc.hyps(1)) simp_all
    with Runs show ?thesis by (simp add: d)
  qed
qed

text \<open>An undisturbed run from opening the device.\<close>

lemma run_from_reset:
  assumes "run_val > 0" "undisturbed envs" "buffer_ok tb" "km \<noteq> None"
    and "machine_run n (\<lambda>k. pin (envs k)) fuel 0 (reset_machine m) = Some (r, M')"
  shows "\<exists>e'. run envs (run_val, 0, True) True km (int n) m g b tb = Some (r, Some e') \<and>
    emu_memory e' = ram M' \<and> contents (dev_trace e') = contents tb @ log M'"
proof -
  let ?g = "g\<lparr>cpu_running := run_val, cpu_paused := 0\<rparr>"
  have o: "cpu_open run_val 0 True g = (?g, Some zero_context, 0)"
    using assms(1) by (simp add: cpu_open_def)
  obtain e where e: "run_init m ?g zero_context b km tb = Some e" "ready (contents tb) e (reset_machine m)"
    using run_init_ready [OF assms(3,4)] by blast
  have "dev_gate e = ?g" using e(1) by (auto simp: run_init_def split: option.splits)
  then have "unpaused (dev_gate e)" using assms(1) by (simp add: unpaused_def)
  from run_matches [OF e(2) assms(2) this assms(5)] o e(1) show ?thesis by (auto simp: run_def)
qed

abbreviation quiet_env :: env where
  "quiet_env \<equiv> \<lparr>irqs = \<lambda>g. g, got_signal = False, pin = 0,
     kmalloc_data = Some (\<lambda>_. \<lparr>acc_addr = 0, acc_type = 0\<rparr>),
     kmalloc_fetch = Some (\<lambda>_. \<lparr>acc_addr = 0, acc_type = 0\<rparr>)\<rparr>"

abbreviation two_line_program :: "instruction list" where
  "two_line_program \<equiv> [ins MOV_OP IMMEDIATE 1 5, ins MOV_OP DIRECT_STORE 0 0xFFFF]"

lemma two_line_memory:
  "\<exists>m. fetch_next m 0 = Some (ins MOV_OP IMMEDIATE 1 5) \<and>
     fetch_next m 11 = Some (ins MOV_OP DIRECT_STORE 0 0xFFFF)"
proof -
  obtain m where s: "store_machine_code (\<lambda>_. 0) MEM_SIZE two_line_program 2 = Some m"
    using store_program [of 2 two_line_program "\<lambda>_. 0"] by (simp add: store_machine_code_def)
  from fetch_stored [OF _ _ s, of 0] fetch_stored [OF _ _ s, of 1] show ?thesis by auto
qed

lemma two_line_decode:
  "decode (ins MOV_OP IMMEDIATE 1 5) = Some (Move R1 (Imm 5))"
  "decode (ins MOV_OP DIRECT_STORE 0 0xFFFF) = Some Halt"
  by (simp_all add: decode_def decode_mov_def two_operands_def reg_of_def src_of_def)

lemma quiet_undisturbed: "undisturbed (\<lambda>_. quiet_env)"
  by (simp add: undisturbed_def)

subsection \<open>Properties\<close>

text \<open>
  C3.  A run of the emulator over both devices, from opening the CPU device, is a run of the machine
  from reset: if the machine ends after some number of steps the emulator ends the same way, with the
  same memory, and the collector holds what it held before followed by the machine's log of accesses.
\<close>

theorem emulator_run:
  assumes "run_val > 0" and "undisturbed envs" and "buffer_ok tb" and "km \<noteq> None"
    and "machine_run n (\<lambda>k. pin (envs k)) fuel 0 (reset_machine m) = Some (r, M')"
  shows "\<exists>e'. run envs (run_val, 0, True) True km (int n) m g b tb = Some (r, Some e') \<and>
    emu_memory e' = ram M' \<and> contents (dev_trace e') = contents tb @ log M'"
  by (rule run_from_reset [OF assms])

theorem emulator_run_witness:
  "\<exists>m e'. run (\<lambda>_. quiet_env) (1, 0, True) True (Some (\<lambda>_. \<lparr>acc_addr = 0, acc_type = 0\<rparr>)) 2 m gate_init
       dark_board trace_buffer_init = Some (Finished 0, Some e') \<and>
     contents (dev_trace e') = [\<lparr>acc_addr = 0, acc_type = 0\<rparr>, \<lparr>acc_addr = 11, acc_type = 0\<rparr>]"
proof -
  obtain m where m: "fetch_next m 0 = Some (ins MOV_OP IMMEDIATE 1 5)"
    "fetch_next m 11 = Some (ins MOV_OP DIRECT_STORE 0 0xFFFF)" using two_line_memory by blast
  have "\<exists>M'. machine_run 2 (\<lambda>k. pin quiet_env) (Suc (Suc 0)) 0 (reset_machine m) = Some (Finished 0, M') \<and>
      log M' = [\<lparr>acc_addr = 0, acc_type = 0\<rparr>, \<lparr>acc_addr = 11, acc_type = 0\<rparr>]"
    by (simp add: machine_step_def reset_machine_def m two_line_decode isa_exec_def abs_cpu_def
        zero_cpu_def faults_def finish_event_def next_fetch_def log_access_def next_ip_def set_reg_def)
  then obtain M' where r: "machine_run 2 (\<lambda>k. pin quiet_env) (Suc (Suc 0)) 0 (reset_machine m) =
      Some (Finished 0, M')" "log M' = [\<lparr>acc_addr = 0, acc_type = 0\<rparr>, \<lparr>acc_addr = 11, acc_type = 0\<rparr>]"
    by blast
  from emulator_run [OF _ quiet_undisturbed buffer_ok_init(1) _ r(1), of 1
      "Some (\<lambda>_. \<lparr>acc_addr = 0, acc_type = 0\<rparr>)" gate_init dark_board] r(2)
  show ?thesis by (auto simp: buffer_ok_init)
qed

text \<open>
  A loaded program without jumps that does not overwrite itself ends: undisturbed, the run
  returns after at most as many iterations as it has instructions, whatever its operands are.
\<close>

lemma straight_line_ends:
  assumes "straight_line m n" and "run_val > 0" and "undisturbed envs" and "buffer_ok tb" and "km \<noteq> None"
  shows "\<exists>r e'. run envs (run_val, 0, True) True km (int n) m g b tb = Some (r, Some e')"
proof -
  have "ip (cpu (reset_machine m)) = of_nat (0 * INSTR_SIZE)" "\<forall>j<n * INSTR_SIZE. ram (reset_machine m) j = m j"
    by (simp_all add: reset_machine_def abs_cpu_def zero_cpu_def)
  with straight_run [OF assms(1), of 0 "reset_machine m" "\<lambda>k. pin (envs k)"] assms(1)
  obtain r M' where mr: "machine_run n (\<lambda>k. pin (envs k)) n 0 (reset_machine m) = Some (r, M')"
    by (auto simp: straight_line_def)
  from run_from_reset [OF assms(2-5) mr] show ?thesis by blast
qed

end
