(* ===== verification/Cache_Config.thy ===== *)
theory Cache_Config
  imports Uapi
begin

text \<open>
  The cache simulator's configuration and geometry (\<open>userspace/src/cache_simulator.c\<close>,
  \<open>userspace/inc/cache_simulator.h\<close>): the file's static variables, the validity checks of the
  dialogue, the two bit helpers and \<open>cache_init\<close>.  The answers the user types are the list of
  what successive \<open>scanf\<close> calls convert.  Allocations that the code does not check succeed.
\<close>

subsection \<open>Data\<close>

datatype replacement_policy = ALG_LRU | ALG_OPTIMAL

record cache_line =
  tag :: u64
  valid :: bool
  last_used :: u32

record cache_set =
  lines :: "cache_line list"

record cache_level =
  cl_size :: u32
  associativity :: u32
  cl_line_size :: u32
  num_sets :: u32
  sets :: "cache_set list"
  hits :: u64
  misses :: u64

text \<open>The static variables; \<open>assoc\<close> and \<open>lvl_size\<close> have three elements.\<close>

record sim_globals =
  global_timer :: u32
  num_lvls :: u32
  line_size :: u32
  assoc :: "u32 list"
  lvl_size :: "u32 list"
  policy :: replacement_policy

definition initial_globals :: sim_globals where
  "initial_globals = \<lparr>global_timer = 0, num_lvls = 0, line_size = 0, assoc = [0, 0, 0],
     lvl_size = [0, 0, 0], policy = ALG_LRU\<rparr>"

subsection \<open>Bit helpers\<close>

function log2_loop :: "u32 \<Rightarrow> u32 \<Rightarrow> u32" where
  "log2_loop n log = (let n' = drop_bit 1 n in if n' \<noteq> 0 then log2_loop n' (log + 1) else log)"
  by pat_completeness auto
termination
proof (relation "measure (\<lambda>(n, log). unat n)", simp)
  fix n log n' :: u32
  assume n': "n' = drop_bit 1 n" "n' \<noteq> 0"
  then have "unat n' = unat n div 2" by (simp add: drop_bit_Suc unat_div)
  moreover have "unat n' \<noteq> 0" using n'(2) by (simp add: unat_eq_0)
  ultimately show "((n', log + 1), n, log) \<in> measure (\<lambda>(n, log). unat n)" by simp
qed

declare log2_loop.simps [simp del]

definition fast_log2 :: "u32 \<Rightarrow> u32" where
  "fast_log2 n = log2_loop n 0"

definition is_power_of_two :: "u32 \<Rightarrow> bool" where
  "is_power_of_two x \<longleftrightarrow> x \<noteq> 0 \<and> x AND (x - 1) = 0"

subsection \<open>The dialogue\<close>

definition is_valid_num_lvls :: "u32 \<Rightarrow> u8 \<Rightarrow> bool" where
  "is_valid_num_lvls n ignore \<longleftrightarrow> n \<ge> 1 \<and> n \<le> 3"

definition is_valid_line_size :: "u32 \<Rightarrow> u8 \<Rightarrow> bool" where
  "is_valid_line_size n ignore \<longleftrightarrow> n = 16 \<or> n = 32 \<or> n = 64"

definition is_valid_assoc :: "u32 \<Rightarrow> u8 \<Rightarrow> bool" where
  "is_valid_assoc n ignore \<longleftrightarrow> is_power_of_two n \<and> n \<le> 8"

text \<open>
  For a level other than 1 to 3 the local \<open>lvl_max_size\<close> stays uninitialised; \<open>junk\<close> is its value
  then.  The dialogue never asks for such a level.
\<close>

definition is_valid_lvl_size :: "u32 \<Rightarrow> sim_globals \<Rightarrow> u32 \<Rightarrow> u8 \<Rightarrow> bool" where
  "is_valid_lvl_size junk g n lvl \<longleftrightarrow>
    (let lvl_max_size = (if lvl = 1 then 2048 else if lvl = 2 then 4096
                         else if lvl = 3 then 8192 else junk)
     in is_power_of_two n \<and> n \<ge> assoc g ! unat (lvl - 1) * line_size g \<and> n \<le> lvl_max_size)"

definition is_valid_algorithm_num :: "u32 \<Rightarrow> u8 \<Rightarrow> bool" where
  "is_valid_algorithm_num n ignore \<longleftrightarrow> n = 1 \<or> n = 2"

text \<open>
  The prompt loop: an answer \<open>None\<close> is a line \<open>scanf\<close> cannot convert; the target keeps the last
  converted value until one is valid.  At the end of the input the loop spins forever, which is
  the result \<open>None\<close>.
\<close>

fun get_valid_input :: "(u32 \<Rightarrow> u8 \<Rightarrow> bool) \<Rightarrow> u8 \<Rightarrow> u32 option list \<Rightarrow> (u32 \<times> u32 option list) option" where
  "get_valid_input is_valid lvl [] = None"
| "get_valid_input is_valid lvl (None # input) = get_valid_input is_valid lvl input"
| "get_valid_input is_valid lvl (Some n # input) =
    (if \<not> is_valid n lvl then get_valid_input is_valid lvl input else Some (n, input))"

text \<open>One call of \<open>get_valid_input\<close>: \<open>set_target\<close> stores the accepted answer.\<close>

definition ask ::
    "(sim_globals \<Rightarrow> u32 \<Rightarrow> u8 \<Rightarrow> bool) \<Rightarrow> u8 \<Rightarrow> (u32 \<Rightarrow> sim_globals \<Rightarrow> sim_globals) \<Rightarrow>
      (sim_globals \<times> u32 option list) option \<Rightarrow> (sim_globals \<times> u32 option list) option" where
  "ask is_valid lvl set_target st =
    (case st of
       None \<Rightarrow> None
     | Some (g, input) \<Rightarrow>
         (case get_valid_input (is_valid g) lvl input of
            None \<Rightarrow> None
          | Some (n, rest) \<Rightarrow> Some (set_target n g, rest)))"

definition ask_if ::
    "(sim_globals \<Rightarrow> bool) \<Rightarrow> (sim_globals \<Rightarrow> u32 \<Rightarrow> u8 \<Rightarrow> bool) \<Rightarrow> u8 \<Rightarrow>
      (u32 \<Rightarrow> sim_globals \<Rightarrow> sim_globals) \<Rightarrow>
      (sim_globals \<times> u32 option list) option \<Rightarrow> (sim_globals \<times> u32 option list) option" where
  "ask_if cond is_valid lvl set_target st =
    (case st of
       None \<Rightarrow> None
     | Some (g, input) \<Rightarrow> if cond g then ask is_valid lvl set_target st else st)"

abbreviation (input) set_assoc :: "nat \<Rightarrow> u32 \<Rightarrow> sim_globals \<Rightarrow> sim_globals" where
  "set_assoc i n g \<equiv> g\<lparr>assoc := (assoc g)[i := n]\<rparr>"

abbreviation (input) set_lvl_size :: "nat \<Rightarrow> u32 \<Rightarrow> sim_globals \<Rightarrow> sim_globals" where
  "set_lvl_size i n g \<equiv> g\<lparr>lvl_size := (lvl_size g)[i := n]\<rparr>"

definition configure_cache_sim_parameters ::
    "u32 \<Rightarrow> sim_globals \<Rightarrow> u32 option list \<Rightarrow> (sim_globals \<times> u32 option list) option" where
  "configure_cache_sim_parameters junk g input =
    (let s1 = ask (\<lambda>_. is_valid_num_lvls) 0 (\<lambda>n g. g\<lparr>num_lvls := n\<rparr>) (Some (g, input));
         s2 = ask (\<lambda>_. is_valid_line_size) 0 (\<lambda>n g. g\<lparr>line_size := n\<rparr>) s1;
         s3 = ask (\<lambda>_. is_valid_assoc) 1 (set_assoc 0) s2;
         s4 = ask_if (\<lambda>g. num_lvls g > 1) (\<lambda>_. is_valid_assoc) 2 (set_assoc 1) s3;
         s5 = ask_if (\<lambda>g. num_lvls g > 2) (\<lambda>_. is_valid_assoc) 3 (set_assoc 2) s4;
         s6 = ask (is_valid_lvl_size junk) 1 (set_lvl_size 0) s5;
         s7 = ask_if (\<lambda>g. num_lvls g > 1) (is_valid_lvl_size junk) 2 (set_lvl_size 1) s6;
         s8 = ask_if (\<lambda>g. num_lvls g > 2) (is_valid_lvl_size junk) 3 (set_lvl_size 2) s7
     in ask (\<lambda>_. is_valid_algorithm_num) 0
          (\<lambda>n g. if n = 1 then g\<lparr>policy := ALG_OPTIMAL\<rparr>
                 else if n = 2 then g\<lparr>policy := ALG_LRU\<rparr> else g) s8)"

subsection \<open>Building a level\<close>

definition empty_line :: cache_line where
  "empty_line = \<lparr>tag = 0, valid = False, last_used = 0\<rparr>"

text \<open>\<open>c\<close> is the caller's uninitialised structure; on the error path its sets stay as they are.\<close>

definition cache_init :: "sim_globals \<Rightarrow> u8 \<Rightarrow> cache_level \<Rightarrow> cache_level \<times> status" where
  "cache_init g lvl c =
    (let a = assoc g ! unat (lvl - 1);
         c1 = c\<lparr>cl_size := lvl_size g ! unat (lvl - 1),
                associativity := a,
                cl_line_size := line_size g,
                num_sets := lvl_size g ! unat (lvl - 1) div (line_size g * a),
                hits := 0, misses := 0\<rparr>
     in if \<not> is_power_of_two (num_sets c1) then (c1, - 1)
        else (c1\<lparr>sets := replicate (unat (num_sets c1)) \<lparr>lines = replicate (unat a) empty_line\<rparr>\<rparr>, 0))"


subsection \<open>The bit helpers are what their names say\<close>

lemma log2_loop_spec:
  assumes "n \<noteq> 0"
  shows "\<exists>k. log2_loop n log = log + of_nat k \<and> 2 ^ k \<le> unat n \<and> unat n < 2 ^ Suc k"
  using assms
proof (induction n log rule: log2_loop.induct)
  case (1 n log)
  let ?m = "drop_bit 1 n"
  have m: "unat ?m = unat n div 2" by (simp add: drop_bit_Suc unat_div)
  show ?case
  proof (cases "?m = 0")
    case True
    with m have "unat n div 2 = 0" by simp
    moreover have "unat n \<noteq> 0" using 1(2) by (simp add: unat_eq_0)
    ultimately have "unat n = 1" by simp
    with True show ?thesis by (intro exI [of _ 0]) (simp add: log2_loop.simps [of n])
  next
    case False
    with 1(1) [OF refl] obtain k where
      k: "log2_loop ?m (log + 1) = log + 1 + of_nat k" "2 ^ k \<le> unat ?m" "unat ?m < 2 ^ Suc k"
      by auto
    then have "2 ^ Suc k \<le> unat n" "unat n < 2 ^ Suc (Suc k)" unfolding m by auto
    with k False show ?thesis by (intro exI [of _ "Suc k"]) (simp add: log2_loop.simps [of n])
  qed
qed

lemma fast_log2_spec:
  assumes "n \<noteq> 0"
  shows "2 ^ unat (fast_log2 n) \<le> unat n" "unat n < 2 ^ Suc (unat (fast_log2 n))"
    "unat (fast_log2 n) < 32"
proof -
  obtain k where k: "fast_log2 n = of_nat k" "2 ^ k \<le> unat n" "unat n < 2 ^ Suc k"
    using log2_loop_spec [OF assms, of 0] by (auto simp: fast_log2_def)
  have "(2::nat) ^ k < 2 ^ 32" using k(2) unsigned_less [of n, where ?'a = nat] by simp
  then have "k < 32" by (rule power_less_imp_less_exp [rotated]) simp
  then have "unat (fast_log2 n) = k" by (simp add: k(1) unat_of_nat take_bit_nat_eq_self_iff)
  with k \<open>k < 32\<close> show "2 ^ unat (fast_log2 n) \<le> unat n" "unat n < 2 ^ Suc (unat (fast_log2 n))"
    "unat (fast_log2 n) < 32" by simp_all
qed

lemma unat_two_power: "k < 32 \<Longrightarrow> unat (2 ^ k :: u32) = 2 ^ k"
proof -
  assume k: "k < 32"
  then have "(2::nat) ^ k < 2 ^ 32" by (intro power_strict_increasing) simp_all
  then have "unat (of_nat (2 ^ k) :: u32) = 2 ^ k" by (simp add: unat_of_nat take_bit_nat_eq_self_iff del: of_nat_power)
  then show ?thesis by simp
qed

lemma two_power_nonzero: "k < 32 \<Longrightarrow> (2 ^ k :: u32) \<noteq> 0"
  using unat_two_power [of k] by (metis power_not_zero unsigned_0 zero_neq_numeral)

lemma fast_log2_power: "k < 32 \<Longrightarrow> fast_log2 (2 ^ k) = of_nat k"
proof -
  assume k: "k < 32"
  let ?l = "unat (fast_log2 (2 ^ k))"
  from fast_log2_spec [OF two_power_nonzero [OF k]] k
  have "(2::nat) ^ ?l \<le> 2 ^ k" "(2::nat) ^ k < 2 ^ Suc ?l" by (simp_all add: unat_two_power)
  then have "?l \<le> k" "k < Suc ?l"
    using power_le_imp_le_exp [of 2 ?l k] power_less_imp_less_exp [of 2 k "Suc ?l"] by simp_all
  then have "?l = k" by simp
  then show ?thesis using k by (simp add: word_unat_eq_iff unat_of_nat take_bit_nat_eq_self_iff)
qed

lemma power_of_two_iff: "is_power_of_two x \<longleftrightarrow> (\<exists>k<32. x = 2 ^ k)"
proof
  assume "\<exists>k<32. x = 2 ^ k"
  then obtain k where k: "k < 32" "x = 2 ^ k" by blast
  have "x AND (x - 1) = take_bit k (2 ^ k)"
    by (simp add: k take_bit_eq_mask mask_eq_decr_exp)
  with k show "is_power_of_two x"
    by (simp add: is_power_of_two_def two_power_nonzero take_bit_eq_0_iff)
next
  assume x: "is_power_of_two x"
  then have nz: "x \<noteq> 0" and and0: "x AND (x - 1) = 0" by (auto simp: is_power_of_two_def)
  define k where "k = unat (fast_log2 x)"
  have k: "2 ^ k \<le> unat x" "unat x < 2 ^ Suc k" "k < 32"
    using fast_log2_spec [OF nz] by (simp_all add: k_def)
  have bit_k: "bit y k" if "2 ^ k \<le> unat y" "unat y < 2 ^ Suc k" for y :: u32
  proof -
    have "unat y div 2 ^ k = 1" using that by (intro div_nat_eqI) simp_all
    then show ?thesis by (metis bit_iff_odd bit_unsigned_iff odd_one)
  qed
  have "unat x = 2 ^ k"
  proof (rule ccontr)
    assume "unat x \<noteq> 2 ^ k"
    with k have "2 ^ k < unat x" by simp
    moreover have "unat (x - 1) = unat x - 1" using nz by (simp add: unat_minus_one)
    ultimately have "bit x k" "bit (x - 1) k" using k bit_k by simp_all
    then have "bit (x AND (x - 1)) k" by (simp add: bit_and_iff)
    with and0 show False by simp
  qed
  then have "x = 2 ^ k" using unat_two_power [OF k(3)] by (simp add: word_unat_eq_iff)
  with k(3) show "\<exists>k<32. x = 2 ^ k" by blast
qed

subsection \<open>Valid configurations\<close>

text \<open>What the dialogue guarantees.\<close>

definition level_config_ok :: "sim_globals \<Rightarrow> nat \<Rightarrow> bool" where
  "level_config_ok g i \<longleftrightarrow>
     is_valid_assoc (assoc g ! i) (of_nat i + 1) \<and>
     is_power_of_two (lvl_size g ! i) \<and>
     unat (assoc g ! i) * unat (line_size g) \<le> unat (lvl_size g ! i) \<and>
     unat (lvl_size g ! i) \<le> 2048 * 2 ^ i"

definition config_ok :: "sim_globals \<Rightarrow> bool" where
  "config_ok g \<longleftrightarrow>
     is_valid_num_lvls (num_lvls g) 0 \<and> is_valid_line_size (line_size g) 0 \<and>
     length (assoc g) = 3 \<and> length (lvl_size g) = 3 \<and>
     (\<forall>i<unat (num_lvls g). level_config_ok g i)"

text \<open>A built level: powers of two throughout, and the storage its dimensions announce.\<close>

definition geometry_ok :: "cache_level \<Rightarrow> bool" where
  "geometry_ok c \<longleftrightarrow>
     is_power_of_two (num_sets c) \<and> is_power_of_two (cl_line_size c) \<and>
     unat (num_sets c) * unat (cl_line_size c) < 2 ^ 32 \<and> 0 < associativity c \<and>
     length (sets c) = unat (num_sets c) \<and>
     (\<forall>s\<in>set (sets c). length (lines s) = unat (associativity c))"

lemma valid_assoc_cases: "is_valid_assoc a x \<Longrightarrow> a = 1 \<or> a = 2 \<or> a = 4 \<or> a = 8"
proof -
  assume a: "is_valid_assoc a x"
  then obtain k where k: "k < 32" "a = 2 ^ k" "unat a \<le> 8"
    by (auto simp: is_valid_assoc_def power_of_two_iff word_le_nat_alt)
  then have "(2::nat) ^ k \<le> 2 ^ 3" by (simp add: unat_two_power)
  then have "k \<le> 3" by (rule power_le_imp_le_exp [rotated]) simp
  then have "k = 0 \<or> k = 1 \<or> k = 2 \<or> k = 3" by arith
  with k(2) show ?thesis by auto
qed

lemma assoc_times_line:
  assumes "is_valid_assoc a x" "is_valid_line_size l y"
  shows "\<exists>j<10. a * l = 2 ^ j" "unat (a * l) = unat a * unat l"
  using valid_assoc_cases [OF assms(1)] assms(2)
  by (auto simp: is_valid_line_size_def intro: exI [of _ 4] exI [of _ 5] exI [of _ 6] exI [of _ 7]
      exI [of _ 8] exI [of _ 9])


lemma get_valid_input_valid:
  "get_valid_input is_valid lvl input = Some (n, rest) \<Longrightarrow> is_valid n lvl"
  by (induction is_valid lvl input rule: get_valid_input.induct) (auto split: if_splits)

text \<open>What holds of the variables if the dialogue has got as far as \<open>st\<close>.\<close>

definition after :: "(sim_globals \<times> u32 option list) option \<Rightarrow> (sim_globals \<Rightarrow> bool) \<Rightarrow> bool" where
  "after st P \<longleftrightarrow> (\<forall>g input. st = Some (g, input) \<longrightarrow> P g)"

lemma after_ask:
  assumes "after st P" "\<And>g n. P g \<Longrightarrow> is_valid g n lvl \<Longrightarrow> Q (set_target n g)"
  shows "after (ask is_valid lvl set_target st) Q"
  using assms get_valid_input_valid
  by (fastforce simp: after_def ask_def split: option.splits prod.splits)

lemma after_ask_if:
  assumes "after st P" "\<And>g n. P g \<Longrightarrow> cond g \<Longrightarrow> is_valid g n lvl \<Longrightarrow> Q (set_target n g)"
    "\<And>g. P g \<Longrightarrow> \<not> cond g \<Longrightarrow> Q g"
  shows "after (ask_if cond is_valid lvl set_target st) Q"
proof (cases "\<exists>g input. st = Some (g, input) \<and> cond g")
  case True
  then obtain g input where st: "st = Some (g, input)" "cond g" by blast
  have "after (ask is_valid lvl set_target st) Q"
    by (rule after_ask [where P = "\<lambda>g. P g \<and> cond g"]) (use assms st in \<open>auto simp: after_def\<close>)
  with st show ?thesis by (simp add: ask_if_def)
next
  case False
  with assms(1,3) show ?thesis by (auto simp: after_def ask_if_def split: option.splits)
qed

text \<open>The first \<open>k\<close> associativities and the first \<open>m\<close> sizes have been asked for.\<close>

definition asked :: "nat \<Rightarrow> nat \<Rightarrow> sim_globals \<Rightarrow> bool" where
  "asked k m g \<longleftrightarrow>
     is_valid_num_lvls (num_lvls g) 0 \<and> is_valid_line_size (line_size g) 0 \<and>
     length (assoc g) = 3 \<and> length (lvl_size g) = 3 \<and> global_timer g = 0 \<and>
     (\<forall>i<unat (num_lvls g). i < k \<longrightarrow> is_valid_assoc (assoc g ! i) 0) \<and>
     (\<forall>i<unat (num_lvls g). i < m \<longrightarrow> level_config_ok g i)"

lemma asked_assoc: "asked k 0 g \<Longrightarrow> k < 3 \<Longrightarrow> is_valid_assoc n x \<Longrightarrow> asked (Suc k) 0 (set_assoc k n g)"
  by (auto simp: asked_def less_Suc_eq nth_list_update is_valid_assoc_def)

lemma asked_assoc_skip: "asked k 0 g \<Longrightarrow> unat (num_lvls g) \<le> k \<Longrightarrow> asked (Suc k) 0 g"
  by (auto simp: asked_def)

lemma lvl_size_valid:
  assumes "is_valid_lvl_size junk g n lvl" "lvl = of_nat i + 1" "i < 3"
    "is_valid_assoc (assoc g ! i) x" "is_valid_line_size (line_size g) y"
  shows "is_power_of_two n \<and> unat (assoc g ! i) * unat (line_size g) \<le> unat n \<and> unat n \<le> 2048 * 2 ^ i"
proof -
  have "i = 0 \<or> i = 1 \<or> i = 2" using assms(3) by arith
  then show ?thesis
    using assms assoc_times_line(2) [OF assms(4,5)]
    by (auto simp: is_valid_lvl_size_def word_le_nat_alt)
qed

lemma asked_size:
  assumes "asked 3 m g" "m < unat (num_lvls g)" "is_valid_lvl_size junk g n lvl" "lvl = of_nat m + 1"
  shows "asked 3 (Suc m) (set_lvl_size m n g)"
proof -
  have nl: "unat (num_lvls g) \<le> 3"
    using assms(1) by (auto simp: asked_def is_valid_num_lvls_def word_le_nat_alt)
  have a: "is_valid_assoc (assoc g ! m) 0" "is_valid_line_size (line_size g) 0"
    using assms(1,2) nl by (simp_all add: asked_def)
  have keep: "level_config_ok (set_lvl_size m n g) i = level_config_ok g i" if "i \<noteq> m" for i
    using that by (simp add: level_config_ok_def)
  have "level_config_ok (set_lvl_size m n g) m"
    using lvl_size_valid [OF assms(3,4) _ a] nl assms(1,2) a
    by (simp add: level_config_ok_def asked_def is_valid_assoc_def)
  with assms(1) keep show ?thesis
    by (auto simp: asked_def less_Suc_eq)
qed

lemma asked_size_skip: "asked 3 m g \<Longrightarrow> unat (num_lvls g) \<le> m \<Longrightarrow> asked 3 (Suc m) g"
  by (auto simp: asked_def)

lemma asked_config_ok: "asked 3 3 g \<Longrightarrow> config_ok g \<and> global_timer g = 0"
  by (auto simp: asked_def config_ok_def is_valid_num_lvls_def word_le_nat_alt)

lemma configure_asked:
  "after (configure_cache_sim_parameters junk initial_globals input) (asked 3 3)"
proof -
  have lvls: "1 < n \<longleftrightarrow> 1 < unat n" "2 < n \<longleftrightarrow> 2 < unat n" for n :: u32
    by (simp_all add: word_less_nat_alt)
  let ?start = "\<lambda>g. length (assoc g) = 3 \<and> length (lvl_size g) = 3 \<and> global_timer g = 0"
  define s1 where "s1 = ask (\<lambda>_. is_valid_num_lvls) 0 (\<lambda>n g. g\<lparr>num_lvls := n\<rparr>) (Some (initial_globals, input))"
  define s2 where "s2 = ask (\<lambda>_. is_valid_line_size) 0 (\<lambda>n g. g\<lparr>line_size := n\<rparr>) s1"
  define s3 where "s3 = ask (\<lambda>_. is_valid_assoc) 1 (set_assoc 0) s2"
  define s4 where "s4 = ask_if (\<lambda>g. num_lvls g > 1) (\<lambda>_. is_valid_assoc) 2 (set_assoc 1) s3"
  define s5 where "s5 = ask_if (\<lambda>g. num_lvls g > 2) (\<lambda>_. is_valid_assoc) 3 (set_assoc 2) s4"
  define s6 where "s6 = ask (is_valid_lvl_size junk) 1 (set_lvl_size 0) s5"
  define s7 where "s7 = ask_if (\<lambda>g. num_lvls g > 1) (is_valid_lvl_size junk) 2 (set_lvl_size 1) s6"
  define s8 where "s8 = ask_if (\<lambda>g. num_lvls g > 2) (is_valid_lvl_size junk) 3 (set_lvl_size 2) s7"
  have pos: "asked k m g \<Longrightarrow> 0 < unat (num_lvls g)" for k m g
    by (auto simp: asked_def is_valid_num_lvls_def word_le_nat_alt)
  have "after (Some (initial_globals, input)) ?start" by (simp add: after_def initial_globals_def)
  then have "after s1 (\<lambda>g. ?start g \<and> is_valid_num_lvls (num_lvls g) 0)"
    unfolding s1_def by (rule after_ask) simp
  then have "after s2 (asked 0 0)"
    unfolding s2_def by (rule after_ask) (simp add: asked_def)
  then have "after s3 (asked 1 0)"
    unfolding s3_def by (rule after_ask) (use asked_assoc [of 0] in simp)
  then have "after s4 (asked 2 0)"
    unfolding s4_def
    by (rule after_ask_if) (use asked_assoc [of 1] asked_assoc_skip [of 1] lvls in \<open>simp_all add: numeral_2_eq_2\<close>)
  then have "after s5 (asked 3 0)"
    unfolding s5_def
    by (rule after_ask_if) (use asked_assoc [of 2] asked_assoc_skip [of 2] lvls in simp_all)
  then have "after s6 (asked 3 1)"
    unfolding s6_def by (rule after_ask) (use asked_size [of 0] pos in simp)
  then have "after s7 (asked 3 2)"
    unfolding s7_def
    by (rule after_ask_if) (use asked_size [of 1] asked_size_skip [of 1] lvls in \<open>simp_all flip: numeral_2_eq_2\<close>)
  then have "after s8 (asked 3 3)"
    unfolding s8_def
    by (rule after_ask_if) (use asked_size [of 2] asked_size_skip [of 2] lvls in simp_all)
  then have "after (ask (\<lambda>_. is_valid_algorithm_num) 0
      (\<lambda>n g. if n = 1 then g\<lparr>policy := ALG_OPTIMAL\<rparr>
             else if n = 2 then g\<lparr>policy := ALG_LRU\<rparr> else g) s8) (asked 3 3)"
    by (rule after_ask) (simp add: asked_def level_config_ok_def)
  then show ?thesis
    by (simp add: configure_cache_sim_parameters_def Let_def s1_def s2_def s3_def s4_def s5_def
        s6_def s7_def s8_def)
qed


subsection \<open>A valid configuration builds\<close>

lemma two_power_div:
  assumes "b \<le> a" "a < 32" shows "(2 ^ a :: u32) div 2 ^ b = 2 ^ (a - b)"
proof -
  have "unat (2 ^ a div 2 ^ b :: u32) = unat (2 ^ (a - b) :: u32)"
    using assms by (simp add: unat_div unat_two_power power_diff)
  then show ?thesis by (simp add: word_unat_eq_iff)
qed

lemma level_dimensions:
  assumes "config_ok g" "i < unat (num_lvls g)"
  shows "\<exists>j k. assoc g ! i * line_size g = 2 ^ j \<and> lvl_size g ! i = 2 ^ k \<and> j \<le> k \<and> k \<le> 13 \<and>
    lvl_size g ! i div (line_size g * assoc g ! i) = 2 ^ (k - j)"
proof -
  have a: "is_valid_assoc (assoc g ! i) (of_nat i + 1)" "is_valid_line_size (line_size g) 0"
    and lc: "level_config_ok g i" and i3: "i < 3"
    using assms by (auto simp: config_ok_def level_config_ok_def is_valid_num_lvls_def word_le_nat_alt)
  obtain j where j: "j < 10" "assoc g ! i * line_size g = 2 ^ j"
    and m: "unat (assoc g ! i * line_size g) = unat (assoc g ! i) * unat (line_size g)"
    using assoc_times_line [OF a] by auto
  obtain k where k: "k < 32" "lvl_size g ! i = 2 ^ k"
    using lc by (auto simp: level_config_ok_def power_of_two_iff)
  have "(2::nat) ^ i \<le> 2 ^ 2" using i3 by (intro power_increasing) simp_all
  then have "(2::nat) ^ j \<le> 2 ^ k" "(2::nat) ^ k \<le> 2 ^ 13"
    using lc m j k unat_two_power [of j] unat_two_power [of k] by (auto simp: level_config_ok_def)
  then have jk: "j \<le> k" "k \<le> 13"
    using power_le_imp_le_exp [of 2 j k] power_le_imp_le_exp [of 2 k 13] by simp_all
  moreover have "lvl_size g ! i div (line_size g * assoc g ! i) = 2 ^ (k - j)"
    using j k two_power_div [OF jk(1) k(1)] by (simp add: mult.commute)
  ultimately show ?thesis using j k by blast
qed

lemma cache_init_geometry:
  assumes cfg: "config_ok g" and lvl: "1 \<le> unat lvl" "unat lvl \<le> unat (num_lvls g)"
  shows "\<exists>c'. cache_init g lvl c = (c', 0) \<and> geometry_ok c' \<and> hits c' = 0 \<and> misses c' = 0 \<and>
    unat (num_sets c') * (unat (associativity c') * unat (cl_line_size c')) =
      unat (lvl_size g ! (unat lvl - 1)) \<and>
    (\<forall>s\<in>set (sets c'). lines s = replicate (unat (associativity c')) empty_line)"
proof -
  let ?i = "unat lvl - 1"
  have i: "unat (lvl - 1) = ?i"
    using lvl by (simp add: unat_minus_one word_unat_eq_iff)
  have il: "?i < unat (num_lvls g)" using lvl by simp
  obtain j k where d: "assoc g ! ?i * line_size g = 2 ^ j" "lvl_size g ! ?i = 2 ^ k" "j \<le> k" "k \<le> 13"
    "lvl_size g ! ?i div (line_size g * assoc g ! ?i) = 2 ^ (k - j)"
    using level_dimensions [OF cfg il] by blast
  have a: "is_valid_assoc (assoc g ! ?i) (of_nat ?i + 1)" "is_valid_line_size (line_size g) 0"
    using cfg il by (auto simp: config_ok_def level_config_ok_def)
  have p: "is_power_of_two (2 ^ (k - j))" using d by (auto simp: power_of_two_iff intro!: exI [of _ "k - j"])
  have l: "is_power_of_two (line_size g)"
    using a(2) by (auto simp: is_valid_line_size_def is_power_of_two_def)
  have apos: "0 < assoc g ! ?i" using valid_assoc_cases [OF a(1)] by auto
  have size: "unat (2 ^ (k - j) :: u32) * (unat (assoc g ! ?i) * unat (line_size g)) = unat (2 ^ k :: u32)"
  proof -
    have "unat (assoc g ! ?i) * unat (line_size g) = 2 ^ j"
      using d assoc_times_line(2) [OF a] unat_two_power [of j] by simp
    moreover have "2 ^ (k - j) * 2 ^ j = (2 ^ k :: nat)" using d(3) by (simp flip: power_add)
    ultimately show ?thesis using d unat_two_power [of "k - j"] unat_two_power [of k] by simp
  qed
  have "unat (2 ^ (k - j) :: u32) * unat (line_size g) < 2 ^ 32"
  proof -
    have "(2::nat) ^ (k - j) \<le> 2 ^ 13" using d by (intro power_increasing) simp_all
    moreover have "unat (line_size g) \<le> 64" using a(2) by (auto simp: is_valid_line_size_def)
    ultimately have "2 ^ (k - j) * unat (line_size g) \<le> 2 ^ 13 * 64" by (intro mult_mono) simp_all
    then show ?thesis using d by (simp add: unat_two_power)
  qed
  with p l apos size d show ?thesis
    by (simp add: cache_init_def Let_def i geometry_ok_def)
qed

subsection \<open>Properties\<close>

text \<open>
  C39.  Whatever the user types, when the dialogue ends the configuration is one the simulator can
  run: one to three levels, a line of 16, 32 or 64 bytes, and for each level asked about an
  associativity of 1, 2, 4 or 8 and a power-of-two size that holds at least one set and is at most
  2, 4 or 8 KiB.
\<close>

theorem configure_valid:
  assumes "configure_cache_sim_parameters junk initial_globals input = Some (g, rest)"
  shows "config_ok g \<and> global_timer g = 0"
  using configure_asked [of junk input] assms asked_config_ok by (auto simp: after_def)

theorem configure_valid_witness:
  "\<exists>g. configure_cache_sim_parameters 0 initial_globals
      [Some 9, None, Some 2, Some 16, Some 4, Some 3, Some 8, Some 1024, Some 32, Some 4096, Some 1, Some 7]
      = Some (g, [Some 7]) \<and> config_ok g \<and> policy g = ALG_OPTIMAL"
proof -
  have r: "configure_cache_sim_parameters 0 initial_globals
      [Some 9, None, Some 2, Some 16, Some 4, Some 3, Some 8, Some 1024, Some 32, Some 4096, Some 1, Some 7]
      = Some (\<lparr>global_timer = 0, num_lvls = 2, line_size = 16, assoc = [4, 8, 0],
          lvl_size = [1024, 4096, 0], policy = ALG_OPTIMAL\<rparr>, [Some 7])"
    by (simp add: configure_cache_sim_parameters_def ask_def ask_if_def initial_globals_def
        is_valid_num_lvls_def is_valid_line_size_def is_valid_assoc_def is_valid_lvl_size_def
        is_valid_algorithm_num_def is_power_of_two_def)
  from configure_valid [OF r] r show ?thesis by auto
qed

abbreviation small_config :: sim_globals where
  "small_config \<equiv> \<lparr>global_timer = 0, num_lvls = 1, line_size = 16, assoc = [2, 0, 0],
     lvl_size = [64, 0, 0], policy = ALG_LRU\<rparr>"

lemma small_config_ok: "config_ok small_config"
  by (simp add: config_ok_def level_config_ok_def is_valid_num_lvls_def is_valid_line_size_def
      is_valid_assoc_def is_power_of_two_def)

abbreviation blank_level :: cache_level where
  "blank_level \<equiv> \<lparr>cl_size = 0, associativity = 0, cl_line_size = 0, num_sets = 0, sets = [],
     hits = 0, misses = 0\<rparr>"

end
