(* ===== verification/Victim_Policy.thy ===== *)
theory Victim_Policy
  imports Cache_Config
begin

text \<open>
  The contract of a replacement policy of the cache simulator: on a set of \<open>n\<close> lines it selects
  one of them, and none of the others is a better choice.  \<open>'x\<close> is what the policy looks at
  beside the set.  What an eviction does to the contents of a set follows from the contract alone.
\<close>

subsection \<open>The contents of a set\<close>

definition tags_in :: "cache_set \<Rightarrow> nat \<Rightarrow> u64 set" where
  "tags_in s n = {tag (lines s ! i) |i. i < n \<and> valid (lines s ! i)}"

definition full :: "cache_set \<Rightarrow> nat \<Rightarrow> bool" where
  "full s n \<longleftrightarrow> (\<forall>i<n. valid (lines s ! i))"

text \<open>No block is held twice.\<close>

definition set_ok :: "cache_set \<Rightarrow> nat \<Rightarrow> bool" where
  "set_ok s n \<longleftrightarrow> length (lines s) = n \<and>
     (\<forall>i<n. \<forall>j<n. valid (lines s ! i) \<and> valid (lines s ! j) \<and> tag (lines s ! i) = tag (lines s ! j)
        \<longrightarrow> i = j)"

abbreviation replace_line :: "cache_set \<Rightarrow> nat \<Rightarrow> cache_line \<Rightarrow> cache_set" where
  "replace_line s i l \<equiv> s\<lparr>lines := (lines s)[i := l]\<rparr>"

lemma replace_line_contents:
  assumes "set_ok s n" "i < n" "valid l" "tag l \<notin> tags_in s n \<or> valid (lines s ! i) \<and> tag (lines s ! i) = tag l"
  shows "set_ok (replace_line s i l) n"
    "tags_in (replace_line s i l) n =
       insert (tag l) (if valid (lines s ! i) then tags_in s n - {tag (lines s ! i)} else tags_in s n)"
    "full s n \<Longrightarrow> full (replace_line s i l) n"
proof -
  let ?s = "replace_line s i l"
  have nth: "lines ?s ! j = (if j = i then l else lines s ! j)" if "j < n" for j
    using assms(1,2) that by (simp add: set_ok_def nth_list_update)
  have mem: "tag (lines s ! j) \<in> tags_in s n" if "j < n" "valid (lines s ! j)" for j
    using that by (auto simp: tags_in_def)
  have uniq: "j = k" if "j < n" "k < n" "valid (lines s ! j)" "valid (lines s ! k)"
      "tag (lines s ! j) = tag (lines s ! k)" for j k
    using assms(1) that by (auto simp: set_ok_def)
  have other: "tag (lines s ! j) \<noteq> tag l" if "j < n" "j \<noteq> i" "valid (lines s ! j)" for j
    using assms(2,4) mem [of j] uniq [of j i] that by auto
  show "set_ok ?s n"
    unfolding set_ok_def
  proof (intro conjI allI impI)
    show "length (lines ?s) = n" using assms(1) by (simp add: set_ok_def)
    fix j k assume "j < n" "k < n" and
      "valid (lines ?s ! j) \<and> valid (lines ?s ! k) \<and> tag (lines ?s ! j) = tag (lines ?s ! k)"
    then show "j = k"
      using nth [of j] nth [of k] other [of j] other [of k] uniq [of j k]
      by (cases "j = i"; cases "k = i") auto
  qed
  show "full s n \<Longrightarrow> full ?s n"
    using nth assms(3) by (simp add: full_def)
  show "tags_in ?s n =
       insert (tag l) (if valid (lines s ! i) then tags_in s n - {tag (lines s ! i)} else tags_in s n)"
  proof (intro set_eqI iffI)
    fix t assume "t \<in> tags_in ?s n"
    then obtain j where j: "j < n" "valid (lines ?s ! j)" "t = tag (lines ?s ! j)"
      by (auto simp: tags_in_def)
    then show "t \<in> insert (tag l) (if valid (lines s ! i) then tags_in s n - {tag (lines s ! i)}
        else tags_in s n)"
      using nth [OF j(1)] mem [of j] uniq [of j i] assms(2) by (auto split: if_splits)
  next
    fix t assume *: "t \<in> insert (tag l) (if valid (lines s ! i) then tags_in s n - {tag (lines s ! i)}
        else tags_in s n)"
    show "t \<in> tags_in ?s n"
    proof (cases "t = tag l")
      case True
      with nth [OF assms(2)] assms(2,3) show ?thesis by (force simp: tags_in_def)
    next
      case False
      with * obtain j where j: "j < n" "valid (lines s ! j)" "t = tag (lines s ! j)"
        "valid (lines s ! i) \<longrightarrow> t \<noteq> tag (lines s ! i)" by (auto simp: tags_in_def split: if_splits)
      then have "j \<noteq> i" by auto
      with j nth [OF j(1)] show ?thesis by (force simp: tags_in_def)
    qed
  qed
qed

subsection \<open>The contract\<close>

locale victim_policy =
  fixes select :: "'x \<Rightarrow> cache_set \<Rightarrow> nat \<Rightarrow> nat"
    and no_worse :: "'x \<Rightarrow> cache_set \<Rightarrow> nat \<Rightarrow> nat \<Rightarrow> bool"
  assumes in_range: "0 < n \<Longrightarrow> select x s n < n"
    and best: "i < n \<Longrightarrow> no_worse x s (select x s n) i"
begin

lemma evict:
  assumes "set_ok s n" "full s n" "0 < n" "t \<notin> tags_in s n"
    and "s' = replace_line s (select x s n) ((lines s ! select x s n)\<lparr>tag := t, last_used := now\<rparr>)"
  shows "set_ok s' n" "full s' n"
    "\<exists>v<n. tags_in s' n = insert t (tags_in s n - {tag (lines s ! v)}) \<and> (\<forall>i<n. no_worse x s v i)"
proof -
  let ?v = "select x s n"
  let ?l = "(lines s ! ?v)\<lparr>tag := t, last_used := now\<rparr>"
  have v: "?v < n" "valid (lines s ! ?v)" using in_range assms(2,3) by (simp_all add: full_def)
  note r = replace_line_contents [of s n ?v ?l]
  show "set_ok s' n" "full s' n" using r assms v by simp_all
  show "\<exists>v<n. tags_in s' n = insert t (tags_in s n - {tag (lines s ! v)}) \<and> (\<forall>i<n. no_worse x s v i)"
    using r(2) assms v best by (intro exI [of _ ?v]) simp
qed

lemma evict_one:
  assumes "set_ok s n" "full s n" "0 < n" "t \<notin> tags_in s n"
    and "s' = replace_line s (select x s n) ((lines s ! select x s n)\<lparr>tag := t, last_used := now\<rparr>)"
  shows "\<exists>u\<in>tags_in s n. tags_in s' n = insert t (tags_in s n - {u})"
  using evict(3) [OF assms] assms(2) by (auto simp: full_def tags_in_def)

end

end
