(* ===== verification/Cache_Level.thy ===== *)
theory Cache_Level
  imports Victim_Policy
begin

text \<open>
  One access to one cache level (\<open>cache_access\<close> and \<open>find_optimal_victim\<close> in
  \<open>userspace/src/cache_simulator.c\<close>).  A C loop that returns at the first index with a property is
  \<open>find\<close> over the indices.  The trace is the list \<open>traces\<close> with the position \<open>cur\<close> of the current
  access and the bound \<open>total_traces\<close> the caller passes; \<open>SIZE_MAX\<close> as a next use is \<open>None\<close>.
\<close>

subsection \<open>Splitting an address\<close>

definition offset_bits :: "cache_level \<Rightarrow> u32" where
  "offset_bits c = fast_log2 (cl_line_size c)"

definition index_bits :: "cache_level \<Rightarrow> u32" where
  "index_bits c = fast_log2 (num_sets c)"

definition set_index :: "cache_level \<Rightarrow> u64 \<Rightarrow> u64" where
  "set_index c address = drop_bit (unat (offset_bits c)) address AND ucast (num_sets c - 1)"

definition tag_of :: "cache_level \<Rightarrow> u64 \<Rightarrow> u64" where
  "tag_of c address = drop_bit (unat (offset_bits c + index_bits c)) address"

subsection \<open>Choosing a victim\<close>

definition lru_victim :: "cache_set \<Rightarrow> nat \<Rightarrow> nat" where
  "lru_victim s n = snd (foldl
     (\<lambda>(min_time, victim_idx) i.
        if last_used (lines s ! i) < min_time then (last_used (lines s ! i), i)
        else (min_time, victim_idx))
     (- 1 :: u32, 0) [0..<n])"

definition next_use :: "cache_level \<Rightarrow> mem_access list \<Rightarrow> nat \<Rightarrow> nat \<Rightarrow> u64 \<Rightarrow> nat option" where
  "next_use c traces cur total_traces t =
     find (\<lambda>j. tag_of c (acc_addr (traces ! j)) = t) [cur + 1..<total_traces]"

fun optimal_scan :: "(nat \<Rightarrow> nat option) \<Rightarrow> nat list \<Rightarrow> nat \<Rightarrow> nat \<Rightarrow> nat" where
  "optimal_scan use_of [] furthest_appearance victim_idx = victim_idx"
| "optimal_scan use_of (i # is) furthest_appearance victim_idx =
    (case use_of i of
       None \<Rightarrow> i
     | Some j \<Rightarrow>
         (if j > furthest_appearance then optimal_scan use_of is j i
          else optimal_scan use_of is furthest_appearance victim_idx))"

definition find_optimal_victim :: "cache_level \<Rightarrow> cache_set \<Rightarrow> mem_access list \<Rightarrow> nat \<Rightarrow> nat \<Rightarrow> nat" where
  "find_optimal_victim c s traces cur total_traces =
     optimal_scan (\<lambda>i. next_use c traces cur total_traces (tag (lines s ! i)))
       [0..<unat (associativity c)] 0 0"

subsection \<open>The access\<close>

definition put_line :: "nat \<Rightarrow> nat \<Rightarrow> cache_line \<Rightarrow> cache_level \<Rightarrow> cache_level" where
  "put_line idx i l c =
     c\<lparr>sets := (sets c)[idx := (sets c ! idx)\<lparr>lines := (lines (sets c ! idx))[i := l]\<rparr>]\<rparr>"

definition cache_access ::
    "mem_access list \<Rightarrow> nat \<Rightarrow> nat \<Rightarrow> sim_globals \<times> cache_level \<Rightarrow> sim_globals \<times> cache_level" where
  "cache_access traces cur total_traces st =
    (case st of (g, c) \<Rightarrow>
      let now = global_timer g + 1;
          g1 = g\<lparr>global_timer := now\<rparr>;
          address = acc_addr (traces ! cur);
          idx = unat (set_index c address);
          t = tag_of c address;
          s = sets c ! idx;
          ways = unat (associativity c)
      in case find (\<lambda>i. valid (lines s ! i) \<and> tag (lines s ! i) = t) [0..<ways] of
           Some i \<Rightarrow>
             (g1, put_line idx i ((lines s ! i)\<lparr>last_used := now\<rparr>) (c\<lparr>hits := hits c + 1\<rparr>))
         | None \<Rightarrow>
             (let c1 = c\<lparr>misses := misses c + 1\<rparr>
              in case find (\<lambda>i. \<not> valid (lines s ! i)) [0..<ways] of
                   Some i \<Rightarrow>
                     (g1, put_line idx i ((lines s ! i)\<lparr>valid := True, tag := t, last_used := now\<rparr>) c1)
                 | None \<Rightarrow>
                     (let victim_idx = (if policy g = ALG_LRU then lru_victim s ways
                                        else find_optimal_victim c s traces cur total_traces)
                      in (g1, put_line idx victim_idx
                               ((lines s ! victim_idx)\<lparr>tag := t, last_used := now\<rparr>) c1))))"

definition cache_free :: "cache_level \<Rightarrow> cache_level" where
  "cache_free c = c\<lparr>sets := []\<rparr>"

subsection \<open>Addresses in arithmetic\<close>

text \<open>The line of an address, its set and its tag as quotients and remainders.\<close>

definition block_of :: "cache_level \<Rightarrow> u64 \<Rightarrow> nat" where
  "block_of c a = unat a div unat (cl_line_size c)"

lemma shifts_of:
  assumes "geometry_ok c"
  obtains k b where "k + b < 32" "num_sets c = 2 ^ k" "cl_line_size c = 2 ^ b"
    "unat (offset_bits c) = b" "unat (offset_bits c + index_bits c) = b + k"
proof -
  from assms obtain k b where kb: "k < 32" "num_sets c = 2 ^ k" "b < 32" "cl_line_size c = 2 ^ b"
    by (auto simp: geometry_ok_def power_of_two_iff)
  then have "(2::nat) ^ (k + b) < 2 ^ 32"
    using assms unat_two_power [of k] unat_two_power [of b] by (simp add: geometry_ok_def power_add)
  then have "k + b < 32" by (rule power_less_imp_less_exp [rotated]) simp
  moreover have "offset_bits c = of_nat b" "index_bits c = of_nat k"
    using kb by (simp_all add: offset_bits_def index_bits_def fast_log2_power)
  then have "unat (offset_bits c) = b" "unat (offset_bits c + index_bits c) = b + k"
    using \<open>k + b < 32\<close> by (simp_all add: unat_of_nat take_bit_nat_eq_self_iff flip: of_nat_add)
  ultimately show thesis using that kb by blast
qed


lemma unat_drop_bit: "unat (drop_bit n (x :: u64)) = unat x div 2 ^ n"
  by (simp only: unat_drop_bit_eq) (simp only: drop_bit_eq_div)

lemma tag_of_block:
  assumes "geometry_ok c" shows "unat (tag_of c a) = block_of c a div unat (num_sets c)"
  by (rule shifts_of [OF assms])
    (simp add: tag_of_def unat_drop_bit block_of_def unat_two_power power_add div_mult2_eq)

lemma set_index_block:
  assumes "geometry_ok c" shows "unat (set_index c a) = block_of c a mod unat (num_sets c)"
proof (rule shifts_of [OF assms])
  fix k b
  assume *: "k + b < 32" "num_sets c = 2 ^ k" "cl_line_size c = 2 ^ b" "unat (offset_bits c) = b"
  have "(ucast (2 ^ k - 1 :: u32) :: u64) = mask k"
    using *(1) by (intro bit_word_eqI) (auto simp: bit_ucast_iff bit_mask_iff simp flip: mask_eq_decr_exp)
  then have "set_index c a = take_bit k (drop_bit b a)"
    by (simp add: set_index_def * take_bit_eq_mask)
  then have "unat (set_index c a) = unat (drop_bit b a) mod 2 ^ k"
    by (simp only: unsigned_take_bit_eq) (simp only: take_bit_eq_mod)
  then show ?thesis
    using * by (simp only: unat_drop_bit) (simp add: block_of_def unat_two_power)
qed

lemma set_index_bound: "geometry_ok c \<Longrightarrow> unat (set_index c a) < length (sets c)"
  by (simp add: set_index_block) (simp add: geometry_ok_def is_power_of_two_def unat_gt_0)


subsection \<open>The two policies keep the contract\<close>

lemma lru_scan:
  assumes "foldl (\<lambda>(min_time, victim_idx) i.
        if f i < min_time then (f i, i) else (min_time, victim_idx)) (- 1 :: u32, 0) [0..<k] = (m, v)"
  shows "(\<forall>i<k. m \<le> f i) \<and> (v < k \<and> f v = m \<or> v = 0 \<and> m = - 1)"
  using assms
proof (induction k arbitrary: m v)
  case 0
  then show ?case by simp
next
  case (Suc k)
  obtain m0 v0 where 0: "foldl (\<lambda>(min_time, victim_idx) i.
      if f i < min_time then (f i, i) else (min_time, victim_idx)) (- 1 :: u32, 0) [0..<k] = (m0, v0)"
    by fastforce
  from Suc.IH [OF 0] Suc.prems 0 show ?case
    by (auto simp: less_Suc_eq split: if_splits)
qed

lemma lru_victim_spec:
  assumes "0 < n"
  shows "lru_victim s n < n" "i < n \<Longrightarrow> last_used (lines s ! lru_victim s n) \<le> last_used (lines s ! i)"
proof -
  obtain m v where mv: "foldl (\<lambda>(min_time, victim_idx) i.
      if last_used (lines s ! i) < min_time then (last_used (lines s ! i), i)
      else (min_time, victim_idx)) (- 1 :: u32, 0) [0..<n] = (m, v)"
    by fastforce
  then have v: "lru_victim s n = v" by (simp add: lru_victim_def)
  from lru_scan [OF mv] have *: "\<forall>i<n. m \<le> last_used (lines s ! i)"
    "v < n \<and> last_used (lines s ! v) = m \<or> v = 0 \<and> m = - 1" by auto
  then show "lru_victim s n < n" using assms v by auto
  show "i < n \<Longrightarrow> last_used (lines s ! lru_victim s n) \<le> last_used (lines s ! i)"
    using * v by (auto simp: word_order.extremum_unique)
qed

interpretation lru: victim_policy "\<lambda>_ :: unit. lru_victim"
  "\<lambda>_ s i j. last_used (lines s ! i) \<le> last_used (lines s ! j)"
proof
  show "lru_victim s n < n" if "0 < n" for s n using lru_victim_spec(1) [OF that] .
  show "last_used (lines s ! lru_victim s n) \<le> last_used (lines s ! i)" if "i < n" for i n s
    using lru_victim_spec(2) [of n i s] that by simp
qed

lemma optimal_scan_spec:
  assumes "optimal_scan use_of is f v = r"
  shows "(r \<in> set is \<and> use_of r = None) \<or>
    (\<exists>f'\<ge>f. (\<forall>i\<in>set is. \<exists>j\<le>f'. use_of i = Some j) \<and>
       (r \<in> set is \<and> use_of r = Some f' \<or> r = v \<and> f' = f))"
  using assms
proof (induction use_of "is" f v rule: optimal_scan.induct)
  case (1 use_of f v)
  then show ?case by auto
next
  case (2 use_of i "is" f v)
  show ?case
  proof (cases "use_of i")
    case None
    with 2(3) show ?thesis by simp
  next
    case (Some j)
    show ?thesis
    proof (cases "j > f")
      case True
      with 2(3) Some have "optimal_scan use_of is j i = r" by simp
      from 2(1) [OF Some True this] show ?thesis
      proof
        assume "r \<in> set is \<and> use_of r = None"
        then show ?thesis by simp
      next
        assume "\<exists>f'\<ge>j. (\<forall>i\<in>set is. \<exists>j\<le>f'. use_of i = Some j) \<and>
          (r \<in> set is \<and> use_of r = Some f' \<or> r = i \<and> f' = j)"
        then obtain f' where "f' \<ge> j" "\<forall>i\<in>set is. \<exists>j\<le>f'. use_of i = Some j"
          "r \<in> set is \<and> use_of r = Some f' \<or> r = i \<and> f' = j" by blast
        with True Some show ?thesis by (intro disjI2 exI [of _ f']) auto
      qed
    next
      case False
      with 2(3) Some have "optimal_scan use_of is f v = r" by simp
      from 2(2) [OF Some False this] show ?thesis
      proof
        assume "r \<in> set is \<and> use_of r = None"
        then show ?thesis by simp
      next
        assume "\<exists>f'\<ge>f. (\<forall>i\<in>set is. \<exists>j\<le>f'. use_of i = Some j) \<and>
          (r \<in> set is \<and> use_of r = Some f' \<or> r = v \<and> f' = f)"
        then obtain f' where "f' \<ge> f" "\<forall>i\<in>set is. \<exists>j\<le>f'. use_of i = Some j"
          "r \<in> set is \<and> use_of r = Some f' \<or> r = v \<and> f' = f" by blast
        with False Some show ?thesis by (intro disjI2 exI [of _ f']) auto
      qed
    qed
  qed
qed

text \<open>A later next use is no worse to evict, and no further use at all is best.\<close>

definition later_use :: "nat option \<Rightarrow> nat option \<Rightarrow> bool" where
  "later_use a b \<longleftrightarrow>
     (case a of None \<Rightarrow> True | Some j \<Rightarrow> (case b of None \<Rightarrow> False | Some k \<Rightarrow> k \<le> j))"

interpretation opt: victim_policy
  "\<lambda>use_of s n. optimal_scan (\<lambda>i. use_of (tag (lines s ! i))) [0..<n] 0 0"
  "\<lambda>use_of s i j. later_use (use_of (tag (lines s ! i))) (use_of (tag (lines s ! j)))"
proof
  fix n s and use_of :: "u64 \<Rightarrow> nat option"
  let ?u = "\<lambda>i. use_of (tag (lines s ! i))"
  let ?r = "optimal_scan ?u [0..<n] 0 0"
  note spec = optimal_scan_spec [of ?u "[0..<n]" 0 0 ?r, OF refl]
  show "?r < n" if "0 < n" using spec that by auto
  show "later_use (?u ?r) (?u i)" if i: "i < n" for i
  proof (cases "?u ?r")
    case None
    then show ?thesis by (simp add: later_use_def)
  next
    case (Some f)
    with spec obtain f' where f': "\<forall>i\<in>{0..<n}. \<exists>j\<le>f'. ?u i = Some j"
      "?u ?r = Some f' \<or> ?r = 0 \<and> f' = 0" by auto
    moreover have "f' \<le> f"
      using f' Some by auto
    moreover obtain j where "j \<le> f'" "?u i = Some j" using bspec [OF f'(1), of i] i by auto
    ultimately show ?thesis unfolding Some by (simp add: later_use_def)
  qed
qed


subsection \<open>What an access does to a level\<close>

definition level_ok :: "cache_level \<Rightarrow> bool" where
  "level_ok c \<longleftrightarrow> geometry_ok c \<and> (\<forall>s\<in>set (sets c). set_ok s (unat (associativity c)))"

definition resident :: "cache_level \<Rightarrow> u64 \<Rightarrow> bool" where
  "resident c a \<longleftrightarrow> tag_of c a \<in> tags_in (sets c ! unat (set_index c a)) (unat (associativity c))"

lemma find_upt_Some: "find P [0..<n] = Some i \<Longrightarrow> i < n \<and> P i"
  by (auto simp: find_Some_iff)

lemma find_upt_None: "find P [0..<n] = None \<Longrightarrow> \<forall>i<n. \<not> P i"
  by (auto simp: find_None_iff)

lemma put_line_frame [frame_simps]:
  "cl_size (put_line idx i l c) = cl_size c" "associativity (put_line idx i l c) = associativity c"
  "cl_line_size (put_line idx i l c) = cl_line_size c" "num_sets (put_line idx i l c) = num_sets c"
  "hits (put_line idx i l c) = hits c" "misses (put_line idx i l c) = misses c"
  "sets (put_line idx i l c) = (sets c)[idx := replace_line (sets c ! idx) i l]"
  by (simp_all add: put_line_def)

lemma address_frame:
  "associativity c' = associativity c \<Longrightarrow> cl_line_size c' = cl_line_size c \<Longrightarrow> num_sets c' = num_sets c \<Longrightarrow>
     set_index c' = set_index c \<and> tag_of c' = tag_of c \<and> block_of c' = block_of c"
  by (auto simp: set_index_def tag_of_def offset_bits_def index_bits_def block_of_def fun_eq_iff)

text \<open>The line an access writes: the hit, the first invalid one, or the policy's victim.\<close>

definition victim_of :: "sim_globals \<Rightarrow> cache_level \<Rightarrow> cache_set \<Rightarrow> mem_access list \<Rightarrow> nat \<Rightarrow> nat \<Rightarrow> nat" where
  "victim_of g c s traces cur total_traces =
     (if policy g = ALG_LRU then lru_victim s (unat (associativity c))
      else find_optimal_victim c s traces cur total_traces)"

lemma cache_access_cases:
  assumes "cache_access traces cur total_traces (g, c) = (g', c')"
    and "now = global_timer g + 1" "a = acc_addr (traces ! cur)" "idx = unat (set_index c a)"
    and "t = tag_of c a" "s = sets c ! idx" "n = unat (associativity c)"
  obtains
    (hit) i where "i < n" "valid (lines s ! i)" "tag (lines s ! i) = t"
      "c' = put_line idx i ((lines s ! i)\<lparr>last_used := now\<rparr>) (c\<lparr>hits := hits c + 1\<rparr>)"
      "g' = g\<lparr>global_timer := now\<rparr>"
  | (fill) i where "t \<notin> tags_in s n" "i < n" "\<not> valid (lines s ! i)"
      "c' = put_line idx i ((lines s ! i)\<lparr>valid := True, tag := t, last_used := now\<rparr>)
              (c\<lparr>misses := misses c + 1\<rparr>)"
      "g' = g\<lparr>global_timer := now\<rparr>"
  | (evict) "t \<notin> tags_in s n" "full s n"
      "c' = put_line idx (victim_of g c s traces cur total_traces)
              ((lines s ! victim_of g c s traces cur total_traces)\<lparr>tag := t, last_used := now\<rparr>)
              (c\<lparr>misses := misses c + 1\<rparr>)"
      "g' = g\<lparr>global_timer := now\<rparr>"
proof -
  let ?P = "\<lambda>i. valid (lines s ! i) \<and> tag (lines s ! i) = t"
  let ?Q = "\<lambda>i. \<not> valid (lines s ! i)"
  note unf = assms(1) [unfolded cache_access_def Let_def prod.case, folded assms(2-3), folded assms(4-5),
      folded assms(6-7)]
  show thesis
  proof (cases "find ?P [0..<n]")
    case (Some i)
    with unf hit [of i] find_upt_Some [OF Some] show thesis by simp
  next
    case None
    then have t: "t \<notin> tags_in s n" using find_upt_None [OF None] by (auto simp: tags_in_def)
    show thesis
    proof (cases "find ?Q [0..<n]")
      case (Some i)
      with unf fill [OF t, of i] find_upt_Some [OF Some] None show thesis by simp
    next
      case none: None
      then have "full s n" using find_upt_None [OF none] by (simp add: full_def)
      with unf evict [OF t] None none assms(7) show thesis
        by (simp add: victim_of_def split: if_splits)
    qed
  qed
qed

lemma victim_contents:
  assumes "set_ok s n" "full s n" "0 < n" "t \<notin> tags_in s n" "n = unat (associativity c)"
    and "s' = replace_line s (victim_of g c s traces cur total_traces)
      ((lines s ! victim_of g c s traces cur total_traces)\<lparr>tag := t, last_used := now\<rparr>)"
  shows "set_ok s' n \<and> full s' n \<and> (\<exists>u\<in>tags_in s n. tags_in s' n = insert t (tags_in s n - {u}))"
proof (cases "policy g = ALG_LRU")
  case True
  then have s': "s' = replace_line s (lru_victim s n) ((lines s ! lru_victim s n)\<lparr>tag := t, last_used := now\<rparr>)"
    using assms(5,6) by (simp add: victim_of_def)
  show ?thesis
    using lru.evict(1,2) [OF assms(1-4) s'] lru.evict_one [OF assms(1-4) s'] by blast
next
  case False
  let ?u = "next_use c traces cur total_traces"
  let ?v = "optimal_scan (\<lambda>i. ?u (tag (lines s ! i))) [0..<n] 0 0"
  have s': "s' = replace_line s ?v ((lines s ! ?v)\<lparr>tag := t, last_used := now\<rparr>)"
    using assms(5,6) False by (simp add: victim_of_def find_optimal_victim_def)
  show ?thesis
    using opt.evict(1,2) [OF assms(1-4) s'] opt.evict_one [OF assms(1-4) s'] by blast
qed


lemma put_line_level_ok:
  assumes "level_ok c" "idx < length (sets c)"
    and "set_ok (replace_line (sets c ! idx) i l) (unat (associativity c))"
    and "c1 = c\<lparr>hits := h\<rparr> \<or> c1 = c\<lparr>misses := h\<rparr>"
  shows "level_ok (put_line idx i l c1)"
proof -
  have sets1: "sets c1 = sets c" and dims: "num_sets c1 = num_sets c"
    "cl_line_size c1 = cl_line_size c" "associativity c1 = associativity c"
    using assms(4) by auto
  have "\<forall>s\<in>set (sets (put_line idx i l c1)). set_ok s (unat (associativity c))"
    using assms(1-3) set_update_subset_insert [of "sets c" idx "replace_line (sets c ! idx) i l"]
    by (auto simp: level_ok_def frame_simps sets1)
  then show ?thesis
    using assms(1) by (auto simp: level_ok_def geometry_ok_def frame_simps sets1 dims set_ok_def)
qed

lemma access_effect:
  assumes ok: "level_ok c" and acc: "cache_access traces cur total_traces (g, c) = (g', c')"
    and a: "a = acc_addr (traces ! cur)" and idx: "idx = unat (set_index c a)"
    and n: "n = unat (associativity c)"
  shows "level_ok c'" "g' = g\<lparr>global_timer := global_timer g + 1\<rparr>"
    "num_sets c' = num_sets c" "associativity c' = associativity c" "cl_line_size c' = cl_line_size c"
    "\<And>i. i \<noteq> idx \<Longrightarrow> sets c' ! i = sets c ! i"
    "if resident c a
     then hits c' = hits c + 1 \<and> misses c' = misses c \<and> tags_in (sets c' ! idx) n = tags_in (sets c ! idx) n
     else hits c' = hits c \<and> misses c' = misses c + 1 \<and>
       (if full (sets c ! idx) n
        then \<exists>u\<in>tags_in (sets c ! idx) n.
               tags_in (sets c' ! idx) n = insert (tag_of c a) (tags_in (sets c ! idx) n - {u})
        else tags_in (sets c' ! idx) n = insert (tag_of c a) (tags_in (sets c ! idx) n))"
proof -
  let ?s = "sets c ! idx"
  have idx_len: "idx < length (sets c)" using ok set_index_bound idx by (simp add: level_ok_def)
  then have sok: "set_ok ?s n" using ok n by (simp add: level_ok_def)
  have npos: "0 < n" using ok n by (simp add: level_ok_def geometry_ok_def word_less_nat_alt)
  have *: "level_ok c' \<and> g' = g\<lparr>global_timer := global_timer g + 1\<rparr> \<and>
    num_sets c' = num_sets c \<and> associativity c' = associativity c \<and> cl_line_size c' = cl_line_size c \<and>
    (\<forall>i. i \<noteq> idx \<longrightarrow> sets c' ! i = sets c ! i) \<and>
    (if resident c a
     then hits c' = hits c + 1 \<and> misses c' = misses c \<and> tags_in (sets c' ! idx) n = tags_in ?s n
     else hits c' = hits c \<and> misses c' = misses c + 1 \<and>
       (if full ?s n
        then \<exists>u\<in>tags_in ?s n. tags_in (sets c' ! idx) n = insert (tag_of c a) (tags_in ?s n - {u})
        else tags_in (sets c' ! idx) n = insert (tag_of c a) (tags_in ?s n)))"
    using acc refl a idx refl refl n
  proof (cases rule: cache_access_cases)
    case (hit i)
    let ?l = "(lines ?s ! i)\<lparr>last_used := global_timer g + 1\<rparr>"
    have mem: "tag_of c a \<in> tags_in ?s n" using hit(1-3) by (force simp: tags_in_def)
    have r: "set_ok (replace_line ?s i ?l) n" "tags_in (replace_line ?s i ?l) n = tags_in ?s n"
      using replace_line_contents(1,2) [of ?s n i ?l] hit(1-3) sok mem by (auto simp: insert_absorb)
    have "resident c a" using mem idx n by (simp add: resident_def)
    with hit r put_line_level_ok [OF ok idx_len, of i ?l] n idx_len show ?thesis
      by (auto simp: frame_simps)
  next
    case (fill i)
    let ?l = "(lines ?s ! i)\<lparr>valid := True, tag := tag_of c a, last_used := global_timer g + 1\<rparr>"
    have r: "set_ok (replace_line ?s i ?l) n"
      "tags_in (replace_line ?s i ?l) n = insert (tag_of c a) (tags_in ?s n)"
      using replace_line_contents(1,2) [of ?s n i ?l] fill sok by auto
    have "\<not> resident c a" "\<not> full ?s n"
      using fill(1-3) idx n by (auto simp: resident_def full_def)
    with fill r put_line_level_ok [OF ok idx_len, of i ?l] n idx_len show ?thesis
      by (auto simp: frame_simps)
  next
    case evict
    let ?v = "victim_of g c ?s traces cur total_traces"
    let ?l = "(lines ?s ! ?v)\<lparr>tag := tag_of c a, last_used := global_timer g + 1\<rparr>"
    have r: "set_ok (replace_line ?s ?v ?l) n"
      "\<exists>u\<in>tags_in ?s n. tags_in (replace_line ?s ?v ?l) n = insert (tag_of c a) (tags_in ?s n - {u})"
      using victim_contents [OF sok evict(2) npos evict(1) n refl] by auto
    have "\<not> resident c a" using evict(1) idx n by (simp add: resident_def)
    with evict r put_line_level_ok [OF ok idx_len, of ?v ?l] n idx_len show ?thesis
      by (auto simp: frame_simps)
  qed
  from * show "level_ok c'" "g' = g\<lparr>global_timer := global_timer g + 1\<rparr>"
    "num_sets c' = num_sets c" "associativity c' = associativity c" "cl_line_size c' = cl_line_size c"
    "\<And>i. i \<noteq> idx \<Longrightarrow> sets c' ! i = sets c ! i"
    "if resident c a
     then hits c' = hits c + 1 \<and> misses c' = misses c \<and> tags_in (sets c' ! idx) n = tags_in (sets c ! idx) n
     else hits c' = hits c \<and> misses c' = misses c + 1 \<and>
       (if full (sets c ! idx) n
        then \<exists>u\<in>tags_in (sets c ! idx) n.
               tags_in (sets c' ! idx) n = insert (tag_of c a) (tags_in (sets c ! idx) n - {u})
        else tags_in (sets c' ! idx) n = insert (tag_of c a) (tags_in (sets c ! idx) n))"
    by auto
qed

subsection \<open>Properties\<close>

text \<open>
  An access, under either policy, keeps the level well formed (no block held twice, its
  dimensions unchanged) and touches only the set of its address.  It counts a hit and keeps the
  contents when the block is there; otherwise it counts a miss and adds the block, into a free line
  if the set has one and else in place of exactly one other block.  Either way the block is in the
  level afterwards.
\<close>

lemma access_contents:
  assumes "level_ok c" and "cache_access traces cur total_traces (g, c) = (g', c')"
    and "a = acc_addr (traces ! cur)" and "idx = unat (set_index c a)" and "n = unat (associativity c)"
  shows "level_ok c' \<and> resident c' a \<and> num_sets c' = num_sets c \<and> associativity c' = associativity c \<and>
    (\<forall>i. i \<noteq> idx \<longrightarrow> sets c' ! i = sets c ! i) \<and>
    (if resident c a
     then hits c' = hits c + 1 \<and> misses c' = misses c \<and> tags_in (sets c' ! idx) n = tags_in (sets c ! idx) n
     else hits c' = hits c \<and> misses c' = misses c + 1 \<and>
       (if full (sets c ! idx) n
        then \<exists>u\<in>tags_in (sets c ! idx) n.
               tags_in (sets c' ! idx) n = insert (tag_of c a) (tags_in (sets c ! idx) n - {u})
        else tags_in (sets c' ! idx) n = insert (tag_of c a) (tags_in (sets c ! idx) n)))"
proof -
  note e = access_effect [OF assms]
  have "set_index c' = set_index c \<and> tag_of c' = tag_of c" using address_frame [OF e(4,5,3)] by simp
  then have "resident c' a \<longleftrightarrow> tag_of c a \<in> tags_in (sets c' ! idx) n"
    "resident c a \<longleftrightarrow> tag_of c a \<in> tags_in (sets c ! idx) n"
    using assms(4,5) e(4) by (simp_all add: resident_def)
  with e show ?thesis by (auto split: if_splits)
qed

abbreviation one_line_level :: cache_level where
  "one_line_level \<equiv> \<lparr>cl_size = 16, associativity = 1, cl_line_size = 16, num_sets = 1,
     sets = [\<lparr>lines = [empty_line]\<rparr>], hits = 0, misses = 0\<rparr>"

lemma one_line_level_ok: "level_ok one_line_level"
  by (simp add: level_ok_def geometry_ok_def is_power_of_two_def set_ok_def)


end
