(* ===== verification/Cache_Lru.thy ===== *)
theory Cache_Lru
  imports Cache_Level
begin

text \<open>
  The LRU policy against its textbook specification: each set is a stack of memory blocks, most
  recently used first, cut off at the number of ways.  The time stamps of the code implement the
  stacks as long as the 32-bit timer has not wrapped around.
\<close>

subsection \<open>The specification\<close>

definition lru_touch :: "nat \<Rightarrow> 'a \<Rightarrow> 'a list \<Rightarrow> 'a list" where
  "lru_touch ways b stack =
     (if b \<in> set stack then b # removeAll b stack else take ways (b # stack))"

text \<open>One access: whether it hits, and the stacks afterwards.\<close>

definition lru_access :: "nat \<Rightarrow> nat \<Rightarrow> nat list list \<Rightarrow> bool \<times> nat list list" where
  "lru_access ways b stacks =
     (let i = b mod length stacks
      in (b \<in> set (stacks ! i), stacks[i := lru_touch ways b (stacks ! i)]))"

subsection \<open>Time stamps and stacks\<close>

text \<open>\<open>is\<close> lists the positions of the valid lines by decreasing time stamp.\<close>

definition by_recency :: "nat \<Rightarrow> u32 \<Rightarrow> cache_set \<Rightarrow> nat list \<Rightarrow> bool" where
  "by_recency n timer s is \<longleftrightarrow>
     distinct is \<and> set is = {i. i < n \<and> valid (lines s ! i)} \<and>
     sorted_wrt (\<lambda>i j. last_used (lines s ! j) < last_used (lines s ! i)) is \<and>
     (\<forall>i\<in>set is. last_used (lines s ! i) \<le> timer)"

abbreviation tags_at :: "cache_set \<Rightarrow> nat list \<Rightarrow> u64 list" where
  "tags_at s is \<equiv> map (\<lambda>i. tag (lines s ! i)) is"

lemma set_tags_at: "by_recency n timer s is \<Longrightarrow> set (tags_at s is) = tags_in s n"
  by (auto simp: by_recency_def tags_in_def)

lemma by_recency_touch:
  assumes r: "by_recency n timer s is" and len: "length (lines s) = n" and i: "i < n"
    and now: "timer < now" and l: "valid l" "last_used l = now"
  shows "by_recency n now (replace_line s i l) (i # removeAll i is)"
    "tags_at (replace_line s i l) (i # removeAll i is) = tag l # tags_at s (removeAll i is)"
proof -
  let ?s = "replace_line s i l"
  have nth: "lines ?s ! j = (if j = i then l else lines s ! j)" if "j < n" for j
    using len i that by (simp add: nth_list_update)
  have inn: "j < n" if "j \<in> set is" for j using r that by (auto simp: by_recency_def)
  have same: "lines ?s ! j = lines s ! j" if "j \<in> set (removeAll i is)" for j
    using nth inn that by simp
  have lt: "last_used (lines s ! j) < now" if "j \<in> set is" for j
    using r now that unfolding by_recency_def by (meson le_less_trans)
  have "sorted_wrt (\<lambda>i j. last_used (lines s ! j) < last_used (lines s ! i)) (removeAll i is)"
    using r by (simp add: by_recency_def removeAll_filter_not_eq sorted_wrt_filter)
  then have "sorted_wrt (\<lambda>i j. last_used (lines ?s ! j) < last_used (lines ?s ! i)) (removeAll i is)"
    by (rule sorted_wrt_mono_rel [rotated]) (simp add: same)
  then have "sorted_wrt (\<lambda>i j. last_used (lines ?s ! j) < last_used (lines ?s ! i)) (i # removeAll i is)"
    using nth [OF i] l lt by (simp add: same)
  moreover have "\<forall>j\<in>set (i # removeAll i is). last_used (lines ?s ! j) \<le> now"
  proof
    fix j assume "j \<in> set (i # removeAll i is)"
    then show "last_used (lines ?s ! j) \<le> now"
      using nth [OF i] l lt [of j] same [of j] by (cases "j = i") (auto intro: less_imp_le)
  qed
  moreover have "set (i # removeAll i is) = {j. j < n \<and> valid (lines ?s ! j)}"
    using r i l nth by (auto simp: by_recency_def split: if_splits)
  moreover have "distinct (i # removeAll i is)"
    using r by (simp add: by_recency_def distinct_removeAll)
  ultimately show "by_recency n now ?s (i # removeAll i is)"
    unfolding by_recency_def by blast
  show "tags_at ?s (i # removeAll i is) = tag l # tags_at s (removeAll i is)"
    using nth [OF i] same by simp
qed

text \<open>The oldest line is the last of the stack.\<close>

lemma lru_victim_last:
  assumes r: "by_recency n timer s is" and "full s n" "0 < n"
  shows "is \<noteq> [] \<and> lru_victim s n = last is \<and> length is = n"
proof -
  have all: "set is = {0..<n}" using assms(1,2) by (auto simp: by_recency_def full_def)
  then have "is \<noteq> []" using assms(3) by auto
  then obtain js k where js: "is = js @ [k]" by (metis append_butlast_last_id)
  have old: "last_used (lines s ! k) < last_used (lines s ! j)" if "j \<in> set js" for j
    using r that by (simp add: js by_recency_def sorted_wrt_append)
  have "k \<in> set is" by (simp add: js)
  then have k: "k < n" using all by simp
  have v: "lru_victim s n \<in> set is" "last_used (lines s ! lru_victim s n) \<le> last_used (lines s ! k)"
    using lru_victim_spec [OF assms(3), where s = s] all js k by auto
  then have "lru_victim s n = k" using old [of "lru_victim s n"] js by (auto simp: not_less [symmetric])
  moreover have "length is = n" using all r by (metis by_recency_def card_atLeastLessThan diff_zero distinct_card)
  ultimately show ?thesis using js by simp
qed


lemma lru_touch_map:
  "inj f \<Longrightarrow> map f (lru_touch n t xs) = lru_touch n (f t) (map f xs)"
  using take_map [of n f "t # xs"]
  by (auto simp: lru_touch_def inj_image_mem_iff removeAll_filter_not_eq filter_map inj_eq o_def)

lemma tags_removeAll:
  assumes "by_recency n timer s is" "set_ok s n" "i < n" "valid (lines s ! i)" "tag (lines s ! i) = t"
  shows "tags_at s (removeAll i is) = removeAll t (tags_at s is)"
proof -
  have "inj_on (\<lambda>i. tag (lines s ! i)) (insert i (set is))"
    using assms by (intro inj_onI) (auto simp: by_recency_def set_ok_def)
  from map_removeAll_inj_on [OF this] assms(5) show ?thesis by simp
qed

text \<open>The set an access touches.\<close>

lemma access_stack:
  assumes ok: "level_ok c" and acc: "cache_access traces cur total_traces (g, c) = (g', c')"
    and lru: "policy g = ALG_LRU" and wrap: "global_timer g < global_timer g + 1"
    and a: "a = acc_addr (traces ! cur)" and idx: "idx = unat (set_index c a)"
    and n: "n = unat (associativity c)" and r: "by_recency n (global_timer g) (sets c ! idx) is"
  shows "\<exists>js. by_recency n (global_timer g + 1) (sets c' ! idx) js \<and>
    tags_at (sets c' ! idx) js = lru_touch n (tag_of c a) (tags_at (sets c ! idx) is)"
proof -
  let ?s = "sets c ! idx" and ?t = "tag_of c a" and ?now = "global_timer g + 1"
  have idx_len: "idx < length (sets c)" using ok set_index_bound idx by (simp add: level_ok_def)
  then have sok: "set_ok ?s n" using ok n by (simp add: level_ok_def)
  then have len: "length (lines ?s) = n" by (simp add: set_ok_def)
  have npos: "0 < n" using ok n by (simp add: level_ok_def geometry_ok_def word_less_nat_alt)
  note touch = by_recency_touch [OF r len _ wrap]
  note tags = set_tags_at [OF r]
  show ?thesis
    using acc refl a idx refl refl n
  proof (cases rule: cache_access_cases)
    case (hit i)
    then have mem: "?t \<in> set (tags_at ?s is)" unfolding tags by (force simp: tags_in_def)
    have "sets c' ! idx = replace_line ?s i ((lines ?s ! i)\<lparr>last_used := ?now\<rparr>)"
      using hit idx_len by (simp add: frame_simps)
    with hit touch [of i "(lines ?s ! i)\<lparr>last_used := ?now\<rparr>"] tags_removeAll [OF r sok hit(1-3)] mem
    show ?thesis by (intro exI [of _ "i # removeAll i is"]) (simp add: lru_touch_def)
  next
    case (fill i)
    let ?l = "(lines ?s ! i)\<lparr>valid := True, tag := ?t, last_used := ?now\<rparr>"
    have notin: "?t \<notin> set (tags_at ?s is)" unfolding tags by (rule fill(1))
    have i: "i \<notin> set is" using fill(3) r by (simp add: by_recency_def)
    then have "length is < n"
    proof -
      have "set is \<subset> {0..<n}" using r fill(2) i by (auto simp: by_recency_def)
      then have "card (set is) < card {0..<n}" by (intro psubset_card_mono) simp_all
      then show ?thesis using r distinct_card [of "is"] by (simp add: by_recency_def)
    qed
    moreover have "sets c' ! idx = replace_line ?s i ?l" using fill idx_len by (simp add: frame_simps)
    ultimately show ?thesis
      using touch [OF fill(2), of ?l] notin i
      by (intro exI [of _ "i # is"]) (simp add: lru_touch_def removeAll_id)
  next
    case evict
    let ?v = "lru_victim ?s n"
    let ?l = "(lines ?s ! ?v)\<lparr>tag := ?t, last_used := ?now\<rparr>"
    have notin: "?t \<notin> set (tags_at ?s is)" unfolding tags by (rule evict(1))
    from lru_victim_last [OF r evict(2) npos]
    have last: "is \<noteq> []" "?v = last is" "length is = n" by auto
    have v: "?v < n" using lru.in_range [OF npos] by simp
    then have valid: "valid ?l" using evict(2) by (simp add: full_def)
    have dist: "distinct is" using r by (simp add: by_recency_def)
    have "removeAll (last is) is = butlast is"
      using dist last(1) by (cases "is" rule: rev_cases) (auto simp: removeAll_id)
    then have "tags_at ?s (removeAll ?v is) = butlast (tags_at ?s is)"
      using last by (simp add: map_butlast)
    moreover have "sets c' ! idx = replace_line ?s ?v ?l"
      using evict idx_len lru n by (simp add: frame_simps victim_of_def)
    moreover have "take n (?t # tags_at ?s is) = ?t # butlast (tags_at ?s is)"
      using last npos by (cases n) (simp_all add: butlast_conv_take)
    ultimately show ?thesis
      using touch [OF v valid] notin
      by (intro exI [of _ "?v # removeAll ?v is"]) (simp add: lru_touch_def)
  qed
qed

subsection \<open>A whole level\<close>

text \<open>The memory block a line holds, from its tag and the set it is in.\<close>

abbreviation block_in :: "cache_level \<Rightarrow> nat \<Rightarrow> u64 \<Rightarrow> nat" where
  "block_in c i t \<equiv> unat t * unat (num_sets c) + i"

definition lru_rel :: "u32 \<Rightarrow> cache_level \<Rightarrow> nat list list \<Rightarrow> bool" where
  "lru_rel timer c stacks \<longleftrightarrow> level_ok c \<and> length stacks = length (sets c) \<and>
     (\<forall>i<length stacks. \<exists>is. by_recency (unat (associativity c)) timer (sets c ! i) is \<and>
        stacks ! i = map (block_in c i) (tags_at (sets c ! i) is))"

lemma by_recency_later: "by_recency n timer s is \<Longrightarrow> timer \<le> now \<Longrightarrow> by_recency n now s is"
  by (auto simp: by_recency_def intro: order.trans)

lemma lru_rel_later: "lru_rel timer c stacks \<Longrightarrow> timer \<le> now \<Longrightarrow> lru_rel now c stacks"
  unfolding lru_rel_def using by_recency_later by blast

lemma lru_access_step:
  assumes rel: "lru_rel (global_timer g) c stacks"
    and acc: "cache_access traces cur total_traces (g, c) = (g', c')"
    and lru: "policy g = ALG_LRU" and wrap: "global_timer g < global_timer g + 1"
    and a: "a = acc_addr (traces ! cur)"
    and ref: "lru_access (unat (associativity c)) (block_of c a) stacks = (hit, stacks')"
  shows "lru_rel (global_timer g') c' stacks'" "hit \<longleftrightarrow> resident c a"
proof -
  let ?n = "unat (associativity c)" and ?b = "block_of c a"
  define idx where "idx = unat (set_index c a)"
  have ok: "level_ok c" and len: "length stacks = length (sets c)"
    using rel by (simp_all add: lru_rel_def)
  then have geo: "geometry_ok c" by (simp add: level_ok_def)
  have nsets: "unat (num_sets c) = length (sets c)" "length (sets c) > 0"
    using geo set_index_bound [OF geo, of a] by (auto simp: geometry_ok_def)
  have i: "idx = ?b mod length stacks" "idx < length stacks"
    using set_index_block [OF geo, of a] nsets len by (simp_all add: idx_def)
  have b: "block_in c idx (tag_of c a) = ?b"
    using tag_of_block [OF geo, of a] nsets len i by simp
  have inj: "inj (block_in c idx)"
    using nsets by (intro injI) (simp add: word_unat_eq_iff)
  obtain "is" where r: "by_recency ?n (global_timer g) (sets c ! idx) is"
    and st: "stacks ! idx = map (block_in c idx) (tags_at (sets c ! idx) is)"
    using rel i by (auto simp: lru_rel_def)
  note e = access_effect [OF ok acc a idx_def refl]
  obtain js where js: "by_recency ?n (global_timer g + 1) (sets c' ! idx) js"
    "tags_at (sets c' ! idx) js = lru_touch ?n (tag_of c a) (tags_at (sets c ! idx) is)"
    using access_stack [OF ok acc lru wrap a idx_def refl r] by blast
  have res: "hit = (?b \<in> set (stacks ! idx))" "stacks' = stacks[idx := lru_touch ?n ?b (stacks ! idx)]"
    using ref i by (auto simp: lru_access_def Let_def)
  have "?b \<in> set (stacks ! idx) \<longleftrightarrow> tag_of c a \<in> set (tags_at (sets c ! idx) is)"
    unfolding st set_map [of "block_in c idx"] using inj_image_mem_iff [OF inj] b by metis
  then show "hit \<longleftrightarrow> resident c a"
    using res set_tags_at [OF r] by (simp add: resident_def idx_def)
  have touched: "lru_touch ?n ?b (stacks ! idx) = map (block_in c idx) (tags_at (sets c' ! idx) js)"
    unfolding st js(2) lru_touch_map [OF inj] b ..
  show "lru_rel (global_timer g') c' stacks'"
    unfolding lru_rel_def
  proof (intro conjI allI impI)
    show "level_ok c'" by (rule e(1))
    show "length stacks' = length (sets c')"
      using e(1,3) geo len res by (simp add: level_ok_def geometry_ok_def)
    fix k assume k: "k < length stacks'"
    show "\<exists>is. by_recency (unat (associativity c')) (global_timer g') (sets c' ! k) is \<and>
        stacks' ! k = map (block_in c' k) (tags_at (sets c' ! k) is)"
    proof (cases "k = idx")
      case True
      then show ?thesis using js(1) touched res i e(2-4) by (intro exI [of _ js]) simp
    next
      case False
      then obtain ks where "by_recency ?n (global_timer g) (sets c ! k) ks"
        "stacks ! k = map (block_in c k) (tags_at (sets c ! k) ks)"
        using rel k res by (auto simp: lru_rel_def)
      then show ?thesis
        using by_recency_later [of ?n "global_timer g" _ ks "global_timer g + 1"] wrap False res e(2-4,6)
        by (intro exI [of _ ks]) simp
    qed
  qed
qed

lemma lru_rel_fresh:
  assumes "geometry_ok c" "\<forall>s\<in>set (sets c). lines s = replicate (unat (associativity c)) empty_line"
  shows "lru_rel timer c (replicate (length (sets c)) [])"
proof -
  have "set_ok s (unat (associativity c)) \<and> by_recency (unat (associativity c)) timer s []"
    if "s \<in> set (sets c)" for s
    using assms(2) that by (auto simp: set_ok_def by_recency_def empty_line_def)
  then show ?thesis
    using assms(1) by (auto simp: lru_rel_def level_ok_def intro!: exI [of _ "[]"])
qed

subsection \<open>Properties\<close>

text \<open>
  Under the LRU policy an access implements the textbook one: it hits exactly when the block
  of the address is in the stack of its set, and afterwards the level stands for the stacks with
  that block moved to the top and, on a miss in a full set, the least recently used block dropped.
  The time stamps must not wrap: the timer is below its last value.
\<close>

lemma lru_access_refines:
  assumes "lru_rel (global_timer g) c stacks" and "policy g = ALG_LRU"
    and "global_timer g < global_timer g + 1"
    and "cache_access traces cur total_traces (g, c) = (g', c')"
    and "lru_access (unat (associativity c)) (block_of c (acc_addr (traces ! cur))) stacks = (hit, stacks')"
  shows "lru_rel (global_timer g') c' stacks' \<and>
    (if hit then hits c' = hits c + 1 \<and> misses c' = misses c
     else hits c' = hits c \<and> misses c' = misses c + 1)"
proof -
  have ok: "level_ok c" using assms(1) by (simp add: lru_rel_def)
  from lru_access_step [OF assms(1,4,2,3) refl assms(5)] access_effect(7) [OF ok assms(4) refl refl refl]
  show ?thesis by (auto split: if_splits)
qed

end
