(* ===== verification/Cache_Opt.thy ===== *)
theory Cache_Opt
  imports Cache_Level
begin

text \<open>
  The optimal policy against Belady's rule, which evicts the block whose next use is furthest away.
  The code looks for the next use of a line's tag, whatever set the access goes to; that is the
  next use of the line's block when the level has a single set, and need not be otherwise.
\<close>

subsection \<open>Belady's rule\<close>

text \<open>The next access to a block, as a position in the trace.\<close>

definition block_use :: "cache_level \<Rightarrow> mem_access list \<Rightarrow> nat \<Rightarrow> nat \<Rightarrow> nat \<Rightarrow> nat option" where
  "block_use c traces cur total_traces b =
     find (\<lambda>j. block_of c (acc_addr (traces ! j)) = b) [cur + 1..<total_traces]"

text \<open>The block that line \<open>i\<close> of set \<open>idx\<close> holds.\<close>

definition line_block :: "cache_level \<Rightarrow> nat \<Rightarrow> nat \<Rightarrow> nat" where
  "line_block c idx i = unat (tag (lines (sets c ! idx) ! i)) * unat (num_sets c) + idx"

text \<open>Line \<open>v\<close> is a line Belady's rule may evict.\<close>

definition belady :: "cache_level \<Rightarrow> nat \<Rightarrow> mem_access list \<Rightarrow> nat \<Rightarrow> nat \<Rightarrow> nat \<Rightarrow> bool" where
  "belady c idx traces cur total_traces v \<longleftrightarrow> v < unat (associativity c) \<and>
     (\<forall>i<unat (associativity c).
        later_use (block_use c traces cur total_traces (line_block c idx v))
                  (block_use c traces cur total_traces (line_block c idx i)))"

lemma one_set_use:
  assumes "geometry_ok c" "num_sets c = 1"
  shows "next_use c traces cur total_traces t = block_use c traces cur total_traces (unat t)"
proof -
  have "tag_of c a = t \<longleftrightarrow> block_of c a = unat t" for a
    using tag_of_block [OF assms(1), of a] assms(2) by (auto simp: word_unat_eq_iff)
  then show ?thesis by (simp add: next_use_def block_use_def)
qed

text \<open>
  In a level with a single set the optimal policy is Belady's: the line it selects is one
  whose block is used again no earlier than the block of any other line, or never.
\<close>

lemma optimal_victim_belady:
  assumes "geometry_ok c" and "num_sets c = 1"
  shows "belady c 0 traces cur total_traces
    (find_optimal_victim c (sets c ! 0) traces cur total_traces)"
proof -
  let ?n = "unat (associativity c)" and ?u = "next_use c traces cur total_traces"
  have n: "0 < ?n" using assms(1) by (simp add: geometry_ok_def word_less_nat_alt)
  have "unat (num_sets c) = 1" using assms(2) by simp
  then show ?thesis
    unfolding belady_def find_optimal_victim_def line_block_def
    using opt.in_range [OF n, of ?u "sets c ! 0"] opt.best [of _ ?n ?u "sets c ! 0"]
    by (simp add: one_set_use [OF assms])
qed

subsection \<open>Levels with several sets\<close>

text \<open>The block of a cached address in every set: the address with the same tag and another index.\<close>

lemma address_in_set:
  assumes "geometry_ok c" "j < unat (num_sets c)"
  shows "\<exists>a'. tag_of c a' = tag_of c a \<and> block_of c a' = unat (tag_of c a) * unat (num_sets c) + j"
proof -
  let ?N = "unat (num_sets c)" and ?L = "unat (cl_line_size c)" and ?q = "unat (tag_of c a)"
  let ?x = "(?q * ?N + j) * ?L"
  obtain k b where kb: "k + b < 32" "?N = 2 ^ k" "?L = 2 ^ b"
    by (rule shifts_of [OF assms(1)]) (simp add: unat_two_power)
  have q: "?q = unat a div 2 ^ (k + b)"
    using tag_of_block [OF assms(1), of a] kb by (simp add: block_of_def power_add mult.commute flip: div_mult2_eq)
  have d: "(2::nat) ^ 64 = 2 ^ (k + b) * 2 ^ (64 - (k + b))" using kb(1) by (simp flip: power_add)
  have "unat a < 2 ^ 64" using unsigned_less [of a] by simp
  then have "?q < 2 ^ (64 - (k + b))" unfolding q d by (simp add: less_mult_imp_div_less mult.commute)
  then have m: "2 ^ (k + b) * (?q + 1) \<le> (2::nat) ^ 64" unfolding d by (intro mult_le_mono2) simp
  have "?x < (?q * ?N + ?N) * ?L" using assms(2) kb by simp
  also have "(?q * ?N + ?N) * ?L = 2 ^ (k + b) * (?q + 1)" using kb by (simp add: algebra_simps power_add)
  also note m
  finally have x: "?x < 2 ^ 64" .
  let ?a = "of_nat ?x :: u64"
  have "unat ?a = ?x" using x by (simp add: unat_of_nat take_bit_nat_eq_self del: of_nat_mult of_nat_add)
  then have b: "block_of c ?a = ?q * ?N + j" using kb(3) by (simp add: block_of_def)
  have "unat (tag_of c ?a) = ?q" using tag_of_block [OF assms(1), of ?a] b assms(2) by simp
  then show ?thesis using b by (intro exI [of _ ?a]) (simp add: word_unat_eq_iff)
qed

lemma find_upt:
  assumes "a \<le> j" "j < b" "P j"
  obtains i where "find P [a..<b] = Some i" "a \<le> i" "i \<le> j" "P i"
proof (cases "find P [a..<b]")
  case None
  then show thesis using assms by (auto simp: find_None_iff)
next
  case (Some i)
  then obtain k where k: "k < b - a" "P (a + k)" "i = a + k" "\<And>l. l < k \<Longrightarrow> \<not> P (a + l)"
    by (auto simp: find_Some_iff)
  have "i \<le> j" using k(4) [of "j - a"] k(3) assms by (cases "j - a < k") auto
  then show thesis using that Some k by simp
qed

text \<open>
  A future on which the policy goes wrong: the tags of all lines but one occur in another set, then the
  remaining line's block itself is used.
\<close>

definition misleading :: "(nat \<Rightarrow> nat \<Rightarrow> u64) \<Rightarrow> nat \<Rightarrow> nat \<Rightarrow> nat \<Rightarrow> nat \<Rightarrow> nat \<Rightarrow> mem_access list" where
  "misleading addr n idx other v w =
     map (\<lambda>k. \<lparr>acc_addr = addr (if k = v then w else k) other, acc_type = 0\<rparr>) [0..<n] @
     [\<lparr>acc_addr = addr v idx, acc_type = 0\<rparr>]"

lemma misleading_nth:
  "length (misleading addr n idx other v w) = Suc n"
  "k < n \<Longrightarrow> acc_addr (misleading addr n idx other v w ! k) = addr (if k = v then w else k) other"
  "acc_addr (misleading addr n idx other v w ! n) = addr v idx"
  by (simp_all add: misleading_def nth_append)

lemma misleading_victim:
  assumes c: "geometry_ok c" "n = unat (associativity c)" and v: "v < n" "w < n" "w \<noteq> v"
    and s: "set_ok s n" "full s n"
    and tg: "\<forall>k<n. \<forall>j<unat (num_sets c). tag_of c (addr k j) = tag (lines s ! k)"
    and i: "idx < unat (num_sets c)" "other < unat (num_sets c)"
    and t: "t = pre @ misleading addr n idx other v w" "pre \<noteq> []"
  shows "find_optimal_victim c s t (length pre - 1) (length t) = v"
proof -
  let ?u = "\<lambda>k. next_use c t (length pre - 1) (length t) (tag (lines s ! k))"
  let ?P = "\<lambda>x j. tag_of c (acc_addr (t ! j)) = tag (lines s ! x)"
  have len: "[length pre - 1 + 1..<length t] = [length pre..<length pre + Suc n]"
    using t by (simp add: misleading_nth(1) del: upt_Suc)
  have u: "?u x = find (?P x) [length pre..<length pre + Suc n]" for x by (simp only: next_use_def len)
  have at: "?P x (length pre + k) \<longleftrightarrow> (if k < n then (if k = v then w else k) else v) = x" if "k \<le> n" "x < n" for k x
  proof -
    let ?y = "if k < n then (if k = v then w else k) else v"
    have "?y < n" using v that by simp
    moreover have "tag_of c (acc_addr (t ! (length pre + k))) = tag (lines s ! ?y)"
      using that v i tg by (cases "k < n") (simp_all add: t(1) misleading_nth)
    ultimately show ?thesis using s that(2) by (auto simp: set_ok_def full_def)
  qed
  have last: "?u v = Some (length pre + n)"
  proof -
    obtain j where j: "?u v = Some j" "length pre \<le> j" "j \<le> length pre + n" "?P v j"
      using find_upt [of "length pre" "length pre + n" "length pre + Suc n" "?P v"] at [of n v] v(1) u by auto
    obtain m where m: "j = length pre + m" using j(2) le_Suc_ex by blast
    then have "j = length pre + n" using at [of m v] v j(3,4) by (auto split: if_splits)
    then show ?thesis using j(1) by simp
  qed
  have before: "\<exists>j<length pre + n. ?u x = Some j" if x: "x < n" "x \<noteq> v" for x
  proof -
    obtain j where "?u x = Some j" "j \<le> length pre + x"
      using find_upt [of "length pre" "length pre + x" "length pre + Suc n" "?P x"] at [of x x] x u by auto
    then show ?thesis using x(1) by (intro exI [of _ j]) simp
  qed
  let ?v = "find_optimal_victim c s t (length pre - 1) (length t)"
  have l: "later_use (?u ?v) (?u v)" "?v < n"
    using opt.best [of v n "next_use c t (length pre - 1) (length t)" s]
      opt.in_range [of n "next_use c t (length pre - 1) (length t)" s] v(1) c(2)
    by (simp_all add: find_optimal_victim_def)
  show ?thesis
  proof (rule ccontr)
    assume "?v \<noteq> v"
    from before [OF l(2) this] obtain j where j: "j < length pre + n" "?u ?v = Some j" by blast
    have "later_use (Some j) (Some (length pre + n))" using l(1) unfolding last j(2) .
    then show False using j(1) by (simp add: later_use_def)
  qed
qed

lemma misleading_uses:
  assumes c: "geometry_ok c" and v: "v < n" "w < n"
    and bl: "\<forall>k<n. \<forall>j<unat (num_sets c).
      block_of c (addr k j) = unat (tag (lines (sets c ! idx) ! k)) * unat (num_sets c) + j"
    and i: "idx < unat (num_sets c)" "other < unat (num_sets c)" "other \<noteq> idx"
    and t: "t = pre @ misleading addr n idx other v w" "pre \<noteq> []"
  shows "block_use c t (length pre - 1) (length t) (line_block c idx v) = Some (length pre + n)"
    "x < n \<Longrightarrow> tag (lines (sets c ! idx) ! x) \<noteq> tag (lines (sets c ! idx) ! v) \<Longrightarrow>
       block_use c t (length pre - 1) (length t) (line_block c idx x) = None"
proof -
  let ?N = "unat (num_sets c)" and ?tag = "\<lambda>k. unat (tag (lines (sets c ! idx) ! k))"
  have len: "[length pre - 1 + 1..<length t] = [length pre..<length pre + Suc n]"
    using t by (simp add: misleading_nth(1) del: upt_Suc)
  have u: "block_use c t (length pre - 1) (length t) b = find (\<lambda>j. block_of c (acc_addr (t ! j)) = b) [length pre..<length pre + Suc n]" for b
    by (simp only: block_use_def len)
  have early: "block_of c (acc_addr (t ! (length pre + k))) \<noteq> line_block c idx x" if "k < n" for k x
  proof -
    have "block_of c (acc_addr (t ! (length pre + k))) mod ?N = other"
      using that v i(2) bl by (simp add: t(1) misleading_nth)
    moreover have "line_block c idx x mod ?N = idx" using i(1) by (simp add: line_block_def)
    ultimately show ?thesis using i(3) by metis
  qed
  have final: "block_of c (acc_addr (t ! (length pre + n))) = line_block c idx v"
    using v(1) i(1) bl by (simp add: t(1) misleading_nth line_block_def)
  obtain j where j: "block_use c t (length pre - 1) (length t) (line_block c idx v) = Some j" "length pre \<le> j"
    "j \<le> length pre + n" "block_of c (acc_addr (t ! j)) = line_block c idx v"
    using find_upt [of "length pre" "length pre + n" "length pre + Suc n" "\<lambda>j. block_of c (acc_addr (t ! j)) = line_block c idx v"] final u
    by auto
  obtain m where m: "j = length pre + m" using j(2) le_Suc_ex by blast
  then have "j = length pre + n" using early [of m v] j(3,4) by (cases "m < n") auto
  then show "block_use c t (length pre - 1) (length t) (line_block c idx v) = Some (length pre + n)" using j(1) by simp
  assume x: "x < n" "tag (lines (sets c ! idx) ! x) \<noteq> tag (lines (sets c ! idx) ! v)"
  have ne: "line_block c idx v \<noteq> line_block c idx x" using x(2) i(1) by (simp add: line_block_def word_unat_eq_iff)
  have no: "block_of c (acc_addr (t ! j)) \<noteq> line_block c idx x" if j: "length pre \<le> j" "j < length pre + Suc n" for j
  proof -
    obtain m where m: "j = length pre + m" using j(1) le_Suc_ex by blast
    show ?thesis
    proof (cases "m < n")
      case True
      then show ?thesis unfolding m by (rule early)
    next
      case False
      then have "m = n" using j(2) m by simp
      then show ?thesis unfolding m using final ne by metis
    qed
  qed
  show "block_use c t (length pre - 1) (length t) (line_block c idx x) = None"
    unfolding u find_None_iff set_upt atLeastLessThan_iff using no by blast
qed

subsection \<open>Properties\<close>

text \<open>
  C40.  With more than one set the policy is not optimal, because it compares tags and ignores the set index:
  whatever the past of a trace, for every full set of a level with several sets and every one of its lines,
  there is a continuation on which the policy evicts this line, whose block is used again, although no other
  block of the set ever is.
\<close>

theorem optimal_victim_ignores_set:
  assumes "level_ok c" and "1 < unat (num_sets c)" and "1 < unat (associativity c)"
    and "idx < unat (num_sets c)" and "full (sets c ! idx) (unat (associativity c))"
    and "\<forall>k<unat (associativity c). \<exists>a. tag (lines (sets c ! idx) ! k) = tag_of c a"
    and "v < unat (associativity c)" and "pre \<noteq> []"
  shows "\<exists>fut. find_optimal_victim c (sets c ! idx) (pre @ fut) (length pre - 1) (length (pre @ fut)) = v \<and>
    block_use c (pre @ fut) (length pre - 1) (length (pre @ fut)) (line_block c idx v) \<noteq> None \<and>
    (\<forall>k<unat (associativity c). k \<noteq> v \<longrightarrow>
       block_use c (pre @ fut) (length pre - 1) (length (pre @ fut)) (line_block c idx k) = None) \<and>
    \<not> belady c idx (pre @ fut) (length pre - 1) (length (pre @ fut)) v"
proof -
  let ?n = "unat (associativity c)" and ?N = "unat (num_sets c)" and ?s = "sets c ! idx"
  have g: "geometry_ok c" and s: "set_ok ?s ?n"
    using assms(1,4) by (simp_all add: level_ok_def geometry_ok_def)
  have "\<exists>a. tag_of c a = tag (lines ?s ! k) \<and> block_of c a = unat (tag (lines ?s ! k)) * ?N + j"
    if k: "k < ?n" "j < ?N" for k j
  proof -
    obtain a where a: "tag (lines ?s ! k) = tag_of c a" using assms(6) k(1) by blast
    show ?thesis using address_in_set [OF g k(2), of a] unfolding a by simp
  qed
  then obtain addr where addr: "\<forall>k<?n. \<forall>j<?N. tag_of c (addr k j) = tag (lines ?s ! k)"
    "\<forall>k<?n. \<forall>j<?N. block_of c (addr k j) = unat (tag (lines ?s ! k)) * ?N + j"
    by metis
  define w where "w = (if v = 0 then 1 else 0 :: nat)"
  define other where "other = (if idx = 0 then 1 else 0 :: nat)"
  define fut where "fut = misleading addr ?n idx other v w"
  have w: "w < ?n" "w \<noteq> v" "other < ?N" "other \<noteq> idx"
    using assms(2,3) by (simp_all add: w_def other_def)
  have tr: "pre @ fut = pre @ misleading addr ?n idx other v w" by (simp add: fut_def)
  have vic: "find_optimal_victim c ?s (pre @ fut) (length pre - 1) (length (pre @ fut)) = v"
    by (rule misleading_victim [OF g refl assms(7) w(1,2) s assms(5) addr(1) assms(4) w(3) tr assms(8)])
  note uses = misleading_uses [OF g assms(7) w(1) addr(2) assms(4) w(3,4) tr assms(8)]
  have nv: "block_use c (pre @ fut) (length pre - 1) (length (pre @ fut)) (line_block c idx k) = None"
    if k: "k < ?n" "k \<noteq> v" for k
  proof -
    have "tag (lines ?s ! k) \<noteq> tag (lines ?s ! v)" using s assms(5,7) k by (auto simp: set_ok_def full_def)
    then show ?thesis by (rule uses(2) [OF k(1)])
  qed
  have "\<not> belady c idx (pre @ fut) (length pre - 1) (length (pre @ fut)) v"
    using uses(1) nv [OF w(1,2)] w(1) by (auto simp: belady_def later_use_def)
  then show ?thesis using vic uses(1) nv by (intro exI [of _ fut]) simp
qed

text \<open>Two sets of two lines; set 0 holds tag 1 and tag 2, as after accesses to 32 and 64.\<close>

abbreviation two_set_level :: cache_level where
  "two_set_level \<equiv> \<lparr>cl_size = 64, associativity = 2, cl_line_size = 16, num_sets = 2,
     sets = [\<lparr>lines = [\<lparr>tag = 1, valid = True, last_used = 1\<rparr>, \<lparr>tag = 2, valid = True, last_used = 2\<rparr>]\<rparr>,
             \<lparr>lines = [empty_line, empty_line]\<rparr>],
     hits = 0, misses = 2\<rparr>"

definition three_accesses :: "mem_access list" where
  "three_accesses = map (\<lambda>a. \<lparr>acc_addr = a, acc_type = 0\<rparr>) [32, 64, 96]"

theorem optimal_victim_ignores_set_witness:
  "\<exists>fut. find_optimal_victim two_set_level (sets two_set_level ! 0) (three_accesses @ fut) 2 (length (three_accesses @ fut)) = 0 \<and>
     \<not> belady two_set_level 0 (three_accesses @ fut) 2 (length (three_accesses @ fut)) 0"
proof -
  have ok: "level_ok two_set_level" and f: "full (sets two_set_level ! 0) (unat (associativity two_set_level))"
    by (auto simp: level_ok_def geometry_ok_def is_power_of_two_def set_ok_def full_def empty_line_def less_2_cases_iff)
  have bits: "offset_bits two_set_level = 4" "index_bits two_set_level = 1"
    using fast_log2_power [of 4] fast_log2_power [of 1] by (simp_all add: offset_bits_def index_bits_def)
  have t: "\<forall>k<unat (associativity two_set_level). \<exists>a. tag (lines (sets two_set_level ! 0) ! k) = tag_of two_set_level a"
  proof (intro allI impI)
    fix k assume "k < unat (associativity two_set_level)"
    then have "tag (lines (sets two_set_level ! 0) ! k) = tag_of two_set_level (if k = 0 then 32 else 64)"
      by (auto simp: tag_of_def bits less_2_cases_iff)
    then show "\<exists>a. tag (lines (sets two_set_level ! 0) ! k) = tag_of two_set_level a" by blast
  qed
  have l: "length three_accesses - 1 = 2" "three_accesses \<noteq> []" by (simp_all add: three_accesses_def)
  have n: "1 < unat (num_sets two_set_level)" "1 < unat (associativity two_set_level)"
    "0 < unat (num_sets two_set_level)" "0 < unat (associativity two_set_level)" by simp_all
  show ?thesis
    using optimal_victim_ignores_set [OF ok n(1,2,3) f t n(4) l(2)] unfolding l(1) by blast
qed

end
