(* ===== verification/Cache_Run.thy ===== *)
theory Cache_Run
  imports Cache_Lru Cache_Opt Trace_Collector
begin

text \<open>
  The simulator's run (\<open>load_traces\<close> and \<open>run_cache_sim\<close> in \<open>userspace/src/cache_simulator.c\<close>):
  the trace is read from the collector in batches into a growing array, and every access goes down
  the levels until one hits.  Whether an allocation or the opening of the device succeeds is an
  argument; printing is the returned report, whose percentages are quotients of its numbers.
\<close>

subsection \<open>Loading the trace\<close>

abbreviation (input) READ_BATCH_SIZE :: nat where "READ_BATCH_SIZE \<equiv> 256"
abbreviation (input) INITIAL_TRACE_CAPACITY :: nat where "INITIAL_TRACE_CAPACITY \<equiv> 1024"

text \<open>How the read loop ends; \<open>Overrun\<close> would be a copy past the end of the array.\<close>

datatype load_end = Drained | Read_error | No_memory | Overrun

partial_function (option) load_loop ::
    "(nat \<Rightarrow> 'd \<Rightarrow> 'd \<times> status \<times> mem_access list) \<Rightarrow> (nat \<Rightarrow> bool) \<Rightarrow> nat \<Rightarrow> mem_access list \<Rightarrow> 'd \<Rightarrow>
      ('d \<times> mem_access list \<times> nat \<times> load_end) option" where
  "load_loop read_fd realloc_ok capacity traces d =
    (case read_fd READ_BATCH_SIZE d of
       (d', bytes_read, buffer) \<Rightarrow>
         (if bytes_read > 0 then
            (let entries = nat bytes_read div sizeof_mem_access
             in if length traces + entries > capacity then
                  (let capacity' = capacity * 2
                   in if \<not> realloc_ok capacity' then Some (d', traces, capacity', No_memory)
                      else if length traces + entries > capacity' then
                        Some (d', traces, capacity', Overrun)
                      else load_loop read_fd realloc_ok capacity' (traces @ take entries buffer) d')
                else load_loop read_fd realloc_ok capacity (traces @ take entries buffer) d')
          else Some (d', traces, capacity, if bytes_read < 0 then Read_error else Drained)))"

text \<open>
  The array (\<open>None\<close> for a null pointer), the count stored through \<open>out_count\<close>, and how the loop
  ended.  Shrinking the array at the end keeps its contents whether it succeeds or not.
\<close>

definition load_traces ::
    "(nat \<Rightarrow> 'd \<Rightarrow> 'd \<times> status \<times> mem_access list) \<Rightarrow> bool \<Rightarrow> bool \<Rightarrow> (nat \<Rightarrow> bool) \<Rightarrow> 'd \<Rightarrow>
      ('d \<times> mem_access list option \<times> nat \<times> load_end option) option" where
  "load_traces read_fd malloc_ok open_ok realloc_ok d =
    (if \<not> malloc_ok then Some (d, None, 0, None)
     else if \<not> open_ok then Some (d, None, 0, None)
     else
       (case load_loop read_fd realloc_ok INITIAL_TRACE_CAPACITY [] d of
          None \<Rightarrow> None
        | Some (d', traces, capacity, ending) \<Rightarrow> Some (d', Some traces, length traces, Some ending)))"

subsection \<open>The simulation\<close>

record hierarchy =
  l1 :: cache_level
  l2 :: cache_level
  l3 :: cache_level

text \<open>
  The body of the loop.  The hit counter is kept in a 32-bit variable before the access and
  compared with the 64-bit counter after it.
\<close>

definition simulate_access ::
    "mem_access list \<Rightarrow> nat \<Rightarrow> nat \<Rightarrow> sim_globals \<times> hierarchy \<Rightarrow> sim_globals \<times> hierarchy" where
  "simulate_access traces total_traces i st =
    (case st of (g, h) \<Rightarrow>
      (let l1_hits_before = (ucast (hits (l1 h)) :: u32)
       in case cache_access traces i total_traces (g, l1 h) of
         (g1, c1) \<Rightarrow>
           (if num_lvls g1 > 1 \<and> hits c1 = ucast l1_hits_before then
              (let l2_hits_before = (ucast (hits (l2 h)) :: u32)
               in case cache_access traces i total_traces (g1, l2 h) of
                 (g2, c2) \<Rightarrow>
                   (if num_lvls g2 > 2 \<and> hits c2 = ucast l2_hits_before then
                      (case cache_access traces i total_traces (g2, l3 h) of
                         (g3, c3) \<Rightarrow> (g3, h\<lparr>l1 := c1, l2 := c2, l3 := c3\<rparr>))
                    else (g2, h\<lparr>l1 := c1, l2 := c2\<rparr>)))
            else (g1, h\<lparr>l1 := c1\<rparr>))))"

definition simulate ::
    "mem_access list \<Rightarrow> nat \<Rightarrow> sim_globals \<times> hierarchy \<Rightarrow> sim_globals \<times> hierarchy" where
  "simulate traces total_traces st = fold (simulate_access traces total_traces) [0..<total_traces] st"

text \<open>The levels the configuration asks for; the return values of \<open>cache_init\<close> are ignored.\<close>

definition init_levels :: "sim_globals \<Rightarrow> hierarchy \<Rightarrow> hierarchy" where
  "init_levels g h =
    (let h1 = h\<lparr>l1 := fst (cache_init g 1 (l1 h))\<rparr>;
         h2 = (if num_lvls g > 1 then h1\<lparr>l2 := fst (cache_init g 2 (l2 h1))\<rparr> else h1)
     in if num_lvls g > 2 then h2\<lparr>l3 := fst (cache_init g 3 (l3 h2))\<rparr> else h2)"

record sim_report =
  rep_total :: nat
  rep_reads :: nat
  rep_writes :: nat
  rep_levels :: "(u64 \<times> u64) list"
  RAM_visits :: u64

definition make_report :: "mem_access list \<Rightarrow> nat \<Rightarrow> sim_globals \<Rightarrow> hierarchy \<Rightarrow> sim_report" where
  "make_report traces total_traces g h =
    (let num_reads = length (filter (\<lambda>i. acc_type (traces ! i) = 0) [0..<total_traces])
     in \<lparr>rep_total = total_traces, rep_reads = num_reads, rep_writes = total_traces - num_reads,
         rep_levels = [(hits (l1 h), misses (l1 h))] @
           (if num_lvls g > 1 then [(hits (l2 h), misses (l2 h))] else []) @
           (if num_lvls g > 2 then [(hits (l3 h), misses (l3 h))] else []),
         RAM_visits = (if num_lvls g = 1 then misses (l1 h)
                       else if num_lvls g = 2 then misses (l2 h) else misses (l3 h))\<rparr>)"

text \<open>
  \<open>input\<close> is what the user types and \<open>stack\<close> the uninitialised levels; no report when there is
  nothing to simulate.
\<close>

definition run_cache_sim ::
    "(nat \<Rightarrow> 'd \<Rightarrow> 'd \<times> status \<times> mem_access list) \<Rightarrow> bool \<Rightarrow> bool \<Rightarrow> (nat \<Rightarrow> bool) \<Rightarrow> u32 \<Rightarrow> hierarchy \<Rightarrow>
      u32 option list \<Rightarrow> 'd \<Rightarrow> ('d \<times> sim_report option) option" where
  "run_cache_sim read_fd malloc_ok open_ok realloc_ok junk stack input d =
    (case configure_cache_sim_parameters junk initial_globals input of
       None \<Rightarrow> None
     | Some (g, rest) \<Rightarrow>
         (case load_traces read_fd malloc_ok open_ok realloc_ok d of
            None \<Rightarrow> None
          | Some (d', traces, total_traces, _) \<Rightarrow>
              (case traces of
                 None \<Rightarrow> Some (d', None)
               | Some ts \<Rightarrow>
                   (if total_traces = 0 then Some (d', None)
                    else
                      (case simulate ts total_traces (g, init_levels g stack) of
                         (g', h) \<Rightarrow> Some (d', Some (make_report ts total_traces g' h)))))))"


subsection \<open>The load loop on a device that keeps its contract\<close>

context trace_device
begin

text \<open>It ends, has copied the front of the queue in order, and has never left the array.\<close>

lemma load_loop_ends:
  assumes "ok d" "length traces \<le> capacity" "READ_BATCH_SIZE \<le> capacity"
  shows "\<exists>d' es lost capacity' ending.
    load_loop get realloc_ok capacity traces d = Some (d', traces @ es, capacity', ending) \<and>
    ok d' \<and> queue d = es @ lost @ queue d' \<and> length lost \<le> READ_BATCH_SIZE \<and>
    (ending = Drained \<and> lost = [] \<and> queue d' = [] \<and> length traces + length es \<le> capacity' \<or>
     ending = No_memory \<and> lost \<noteq> [] \<and> \<not> realloc_ok capacity')"
  using assms
proof (induction "length (queue d)" arbitrary: d traces capacity rule: less_induct)
  case less
  let ?es = "take READ_BATCH_SIZE (queue d)"
  obtain d1 st es where g: "get READ_BATCH_SIZE d = (d1, st, es)" using prod_cases3 by blast
  have r: "ok d1" "es = ?es" "queue d1 = drop READ_BATCH_SIZE (queue d)" "st = int (length es * 16)"
    using get [OF less.prems(1) _ g] by auto
  have split: "queue d = es @ queue d1" and len: "length es \<le> READ_BATCH_SIZE"
    using r by simp_all
  show ?case
  proof (cases "es = []")
    case True
    then have "queue d = []" "st = 0" using r by auto
    with less.prems g r True show ?thesis
      by (simp add: load_loop.simps [of get realloc_ok capacity traces d])
  next
    case False
    then have pos: "st > 0" and n: "nat st div sizeof_mem_access = length es"
      using r(4) by simp_all
    have shorter: "length (queue d1) < length (queue d)" using split False by simp
    have step: "\<exists>d' es lost capacity' ending.
        load_loop get realloc_ok capacity traces d = Some (d', traces @ es, capacity', ending) \<and>
        ok d' \<and> queue d = es @ lost @ queue d' \<and> length lost \<le> READ_BATCH_SIZE \<and>
        (ending = Drained \<and> lost = [] \<and> queue d' = [] \<and> length traces + length es \<le> capacity' \<or>
         ending = No_memory \<and> lost \<noteq> [] \<and> \<not> realloc_ok capacity')"
      if "load_loop get realloc_ok capacity traces d = load_loop get realloc_ok cap (traces @ es) d1"
        and "length traces + length es \<le> cap" "READ_BATCH_SIZE \<le> cap" for cap
      using less.hyps [OF shorter r(1), of "traces @ es" cap] that split by fastforce
    show ?thesis
    proof (cases "length traces + length es > capacity")
      case fits: False
      then show ?thesis
        using g pos n less.prems
        by (intro step [of capacity]) (simp_all add: load_loop.simps [of get realloc_ok capacity traces d])
    next
      case grow: True
      show ?thesis
      proof (cases "realloc_ok (capacity * 2)")
        case True
        then show ?thesis
          using g pos n less.prems grow len
          by (intro step [of "capacity * 2"])
            (simp_all add: load_loop.simps [of get realloc_ok capacity traces d] Let_def)
      next
        case nomem: False
        then have "load_loop get realloc_ok capacity traces d = Some (d1, traces, capacity * 2, No_memory)"
          using g pos n grow by (simp add: load_loop.simps [of get realloc_ok capacity traces d] Let_def)
        with nomem r(1) split len False show ?thesis
          by (intro exI [of _ d1] exI [of _ "[]"] exI [of _ es] exI [of _ "capacity * 2"]
              exI [of _ No_memory]) simp
      qed
    qed
  qed
qed

end

subsection \<open>Properties\<close>

text \<open>
  C32.  Loading the trace from the collector always ends and never writes past the array.  It returns
  the recorded accesses not read before, all of them and in order, unless the array cannot grow;
  then it returns a prefix, the count is its length, and the batch that did not fit, at most 256
  entries, has left the device and is lost.
\<close>

theorem load_traces_all:
  assumes "buffer_ok tb"
  shows "\<exists>tb' traces lost ending.
    load_traces (\<lambda>n. trace_read (n * sizeof_mem_access) (\<lambda>_. True)) True True realloc_ok tb =
      Some (tb', Some traces, length traces, Some ending) \<and>
    buffer_ok tb' \<and> pending tb = traces @ lost @ pending tb' \<and> length lost \<le> READ_BATCH_SIZE \<and>
    (ending = Drained \<and> lost = [] \<and> pending tb' = [] \<or>
     ending = No_memory \<and> lost \<noteq> [] \<and> (\<exists>capacity. \<not> realloc_ok capacity))"
proof -
  from collector.load_loop_ends [OF assms, of "[]" INITIAL_TRACE_CAPACITY realloc_ok]
  obtain tb' es lost cap ending where
    "load_loop (\<lambda>n. trace_read (n * sizeof_mem_access) (\<lambda>_. True)) realloc_ok INITIAL_TRACE_CAPACITY [] tb =
       Some (tb', es, cap, ending)"
    "buffer_ok tb'" "pending tb = es @ lost @ pending tb'" "length lost \<le> READ_BATCH_SIZE"
    "ending = Drained \<and> lost = [] \<and> pending tb' = [] \<or>
     ending = No_memory \<and> lost \<noteq> [] \<and> \<not> realloc_ok cap" by auto
  then show ?thesis by (auto simp: load_traces_def)
qed

theorem load_traces_all_witness:
  "\<exists>tb tb'. pending tb = [\<lparr>acc_addr = 5, acc_type = 1\<rparr>] \<and>
     load_traces (\<lambda>n. trace_read (n * sizeof_mem_access) (\<lambda>_. True)) True True (\<lambda>_. True) tb =
       Some (tb', Some [\<lparr>acc_addr = 5, acc_type = 1\<rparr>], 1, Some Drained)"
proof -
  obtain tb st where w: "trace_write 16 (Some \<lparr>acc_addr = 5, acc_type = 1\<rparr>)
      (Some (\<lambda>_. \<lparr>acc_addr = 0, acc_type = 0\<rparr>)) trace_buffer_init = (tb, st)" by fastforce
  then have "\<not> st < 0"
    by (simp add: trace_write_def trace_buffer_push_def trace_buffer_init_def needs_chunk_def)
  with write_history [OF buffer_ok_init(1) w]
  have tb: "buffer_ok tb" "pending tb = [\<lparr>acc_addr = 5, acc_type = 1\<rparr>]" by (simp_all add: buffer_ok_init)
  with load_traces_all [OF tb(1), of "\<lambda>_. True"]
  obtain tb' where "load_traces (\<lambda>n. trace_read (n * sizeof_mem_access) (\<lambda>_. True)) True True
      (\<lambda>_. True) tb = Some (tb', Some [\<lparr>acc_addr = 5, acc_type = 1\<rparr>], 1, Some Drained)" by force
  with tb(2) show ?thesis by blast
qed


subsection \<open>The levels as a list\<close>

text \<open>The loop body without the unrolling: an access goes down the list until a level hits.\<close>

fun access_levels ::
    "mem_access list \<Rightarrow> nat \<Rightarrow> nat \<Rightarrow> sim_globals \<Rightarrow> cache_level list \<Rightarrow> sim_globals \<times> cache_level list" where
  "access_levels traces total_traces i g [] = (g, [])"
| "access_levels traces total_traces i g (c # cs) =
    (case cache_access traces i total_traces (g, c) of
       (g1, c1) \<Rightarrow>
         (if hits c1 = hits c then
            (case access_levels traces total_traces i g1 cs of (g2, cs2) \<Rightarrow> (g2, c1 # cs2))
          else (g1, c1 # cs)))"

definition levels_of :: "sim_globals \<Rightarrow> hierarchy \<Rightarrow> cache_level list" where
  "levels_of g h = take (unat (num_lvls g)) [l1 h, l2 h, l3 h]"

lemma ucast_before: "unat h < 2 ^ 32 \<Longrightarrow> (ucast (ucast h :: u32) :: u64) = h"
  by (simp add: word_unat_eq_iff unsigned_ucast_eq unsigned_take_bit_eq take_bit_nat_eq_self_iff)

lemma cache_access_globals:
  "cache_access traces cur total_traces (g, c) = (g', c') \<Longrightarrow> g' = g\<lparr>global_timer := global_timer g + 1\<rparr>"
  by (auto simp: cache_access_def Let_def split: option.splits)

lemma num_lvls_cases:
  assumes "is_valid_num_lvls n x"
  shows "n = 1 \<or> n = 2 \<or> n = 3"
proof -
  have "unat n = 1 \<or> unat n = 2 \<or> unat n = 3"
    using assms by (auto simp: is_valid_num_lvls_def word_le_nat_alt)
  then show ?thesis by (simp add: word_unat_eq_iff)
qed

lemma simulate_access_levels:
  assumes "is_valid_num_lvls (num_lvls g) 0" and "\<forall>c\<in>set (levels_of g h). unat (hits c) < 2 ^ 32"
    and "simulate_access traces total_traces i (g, h) = (g', h')"
  shows "access_levels traces total_traces i g (levels_of g h) = (g', levels_of g h')"
    "num_lvls g' = num_lvls g" "policy g' = policy g"
proof -
  note u = num_lvls_cases [OF assms(1)]
  obtain g1 c1 where a1: "cache_access traces i total_traces (g, l1 h) = (g1, c1)" by fastforce
  obtain g2 c2 where a2: "cache_access traces i total_traces (g1, l2 h) = (g2, c2)" by fastforce
  obtain g3 c3 where a3: "cache_access traces i total_traces (g2, l3 h) = (g3, c3)" by fastforce
  have n: "num_lvls g1 = num_lvls g" "num_lvls g2 = num_lvls g" "num_lvls g3 = num_lvls g"
    "policy g1 = policy g" "policy g2 = policy g" "policy g3 = policy g"
    using cache_access_globals [OF a1] cache_access_globals [OF a2] cache_access_globals [OF a3] by simp_all
  show "access_levels traces total_traces i g (levels_of g h) = (g', levels_of g h')"
    using u assms(2,3)
    by (auto simp: levels_of_def simulate_access_def ucast_before a1 a2 a3 n split: if_splits)
  show "num_lvls g' = num_lvls g" "policy g' = policy g"
    using assms(3) n by (auto simp: simulate_access_def a1 a2 a3 split: if_splits)
qed

subsection \<open>Accounting\<close>

text \<open>
  The first level has counted \<open>n\<close> accesses, and each further level as many as its predecessor
  counts misses.
\<close>

fun accounted :: "nat \<Rightarrow> cache_level list \<Rightarrow> bool" where
  "accounted n [] = True"
| "accounted n (c # cs) \<longleftrightarrow> unat (hits c) + unat (misses c) = n \<and> accounted (unat (misses c)) cs"

lemma accounted_bound: "accounted n cs \<Longrightarrow> c \<in> set cs \<Longrightarrow> unat (hits c) \<le> n \<and> unat (misses c) \<le> n"
  by (induction cs arbitrary: n) (auto, fastforce+)

lemma unat_plus_1: "unat (x :: 'a::len word) + 1 < 2 ^ LENGTH('a) \<Longrightarrow> unat (x + 1) = unat x + 1"
  by (simp add: unat_word_ariths)

lemma access_levels_accounted:
  assumes "accounted n cs" "n + 1 < 2 ^ 32" "\<forall>c\<in>set cs. level_ok c"
    and "access_levels traces total_traces i g cs = (g', cs')"
  shows "accounted (n + 1) cs'" "\<forall>c\<in>set cs'. level_ok c" "length cs' = length cs"
proof -
  have "accounted (n + 1) cs' \<and> (\<forall>c\<in>set cs'. level_ok c) \<and> length cs' = length cs"
    using assms
  proof (induction traces total_traces i g cs arbitrary: n g' cs' rule: access_levels.induct)
    case (1 traces total_traces i g)
    then show ?case by simp
  next
    case (2 traces total_traces i g c cs)
    obtain g1 c1 where a: "cache_access traces i total_traces (g, c) = (g1, c1)" by fastforce
    have ok: "level_ok c" using 2(4) by simp
    note e = access_effect [OF ok a refl refl refl]
    have b: "unat (hits c) + 1 < 2 ^ 64" "unat (misses c) + 1 < 2 ^ 32"
      using 2(2,3) by simp_all
    then have u: "unat (hits c + 1) = unat (hits c) + 1" "unat (misses c + 1) = unat (misses c) + 1"
      using unat_plus_1 [of "hits c"] unat_plus_1 [of "misses c"] by simp_all
    show ?case
    proof (cases "hits c1 = hits c")
      case True
      then have m: "misses c1 = misses c + 1" using e(7) by (auto split: if_splits)
      obtain cs2 where l: "access_levels traces total_traces i g1 cs = (g', cs2)" "cs' = c1 # cs2"
        using 2(5) a True by (auto split: prod.splits)
      from 2(1) [OF a [symmetric] True _ b(2) _ l(1)] 2(2-4) l(2) e(1) True m u show ?thesis by auto
    next
      case False
      then have "hits c1 = hits c + 1" "misses c1 = misses c" using e(7) by (auto split: if_splits)
      with 2(2-5) a False e(1) u show ?thesis by auto
    qed
  qed
  then show "accounted (n + 1) cs'" "\<forall>c\<in>set cs'. level_ok c" "length cs' = length cs" by auto
qed

lemma simulate_Suc:
  "fold (simulate_access traces total_traces) [0..<Suc k] st =
     simulate_access traces total_traces k (fold (simulate_access traces total_traces) [0..<k] st)"
  by simp

lemma simulate_accounted:
  assumes "is_valid_num_lvls (num_lvls g) 0" "accounted 0 (levels_of g h)"
    "\<forall>c\<in>set (levels_of g h). level_ok c" "k + 1 < 2 ^ 32"
    and "fold (simulate_access traces total_traces) [0..<k] (g, h) = (g', h')"
  shows "accounted k (levels_of g' h') \<and> (\<forall>c\<in>set (levels_of g' h'). level_ok c) \<and>
    num_lvls g' = num_lvls g \<and> policy g' = policy g"
  using assms(4,5)
proof (induction k arbitrary: g' h')
  case 0
  with assms(2,3) show ?case by simp
next
  case (Suc k)
  obtain g1 h1 where f: "fold (simulate_access traces total_traces) [0..<k] (g, h) = (g1, h1)"
    by fastforce
  with Suc have ih: "accounted k (levels_of g1 h1)" "\<forall>c\<in>set (levels_of g1 h1). level_ok c"
    "num_lvls g1 = num_lvls g" "policy g1 = policy g" by auto
  have s: "simulate_access traces total_traces k (g1, h1) = (g', h')"
    using Suc.prems(2) f by (simp add: simulate_Suc)
  have small: "\<forall>c\<in>set (levels_of g1 h1). unat (hits c) < 2 ^ 32"
    using accounted_bound [OF ih(1)] Suc.prems(1) by fastforce
  have lv: "is_valid_num_lvls (num_lvls g1) 0" using ih(3) assms(1) by simp
  note l = simulate_access_levels [OF lv small s]
  have "levels_of g1 h' = levels_of g' h'" using l(2) by (simp add: levels_of_def)
  with access_levels_accounted [OF ih(1) _ ih(2) l(1)] Suc.prems(1) l(2,3) ih(3,4)
  show ?case by simp
qed


lemma built_level:
  assumes "config_ok g" "1 \<le> unat lvl" "unat lvl \<le> unat (num_lvls g)" "c = fst (cache_init g lvl c0)"
  shows "level_ok c" "hits c = 0" "misses c = 0" "lru_rel timer c (replicate (length (sets c)) [])"
    "associativity c = assoc g ! (unat lvl - 1)" "cl_line_size c = line_size g"
    "length (sets c) = unat (lvl_size g ! (unat lvl - 1)) div
       (unat (assoc g ! (unat lvl - 1)) * unat (line_size g))"
proof -
  obtain c' where c': "cache_init g lvl c0 = (c', 0)" "geometry_ok c'" "hits c' = 0" "misses c' = 0"
    "unat (num_sets c') * (unat (associativity c') * unat (cl_line_size c')) =
      unat (lvl_size g ! (unat lvl - 1))"
    "\<forall>s\<in>set (sets c'). lines s = replicate (unat (associativity c')) empty_line"
    using cache_init_geometry [OF assms(1-3)] by blast
  then have c: "c = c'" using assms(4) by simp
  have i: "unat (lvl - 1) = unat lvl - 1" using assms(2) by (simp add: unat_minus_one word_unat_eq_iff)
  show "hits c = 0" "misses c = 0" using c c' by simp_all
  show rel: "lru_rel timer c (replicate (length (sets c)) [])"
    using lru_rel_fresh [OF c'(2,6)] c by simp
  then show "level_ok c" by (simp add: lru_rel_def)
  show a: "associativity c = assoc g ! (unat lvl - 1)" and l: "cl_line_size c = line_size g"
    using c'(1) c i by (auto simp: cache_init_def Let_def split: if_splits)
  have "0 < unat (associativity c)" "0 < unat (cl_line_size c)" "length (sets c) = unat (num_sets c)"
    using c'(2) c by (auto simp: geometry_ok_def is_power_of_two_def word_less_nat_alt unat_gt_0)
  then show "length (sets c) = unat (lvl_size g ! (unat lvl - 1)) div
       (unat (assoc g ! (unat lvl - 1)) * unat (line_size g))"
    using c'(5) a l c by (metis div_mult_self_is_m nat_0_less_mult_iff)
qed

lemma init_levels_list:
  assumes "config_ok g"
  shows "levels_of g (init_levels g h) = map (\<lambda>(lvl, c). fst (cache_init g lvl c))
     (take (unat (num_lvls g)) [(1, l1 h), (2, l2 h), (3, l3 h)])"
proof -
  have "num_lvls g = 1 \<or> num_lvls g = 2 \<or> num_lvls g = 3"
    using assms num_lvls_cases by (auto simp: config_ok_def)
  then show ?thesis by (auto simp: levels_of_def init_levels_def Let_def)
qed

lemma init_levels_ok:
  assumes "config_ok g"
  shows "accounted 0 (levels_of g (init_levels g h))" "\<forall>c\<in>set (levels_of g (init_levels g h)). level_ok c"
proof -
  have n: "num_lvls g = 1 \<or> num_lvls g = 2 \<or> num_lvls g = 3"
    using assms num_lvls_cases by (auto simp: config_ok_def)
  show "accounted 0 (levels_of g (init_levels g h))"
    unfolding init_levels_list [OF assms]
    using n built_level(2,3) [OF assms, of 1 _ "l1 h"] built_level(2,3) [OF assms, of 2 _ "l2 h"]
      built_level(2,3) [OF assms, of 3 _ "l3 h"] by auto
  show "\<forall>c\<in>set (levels_of g (init_levels g h)). level_ok c"
    unfolding init_levels_list [OF assms]
    using n built_level(1) [OF assms, of 1 _ "l1 h"] built_level(1) [OF assms, of 2 _ "l2 h"]
      built_level(1) [OF assms, of 3 _ "l3 h"] by auto
qed

subsection \<open>Properties of the run\<close>

text \<open>
  C31.  The report adds up, under either policy: the first level counts every access as a hit or a
  miss, each further level counts exactly the accesses its predecessor missed, the visits to main
  memory are the misses of the last level, and reads and writes make up the total.
\<close>

theorem report_adds_up:
  assumes "run_cache_sim read_fd malloc_ok open_ok realloc_ok junk stack input d = Some (d', Some rep)"
    and "rep_total rep + 1 < 2 ^ 32" and "levels = rep_levels rep"
  shows "1 \<le> length levels \<and> length levels \<le> 3 \<and>
    unat (fst (levels ! 0)) + unat (snd (levels ! 0)) = rep_total rep \<and>
    (\<forall>i. i + 1 < length levels \<longrightarrow>
       unat (fst (levels ! (i + 1))) + unat (snd (levels ! (i + 1))) = unat (snd (levels ! i))) \<and>
    RAM_visits rep = snd (last levels) \<and> rep_reads rep + rep_writes rep = rep_total rep"
proof -
  obtain g rest where cfg: "configure_cache_sim_parameters junk initial_globals input = Some (g, rest)"
    using assms(1) by (auto simp: run_cache_sim_def split: option.splits)
  then have ok: "config_ok g" using configure_asked [of junk input] asked_config_ok by (auto simp: after_def)
  obtain ts n g' h where
    sim: "simulate ts n (g, init_levels g stack) = (g', h)" and rep: "rep = make_report ts n g' h"
    using assms(1) cfg by (auto simp: run_cache_sim_def split: option.splits if_splits prod.splits)
  have n: "rep_total rep = n" by (simp add: rep make_report_def Let_def)
  have v: "is_valid_num_lvls (num_lvls g) 0" using ok by (simp add: config_ok_def)
  have "accounted n (levels_of g' h)" "num_lvls g' = num_lvls g"
    using simulate_accounted [OF v init_levels_ok [OF ok]] sim assms(2) n
    by (simp_all add: simulate_def)
  moreover have "length (filter (\<lambda>i. acc_type (ts ! i) = 0) [0..<n]) \<le> n"
    using length_filter_le [of _ "[0..<n]"] by simp
  ultimately show ?thesis
    using num_lvls_cases [OF v] assms(3)
    by (auto simp: rep make_report_def Let_def levels_of_def less_Suc_eq)
qed

text \<open>A device that simply holds the entries to read.\<close>

abbreviation list_device :: "nat \<Rightarrow> mem_access list \<Rightarrow> mem_access list \<times> status \<times> mem_access list" where
  "list_device n d \<equiv> (drop n d, int (length (take n d) * 16), take n d)"

theorem report_adds_up_witness:
  "\<exists>rep. run_cache_sim list_device True True (\<lambda>_. True) 0 \<lparr>l1 = blank_level, l2 = blank_level, l3 = blank_level\<rparr>
      [Some 1, Some 16, Some 1, Some 16, Some 2] [\<lparr>acc_addr = 5, acc_type = 1\<rparr>, \<lparr>acc_addr = 7, acc_type = 0\<rparr>] =
      Some ([], Some rep) \<and>
    unat (fst (rep_levels rep ! 0)) + unat (snd (rep_levels rep ! 0)) = 2"
proof -
  let ?g = "\<lparr>global_timer = 0, num_lvls = 1, line_size = 16, assoc = [1, 0, 0], lvl_size = [16, 0, 0],
      policy = ALG_LRU\<rparr>"
  let ?ts = "[\<lparr>acc_addr = 5, acc_type = 1\<rparr>, \<lparr>acc_addr = 7, acc_type = 0\<rparr>]"
  have c: "configure_cache_sim_parameters 0 initial_globals [Some 1, Some 16, Some 1, Some 16, Some 2] =
      Some (?g, [])"
    by (simp add: configure_cache_sim_parameters_def ask_def ask_if_def initial_globals_def
        is_valid_num_lvls_def is_valid_line_size_def is_valid_assoc_def is_valid_lvl_size_def
        is_valid_algorithm_num_def is_power_of_two_def)
  have l: "load_traces list_device True True (\<lambda>_. True) ?ts = Some ([], Some ?ts, 2, Some Drained)"
    by (simp add: load_traces_def load_loop.simps)
  obtain g' h where s: "simulate ?ts 2 (?g, init_levels ?g \<lparr>l1 = blank_level, l2 = blank_level,
      l3 = blank_level\<rparr>) = (g', h)" by fastforce
  let ?rep = "make_report ?ts 2 g' h"
  have r: "run_cache_sim list_device True True (\<lambda>_. True) 0 \<lparr>l1 = blank_level, l2 = blank_level, l3 = blank_level\<rparr>
      [Some 1, Some 16, Some 1, Some 16, Some 2] ?ts = Some ([], Some ?rep)"
    by (simp only: run_cache_sim_def c l s option.case prod.case) simp
  have n: "rep_total ?rep = 2" by (simp add: make_report_def Let_def)
  from report_adds_up [OF r _ refl] r n show ?thesis by auto
qed


subsection \<open>The hierarchy under LRU\<close>

text \<open>The specification of a level: its stacks of blocks and its counters, without bounds.\<close>

record lru_level =
  ways :: nat
  line_bytes :: nat
  stacks :: "nat list list"
  ref_hits :: nat
  ref_misses :: nat

fun lru_walk :: "nat \<Rightarrow> lru_level list \<Rightarrow> lru_level list" where
  "lru_walk address [] = []"
| "lru_walk address (L # Ls) =
    (case lru_access (ways L) (address div line_bytes L) (stacks L) of
       (hit, stacks') \<Rightarrow>
         (if hit then L\<lparr>stacks := stacks', ref_hits := ref_hits L + 1\<rparr> # Ls
          else L\<lparr>stacks := stacks', ref_misses := ref_misses L + 1\<rparr> # lru_walk address Ls))"

text \<open>The hierarchy a configuration describes, all levels empty.\<close>

definition lru_levels :: "sim_globals \<Rightarrow> lru_level list" where
  "lru_levels g = map (\<lambda>i. \<lparr>ways = unat (assoc g ! i), line_bytes = unat (line_size g),
       stacks = replicate (unat (lvl_size g ! i) div (unat (assoc g ! i) * unat (line_size g))) [],
       ref_hits = 0, ref_misses = 0\<rparr>) [0..<unat (num_lvls g)]"

definition level_rel :: "u32 \<Rightarrow> cache_level \<Rightarrow> lru_level \<Rightarrow> bool" where
  "level_rel timer c L \<longleftrightarrow> lru_rel timer c (stacks L) \<and> ways L = unat (associativity c) \<and>
     line_bytes L = unat (cl_line_size c) \<and> ref_hits L = unat (hits c) \<and> ref_misses L = unat (misses c)"

lemma level_rel_later: "level_rel timer c L \<Longrightarrow> timer \<le> now \<Longrightarrow> level_rel now c L"
  using lru_rel_later by (auto simp: level_rel_def)

lemma timer_step:
  assumes "unat (t :: u32) + 1 < 2 ^ 32"
  shows "t < t + 1" "unat (t + 1) = unat t + 1"
  using unat_plus_1 [of t] assms by (simp_all add: word_less_nat_alt)

lemma access_levels_lru:
  assumes "list_all2 (level_rel (global_timer g)) cs Ls" "policy g = ALG_LRU"
    and "unat (global_timer g) + length cs + 1 < 2 ^ 32"
    and "\<forall>c\<in>set cs. unat (hits c) + 1 < 2 ^ 32 \<and> unat (misses c) + 1 < 2 ^ 32"
    and "access_levels traces total_traces i g cs = (g', cs')"
  shows "list_all2 (level_rel (global_timer g')) cs' (lru_walk (unat (acc_addr (traces ! i))) Ls) \<and>
    unat (global_timer g) \<le> unat (global_timer g') \<and>
    unat (global_timer g') \<le> unat (global_timer g) + length cs"
  using assms
proof (induction traces total_traces i g cs arbitrary: g' cs' Ls rule: access_levels.induct)
  case (1 traces total_traces i g)
  then show ?case by simp
next
  case (2 traces total_traces i g c cs)
  let ?a = "acc_addr (traces ! i)"
  from 2(2) obtain L Ls1 where Ls: "Ls = L # Ls1" "level_rel (global_timer g) c L"
    "list_all2 (level_rel (global_timer g)) cs Ls1" by (auto simp: list_all2_Cons1)
  have t: "unat (global_timer g) + 1 < 2 ^ 32" using 2(4) by simp
  note ts = timer_step [OF t]
  obtain g1 c1 where a: "cache_access traces i total_traces (g, c) = (g1, c1)" by fastforce
  obtain hit st where ref: "lru_access (ways L) (unat ?a div line_bytes L) (stacks L) = (hit, st)"
    by fastforce
  have rel: "lru_rel (global_timer g) c (stacks L)" using Ls(2) by (simp add: level_rel_def)
  then have ok: "level_ok c" by (simp add: lru_rel_def)
  note e = access_effect [OF ok a refl refl refl]
  have ref': "lru_access (unat (associativity c)) (block_of c ?a) (stacks L) = (hit, st)"
    using ref Ls(2) by (simp add: level_rel_def block_of_def)
  note s = lru_access_step [OF rel a 2(3) ts(1) refl ref']
  have g1: "global_timer g1 = global_timer g + 1" "policy g1 = ALG_LRU" using e(2) 2(3) by simp_all
  have u: "unat (hits c + 1) = unat (hits c) + 1" "unat (misses c + 1) = unat (misses c) + 1"
    using unat_plus_1 [of "hits c"] unat_plus_1 [of "misses c"] 2(5) by simp_all
  have later: "list_all2 (level_rel (global_timer g1)) cs Ls1"
    using Ls(3) level_rel_later ts(1) g1(1) by (metis (no_types, lifting) less_imp_le list_all2_mono)
  show ?case
  proof (cases hit)
    case True
    then have "hits c1 = hits c + 1" "misses c1 = misses c" using e(7) s(2) by (auto split: if_splits)
    then have "level_rel (global_timer g1) c1 (L\<lparr>stacks := st, ref_hits := ref_hits L + 1\<rparr>)"
      "hits c1 \<noteq> hits c"
      using Ls(2) s(1) e(4,5) u by (simp_all add: level_rel_def)
    with True 2(6) a ref Ls(1) later ts(2) g1 show ?thesis by auto
  next
    case False
    then have m: "hits c1 = hits c" "misses c1 = misses c + 1" using e(7) s(2) by (auto split: if_splits)
    obtain cs2 where l: "access_levels traces total_traces i g1 cs = (g', cs2)" "cs' = c1 # cs2"
      using 2(6) a m(1) by (auto split: prod.splits)
    have "unat (global_timer g1) + length cs + 1 < 2 ^ 32" using ts(2) g1(1) 2(4) by simp
    from 2(1) [OF a [symmetric] m(1) later g1(2) this _ l(1)] 2(5)
    have ih: "list_all2 (level_rel (global_timer g')) cs2 (lru_walk (unat ?a) Ls1)"
      "unat (global_timer g1) \<le> unat (global_timer g')"
      "unat (global_timer g') \<le> unat (global_timer g1) + length cs" by auto
    have "level_rel (global_timer g1) c1 (L\<lparr>stacks := st, ref_misses := ref_misses L + 1\<rparr>)"
      using Ls(2) s(1) e(4,5) m u by (simp add: level_rel_def)
    then have "level_rel (global_timer g') c1 (L\<lparr>stacks := st, ref_misses := ref_misses L + 1\<rparr>)"
      by (rule level_rel_later) (simp add: word_le_nat_alt ih(2))
    with ih ref False Ls(1) l(2) ts(2) g1(1) show ?thesis by simp
  qed
qed

definition trace_addresses :: "mem_access list \<Rightarrow> nat \<Rightarrow> nat list" where
  "trace_addresses traces n = map (\<lambda>i. unat (acc_addr (traces ! i))) [0..<n]"

lemma init_levels_lru:
  assumes "config_ok g"
  shows "list_all2 (level_rel (global_timer g)) (levels_of g (init_levels g h)) (lru_levels g)"
proof -
  have n: "num_lvls g = 1 \<or> num_lvls g = 2 \<or> num_lvls g = 3"
    using assms num_lvls_cases by (auto simp: config_ok_def)
  have u: "[0..<2] = [0, Suc 0]" "[0..<3] = [0, Suc 0, 2]" by (simp_all add: upt_rec)
  have one: "level_rel (global_timer g) (fst (cache_init g lvl c0))
      \<lparr>ways = unat (assoc g ! i), line_bytes = unat (line_size g),
       stacks = replicate (unat (lvl_size g ! i) div (unat (assoc g ! i) * unat (line_size g))) [],
       ref_hits = 0, ref_misses = 0\<rparr>"
    if "i + 1 = unat lvl" "unat lvl \<le> unat (num_lvls g)" for i lvl c0
    using built_level [OF assms _ that(2) refl, where ?c0.0 = c0] that by (simp add: level_rel_def flip: that(1))
  show ?thesis
    unfolding init_levels_list [OF assms] lru_levels_def
    using n one [of 0 1] one [of "Suc 0" 2] one [of 2 3] by (auto simp: u)
qed

lemma simulate_lru:
  assumes cfg: "config_ok g" and t0: "global_timer g = 0" and lru: "policy g = ALG_LRU"
    and k: "3 * k + 3 < 2 ^ 32"
    and "fold (simulate_access traces total_traces) [0..<k] (g, init_levels g h) = (g', h')"
  shows "list_all2 (level_rel (global_timer g')) (levels_of g' h')
      (fold lru_walk (trace_addresses traces k) (lru_levels g)) \<and> unat (global_timer g') \<le> 3 * k"
  using k assms(5)
proof (induction k arbitrary: g' h')
  case 0
  with init_levels_lru [OF cfg, of h] t0 show ?case by (auto simp: trace_addresses_def)
next
  case (Suc k)
  have v: "is_valid_num_lvls (num_lvls g) 0" using cfg by (simp add: config_ok_def)
  obtain g1 h1 where f: "fold (simulate_access traces total_traces) [0..<k] (g, init_levels g h) = (g1, h1)"
    by fastforce
  with Suc have ih: "list_all2 (level_rel (global_timer g1)) (levels_of g1 h1)
      (fold lru_walk (trace_addresses traces k) (lru_levels g))" "unat (global_timer g1) \<le> 3 * k" by auto
  have acc: "accounted k (levels_of g1 h1)" "num_lvls g1 = num_lvls g" "policy g1 = policy g"
    using simulate_accounted [OF v init_levels_ok [OF cfg] _ f] Suc.prems(1) by auto
  have s: "simulate_access traces total_traces k (g1, h1) = (g', h')"
    using Suc.prems(2) f by (simp add: simulate_Suc)
  have small: "\<forall>c\<in>set (levels_of g1 h1). unat (hits c) + 1 < 2 ^ 32 \<and> unat (misses c) + 1 < 2 ^ 32"
    using accounted_bound [OF acc(1)] Suc.prems(1) by fastforce
  then have small': "\<forall>c\<in>set (levels_of g1 h1). unat (hits c) < 2 ^ 32" by fastforce
  have v1: "is_valid_num_lvls (num_lvls g1) 0" using acc(2) v by simp
  note l = simulate_access_levels [OF v1 small' s]
  have len: "length (levels_of g1 h1) \<le> 3" by (simp add: levels_of_def)
  have same: "levels_of g1 h' = levels_of g' h'" using l(2) by (simp add: levels_of_def)
  have room: "unat (global_timer g1) + length (levels_of g1 h1) + 1 < 2 ^ 32"
    using ih(2) len Suc.prems(1) by simp
  from access_levels_lru [OF ih(1) _ room small l(1)] acc(3) lru ih(2) len
  show ?case by (simp add: same trace_addresses_def)
qed

text \<open>
  C17.  The simulation of a whole trace under LRU counts, level by level, the hits and misses of the
  textbook hierarchy: unbounded stacks of memory blocks, searched from the first level down to the
  first hit, each full stack dropping its least recently used block.  The trace has at most about
  1.4 thousand million accesses, so that the shared 32-bit timer does not wrap.
\<close>

theorem simulate_refines_lru:
  assumes "config_ok g" and "global_timer g = 0" and "policy g = ALG_LRU"
    and "3 * total_traces + 3 < 2 ^ 32"
    and "simulate traces total_traces (g, init_levels g stack) = (g', h)"
  shows "map (\<lambda>c. (unat (hits c), unat (misses c))) (levels_of g' h) =
    map (\<lambda>L. (ref_hits L, ref_misses L))
      (fold lru_walk (trace_addresses traces total_traces) (lru_levels g))"
proof -
  have "list_all2 (level_rel (global_timer g')) (levels_of g' h)
      (fold lru_walk (trace_addresses traces total_traces) (lru_levels g))"
    using simulate_lru [OF assms(1-4)] assms(5) by (simp add: simulate_def)
  then show ?thesis
    by (induction rule: list_all2_induct) (simp_all add: level_rel_def)
qed

theorem simulate_refines_lru_witness:
  "\<exists>g' h. simulate [\<lparr>acc_addr = 5, acc_type = 1\<rparr>, \<lparr>acc_addr = 7, acc_type = 0\<rparr>] 2
      (small_config, init_levels small_config \<lparr>l1 = blank_level, l2 = blank_level, l3 = blank_level\<rparr>) = (g', h) \<and>
     map (\<lambda>c. (unat (hits c), unat (misses c))) (levels_of g' h) = [(1, 1)]"
proof -
  let ?ts = "[\<lparr>acc_addr = 5, acc_type = 1\<rparr>, \<lparr>acc_addr = 7, acc_type = 0\<rparr>]"
  let ?h = "\<lparr>l1 = blank_level, l2 = blank_level, l3 = blank_level\<rparr>"
  obtain g' h where s: "simulate ?ts 2 (small_config, init_levels small_config ?h) = (g', h)"
    by fastforce
  have u: "[0..<2] = [0, Suc 0]" by (simp add: upt_rec)
  have "map (\<lambda>L. (ref_hits L, ref_misses L)) (fold lru_walk (trace_addresses ?ts 2) (lru_levels small_config)) =
      [(1, 1)]"
    by (simp add: trace_addresses_def lru_levels_def u lru_access_def lru_touch_def Let_def)
  with simulate_refines_lru [OF small_config_ok _ _ _ s] s show ?thesis by simp
qed

end
