(* ===== verification/C_Text.thy ===== *)
theory C_Text
  imports Rpi_Prelude
begin

text \<open>
  The functions of the C library the assembler reads text with: a C string in a buffer, \<open>strchr\<close>
  as a search from a position, \<open>strtoull\<close> in the C locale (\<open>stdlib.h\<close>), and \<open>fgets\<close> on a stream
  given by the bytes still to be read.
\<close>

subsection \<open>Strings\<close>

abbreviation (input) NUL :: char where "NUL \<equiv> CHR 0x00"
abbreviation (input) NEWLINE :: char where "NEWLINE \<equiv> CHR 0x0A"

text \<open>The C string that starts a buffer ends before its first null byte.\<close>

definition c_string :: "string \<Rightarrow> string" where
  "c_string buf = takeWhile (\<lambda>c. c \<noteq> NUL) buf"

text \<open>The loops \<open>for (i = start; i < strlen(str); i++) if (P(str[i])) ... break\<close>.\<close>

function find_from :: "(char \<Rightarrow> bool) \<Rightarrow> string \<Rightarrow> nat \<Rightarrow> nat option" where
  "find_from P str i =
    (if i < length str then (if P (str ! i) then Some i else find_from P str (i + 1)) else None)"
  by pat_completeness auto
termination by (relation "measure (\<lambda>(P, str, i). length str - i)") auto

declare find_from.simps [simp del]

subsection \<open>Numbers\<close>

definition isspace :: "char \<Rightarrow> bool" where
  "isspace c \<longleftrightarrow> c = CHR '' '' \<or> c = CHR 0x09 \<or> c = CHR 0x0A \<or> c = CHR 0x0B \<or> c = CHR 0x0C \<or> c = CHR 0x0D"

definition code_of :: "char \<Rightarrow> int" where
  "code_of c = of_char c"

definition digit_of :: "int \<Rightarrow> char \<Rightarrow> int option" where
  "digit_of base c =
    (let n = code_of c;
         d = (if 48 \<le> n \<and> n \<le> 57 then n - 48
              else if 65 \<le> n \<and> n \<le> 90 then n - 55
              else if 97 \<le> n \<and> n \<le> 122 then n - 87
              else base)
     in if d < base then Some d else None)"

definition is_digit :: "int \<Rightarrow> char \<Rightarrow> bool" where
  "is_digit base c \<longleftrightarrow> digit_of base c \<noteq> None"

definition digits_value :: "int \<Rightarrow> string \<Rightarrow> int" where
  "digits_value base ds = fold (\<lambda>c n. n * base + the (digit_of base c)) ds 0"

text \<open>
  The result of \<open>strtoull\<close>: the value, the text from \<open>*endptr\<close> on, and whether \<open>errno\<close> is \<open>ERANGE\<close>.
  \<open>0x\<close> belongs to a number of base 16 when a digit follows; a negative number is negated in
  \<open>unsigned long long\<close>; without a digit nothing is consumed.
\<close>

definition skip_sign :: "string \<Rightarrow> bool \<times> string" where
  "skip_sign s =
    (case s of
       [] \<Rightarrow> (False, [])
     | c # cs \<Rightarrow> if c = CHR ''-'' then (True, cs) else if c = CHR ''+'' then (False, cs) else (False, s))"

definition skip_prefix :: "int \<Rightarrow> string \<Rightarrow> string" where
  "skip_prefix base s =
    (case s of
       z # x # d # cs \<Rightarrow>
         if base = 16 \<and> z = CHR ''0'' \<and> (x = CHR ''x'' \<or> x = CHR ''X'') \<and> is_digit 16 d
         then d # cs else s
     | _ \<Rightarrow> s)"

definition strtoull :: "int \<Rightarrow> string \<Rightarrow> u64 \<times> string \<times> bool" where
  "strtoull base str =
    (case skip_sign (dropWhile isspace str) of
       (neg, s) \<Rightarrow>
         (let t = skip_prefix base s;
              ds = takeWhile (is_digit base) t;
              rest = dropWhile (is_digit base) t;
              n = digits_value base ds
          in if ds = [] then (0, str, False)
             else if n \<ge> 2 ^ 64 then (- 1, rest, True)
             else (if neg then - of_int n else of_int n, rest, False)))"

subsection \<open>Reading lines\<close>

text \<open>
  \<open>fgets\<close> into a buffer of \<open>n\<close> bytes reads up to \<open>n - 1\<close> bytes and stops after a newline.  The
  result is what was read (nothing: \<open>fgets\<close> returns \<open>NULL\<close>), what is left, and whether the end
  of the file was met, which is when \<open>feof\<close> turns true.
\<close>

fun get_bytes :: "nat \<Rightarrow> string \<Rightarrow> string \<times> string \<times> bool" where
  "get_bytes 0 s = ([], s, False)"
| "get_bytes (Suc n) [] = ([], [], True)"
| "get_bytes (Suc n) (c # cs) =
    (if c = NEWLINE then ([c], cs, False)
     else (case get_bytes n cs of (l, rest, eof) \<Rightarrow> (c # l, rest, eof)))"

definition fgets :: "nat \<Rightarrow> string \<Rightarrow> string \<times> string \<times> bool" where
  "fgets n s = get_bytes (n - 1) s"

lemma get_bytes_append: "get_bytes n s = (l, rest, eof) \<Longrightarrow> s = l @ rest"
  by (induction n s arbitrary: l rest eof rule: get_bytes.induct) (auto split: if_splits prod.splits)

lemma get_bytes_progress: "get_bytes (Suc n) s = (l, rest, False) \<Longrightarrow> l \<noteq> []"
  by (cases s) (auto split: if_splits prod.splits)

lemma fgets_shorter: "1 < n \<Longrightarrow> fgets n s = (l, rest, False) \<Longrightarrow> length rest < length s"
proof -
  assume n: "1 < n" and f: "fgets n s = (l, rest, False)"
  then obtain k where "n - 1 = Suc k" by (cases "n - 1") auto
  with f have "get_bytes (Suc k) s = (l, rest, False)" by (simp add: fgets_def)
  with get_bytes_progress [OF this] get_bytes_append [OF this] show ?thesis by simp
qed

end
