(* ===== verification/Label_Table.thy ===== *)
theory Label_Table
  imports Rpi_Prelude
begin

text \<open>
  What the assembler needs of its label table: finding, adding an absent key, assigning to a present
  one.  \<open>holds t a\<close> says that the table is well formed after \<open>a\<close> additions, \<open>view\<close> is the map it stands
  for, and \<open>limit\<close> the number of additions the provider supports.
\<close>

locale label_table =
  fixes holds :: "'t \<Rightarrow> nat \<Rightarrow> bool"
    and view :: "'t \<Rightarrow> string \<Rightarrow> 'v option"
    and find_key :: "'t \<Rightarrow> string \<Rightarrow> 'v option"
    and add_key :: "'t \<Rightarrow> string \<Rightarrow> 'v \<Rightarrow> 't"
    and assign_key :: "'t \<Rightarrow> string \<Rightarrow> 'v \<Rightarrow> 't"
    and limit :: nat
  assumes find_view: "holds t a \<Longrightarrow> find_key t k = view t k"
    and add_law: "holds t a \<Longrightarrow> a < limit \<Longrightarrow> view t k = None \<Longrightarrow>
      holds (add_key t k v) (a + 1) \<and> view (add_key t k v) = (view t)(k \<mapsto> v)"
    and assign_law: "holds t a \<Longrightarrow> view t k \<noteq> None \<Longrightarrow>
      holds (assign_key t k v) a \<and> view (assign_key t k v) = (view t)(k \<mapsto> v)"
begin

lemma put_law:
  assumes "holds t a" "a < limit"
  shows "\<exists>b\<le>a + 1. holds (if find_key t k = None then add_key t k v else assign_key t k v) b \<and>
    view (if find_key t k = None then add_key t k v else assign_key t k v) = (view t)(k \<mapsto> v)"
proof (cases "find_key t k = None")
  case True
  then have "view t k = None" using find_view [OF assms(1)] by simp
  from add_law [OF assms this] True show ?thesis by auto
next
  case False
  then have "view t k \<noteq> None" using find_view [OF assms(1)] by simp
  from assign_law [OF assms(1) this, of v] show ?thesis unfolding if_not_P [OF False] by (intro exI [of _ a]) simp
qed

text \<open>Putting a list of bindings, the later ones winning.\<close>

lemma puts_law:
  assumes "\<And>t k v. length k \<le> n \<Longrightarrow> put t k v = (if find_key t k = None then add_key t k v else assign_key t k v)"
    and "holds t a" "a + length kvs \<le> limit" "\<forall>(k, v)\<in>set kvs. length k \<le> n"
  shows "\<exists>b\<le>a + length kvs. holds (fold (\<lambda>(k, v) t. put t k v) kvs t) b \<and>
    view (fold (\<lambda>(k, v) t. put t k v) kvs t) = view t ++ map_of (rev kvs)"
  using assms(2-4)
proof (induction kvs arbitrary: t a)
  case Nil
  then show ?case by auto
next
  case (Cons kv kvs)
  obtain k v where kv: "kv = (k, v)" by (cases kv)
  from put_law [OF Cons.prems(1), of k v] Cons.prems(2) obtain b where
    b: "b \<le> a + 1" "holds (put t k v) b" "view (put t k v) = (view t)(k \<mapsto> v)"
    using assms(1) [of k t v] Cons.prems(3) kv by auto
  have "b + length kvs \<le> limit" "\<forall>(k, v)\<in>set kvs. length k \<le> n"
    using b(1) Cons.prems(2,3) by auto
  from Cons.IH [OF b(2) this] obtain c where
    c: "c \<le> b + length kvs" "holds (fold (\<lambda>(k, v) t. put t k v) kvs (put t k v)) c"
    "view (fold (\<lambda>(k, v) t. put t k v) kvs (put t k v)) = view (put t k v) ++ map_of (rev kvs)"
    by blast
  moreover have "view (put t k v) ++ map_of (rev kvs) = view t ++ map_of (rev (kv # kvs))"
    unfolding b(3) kv by (simp add: fun_eq_iff map_add_def split: option.splits)
  moreover have "c \<le> a + length (kv # kvs)" using c(1) b(1) by simp
  ultimately show ?case unfolding kv fold_Cons o_def prod.case by metis
qed

end

end
