(* ===== verification/Uthash.thy ===== *)
theory Uthash
  imports Label_Table "HOL-Library.Multiset"
begin

text \<open>
  The part of the hash table macros (\<open>userspace/inc/uthash.h\<close>) that the assembler's label table
  uses: Jenkins' hash, the search in a bucket, adding at the head of a bucket, and the expansion that
  doubles the number of buckets and redistributes the items.  An item is its key, its stored hash
  value and the value of the enclosing structure; a bucket's doubly linked chain is a list.  A failed
  allocation exits the process, so the functions describe the calls that return.  The list in
  application order serves only to free the table and is left out here; \<open>Uthash_Heap\<close> has it.
\<close>

subsection \<open>Jenkins' hash\<close>

definition HASH_JEN_MIX :: "u32 \<times> u32 \<times> u32 \<Rightarrow> u32 \<times> u32 \<times> u32" where
  "HASH_JEN_MIX abc =
    (case abc of (a0, b0, c0) \<Rightarrow>
      let a1 = (a0 - b0 - c0) XOR drop_bit 13 c0;
          b1 = (b0 - c0 - a1) XOR push_bit 8 a1;
          c1 = (c0 - a1 - b1) XOR drop_bit 13 b1;
          a2 = (a1 - b1 - c1) XOR drop_bit 12 c1;
          b2 = (b1 - c1 - a2) XOR push_bit 16 a2;
          c2 = (c1 - a2 - b2) XOR drop_bit 5 b2;
          a3 = (a2 - b2 - c2) XOR drop_bit 3 c2;
          b3 = (b2 - c2 - a3) XOR push_bit 10 a3;
          c3 = (c2 - a3 - b3) XOR drop_bit 15 b3
      in (a3, b3, c3))"

definition key_byte :: "string \<Rightarrow> nat \<Rightarrow> u32" where
  "key_byte key n = of_char (key ! n)"

text \<open>Four bytes from position \<open>n\<close>, the first one lowest.\<close>

definition key_word :: "string \<Rightarrow> nat \<Rightarrow> u32" where
  "key_word key n = key_byte key n + push_bit 8 (key_byte key (n + 1)) +
     push_bit 16 (key_byte key (n + 2)) + push_bit 24 (key_byte key (n + 3))"

function jen_blocks :: "string \<Rightarrow> u32 \<times> u32 \<times> u32 \<Rightarrow> string \<times> (u32 \<times> u32 \<times> u32)" where
  "jen_blocks key st =
    (if length key \<ge> 12 then
       (case st of (i, j, h) \<Rightarrow>
          jen_blocks (drop 12 key)
            (HASH_JEN_MIX (i + key_word key 0, j + key_word key 4, h + key_word key 8)))
     else (key, st))"
  by pat_completeness auto
termination by (relation "measure (\<lambda>(key, st). length key)") auto

declare jen_blocks.simps [simp del]

text \<open>The fall-through cases: byte \<open>n\<close> counts when more than \<open>n\<close> bytes are left.\<close>

definition tail_byte :: "string \<Rightarrow> nat \<Rightarrow> nat \<Rightarrow> u32" where
  "tail_byte key n shift = (if n < length key then push_bit shift (key_byte key n) else 0)"

definition HASH_JEN :: "string \<Rightarrow> u32" where
  "HASH_JEN key =
    (case jen_blocks key (0x9e3779b9, 0x9e3779b9, 0xfeedbeef) of
       (rest, i, j, hashv) \<Rightarrow>
         (let hashv' = hashv + of_nat (length key) + tail_byte rest 10 24 + tail_byte rest 9 16 +
                tail_byte rest 8 8;
              j' = j + tail_byte rest 7 24 + tail_byte rest 6 16 + tail_byte rest 5 8 + tail_byte rest 4 0;
              i' = i + tail_byte rest 3 24 + tail_byte rest 2 16 + tail_byte rest 1 8 + tail_byte rest 0 0
          in snd (snd (HASH_JEN_MIX (i', j', hashv')))))"

subsection \<open>The table\<close>

record 'v item =
  hh_key :: string
  hashv :: u32
  item_value :: 'v

record 'v hash_bucket =
  hh_chain :: "'v item list"
  bkt_count :: u32
  expand_mult :: u32

record 'v hash_table =
  buckets :: "'v hash_bucket list"
  num_buckets :: u32
  log2_num_buckets :: u32
  num_items :: u32
  ideal_chain_maxlen :: u32
  nonideal_items :: u32
  ineff_expands :: u32
  noexpand :: u32

abbreviation (input) HASH_INITIAL_NUM_BUCKETS :: u32 where "HASH_INITIAL_NUM_BUCKETS \<equiv> 32"
abbreviation (input) HASH_INITIAL_NUM_BUCKETS_LOG2 :: u32 where "HASH_INITIAL_NUM_BUCKETS_LOG2 \<equiv> 5"
abbreviation (input) HASH_BKT_CAPACITY_THRESH :: u32 where "HASH_BKT_CAPACITY_THRESH \<equiv> 10"

definition empty_bucket :: "'v hash_bucket" where
  [code_unfold]: "empty_bucket = \<lparr>hh_chain = [], bkt_count = 0, expand_mult = 0\<rparr>"

definition HASH_MAKE_TABLE :: "'v hash_table" where
  [code_unfold]: "HASH_MAKE_TABLE = \<lparr>buckets = replicate (unat HASH_INITIAL_NUM_BUCKETS) empty_bucket,
     num_buckets = HASH_INITIAL_NUM_BUCKETS, log2_num_buckets = HASH_INITIAL_NUM_BUCKETS_LOG2,
     num_items = 0, ideal_chain_maxlen = 0, nonideal_items = 0, ineff_expands = 0, noexpand = 0\<rparr>"

definition HASH_TO_BKT :: "u32 \<Rightarrow> u32 \<Rightarrow> u32" where
  "HASH_TO_BKT hv num_bkts = hv AND (num_bkts - 1)"

subsection \<open>Finding\<close>

definition HASH_FIND_IN_BKT :: "'v item list \<Rightarrow> string \<Rightarrow> u32 \<Rightarrow> 'v item option" where
  "HASH_FIND_IN_BKT chain key hv =
     find (\<lambda>e. hashv e = hv \<and> length (hh_key e) = length key \<and> hh_key e = key) chain"

text \<open>A null head is \<open>None\<close>.\<close>

definition HASH_FIND_STR :: "'v hash_table option \<Rightarrow> string \<Rightarrow> 'v item option" where
  "HASH_FIND_STR head key =
    (case head of
       None \<Rightarrow> None
     | Some t \<Rightarrow>
         (let hv = HASH_JEN key
          in HASH_FIND_IN_BKT (hh_chain (buckets t ! unat (HASH_TO_BKT hv (num_buckets t)))) key hv))"

subsection \<open>Adding\<close>

text \<open>One item moves to its bucket of the \<open>n\<close> new ones.\<close>

definition move_item ::
    "u32 \<Rightarrow> u32 \<Rightarrow> 'v item \<Rightarrow> 'v hash_bucket list \<times> u32 \<Rightarrow> 'v hash_bucket list \<times> u32" where
  "move_item n ideal e st =
    (case st of (bs, nonideal) \<Rightarrow>
      let i = unat (HASH_TO_BKT (hashv e) n);
          b = bs ! i;
          c = bkt_count b + 1;
          over = c > ideal;
          mult = (if over \<and> c > expand_mult b * ideal then expand_mult b + 1 else expand_mult b)
      in (bs[i := \<lparr>hh_chain = e # hh_chain b, bkt_count = c, expand_mult = mult\<rparr>],
          if over then nonideal + 1 else nonideal))"

definition HASH_EXPAND_BUCKETS :: "'v hash_table \<Rightarrow> 'v hash_table" where
  "HASH_EXPAND_BUCKETS t =
    (let n = num_buckets t * 2;
         ideal = drop_bit (unat (log2_num_buckets t + 1)) (num_items t) +
           (if num_items t AND (n - 1) \<noteq> 0 then 1 else 0);
         moved = fold (move_item n ideal) (concat (map hh_chain (buckets t)))
           (replicate (unat n) empty_bucket, 0);
         ineff = (if snd moved > drop_bit 1 (num_items t) then ineff_expands t + 1 else 0)
     in t\<lparr>buckets := fst moved, num_buckets := n, log2_num_buckets := log2_num_buckets t + 1,
          ideal_chain_maxlen := ideal, nonideal_items := snd moved, ineff_expands := ineff,
          noexpand := (if ineff > 1 then 1 else noexpand t)\<rparr>)"

definition HASH_ADD_TO_BKT :: "nat \<Rightarrow> 'v item \<Rightarrow> 'v hash_table \<Rightarrow> 'v hash_table" where
  "HASH_ADD_TO_BKT i e t =
    (let b = buckets t ! i;
         b' = b\<lparr>bkt_count := bkt_count b + 1, hh_chain := e # hh_chain b\<rparr>;
         t' = t\<lparr>buckets := (buckets t)[i := b']\<rparr>
     in if bkt_count b' \<ge> (expand_mult b' + 1) * HASH_BKT_CAPACITY_THRESH \<and> noexpand t' = 0
        then HASH_EXPAND_BUCKETS t' else t')"

definition HASH_ADD_STR :: "'v hash_table option \<Rightarrow> string \<Rightarrow> 'v \<Rightarrow> 'v hash_table" where
  "HASH_ADD_STR head key v =
    (let hv = HASH_JEN key;
         t = (case head of None \<Rightarrow> HASH_MAKE_TABLE | Some t \<Rightarrow> t);
         t1 = t\<lparr>num_items := num_items t + 1\<rparr>
     in HASH_ADD_TO_BKT (unat (HASH_TO_BKT hv (num_buckets t1)))
          \<lparr>hh_key = key, hashv = hv, item_value = v\<rparr> t1)"

text \<open>Assigning to the value of the structure that \<open>HASH_FIND_STR\<close> found.\<close>

fun set_first :: "('a \<Rightarrow> bool) \<Rightarrow> ('a \<Rightarrow> 'a) \<Rightarrow> 'a list \<Rightarrow> 'a list" where
  "set_first P f [] = []"
| "set_first P f (x # xs) = (if P x then f x # xs else x # set_first P f xs)"

definition assign_found :: "'v hash_table \<Rightarrow> string \<Rightarrow> 'v \<Rightarrow> 'v hash_table" where
  "assign_found t key v =
    (let hv = HASH_JEN key;
         i = unat (HASH_TO_BKT hv (num_buckets t));
         b = buckets t ! i
     in t\<lparr>buckets := (buckets t)[i := b\<lparr>hh_chain :=
            set_first (\<lambda>e. hashv e = hv \<and> length (hh_key e) = length key \<and> hh_key e = key)
              (\<lambda>e. e\<lparr>item_value := v\<rparr>) (hh_chain b)\<rparr>]\<rparr>)"


subsection \<open>What a table stands for\<close>

definition all_items :: "'v hash_table \<Rightarrow> 'v item list" where
  "all_items t = concat (map hh_chain (buckets t))"

abbreviation pair_of :: "'v item \<Rightarrow> string \<times> 'v" where
  "pair_of e \<equiv> (hh_key e, item_value e)"

definition table_map :: "'v hash_table option \<Rightarrow> string \<Rightarrow> 'v option" where
  "table_map head = (case head of None \<Rightarrow> Map.empty | Some t \<Rightarrow> map_of (map pair_of (all_items t)))"

text \<open>
  \<open>2 ^ log2_num_buckets\<close> buckets, every item in the bucket of its key's hash, no key twice.
\<close>

definition placed :: "'v hash_bucket list \<Rightarrow> u32 \<Rightarrow> bool" where
  "placed bs n \<longleftrightarrow> length bs = unat n \<and>
     (\<forall>i<length bs. \<forall>e\<in>set (hh_chain (bs ! i)).
        hashv e = HASH_JEN (hh_key e) \<and> unat (HASH_TO_BKT (hashv e) n) = i)"

definition table_ok :: "'v hash_table \<Rightarrow> bool" where
  "table_ok t \<longleftrightarrow> unat (log2_num_buckets t) < 32 \<and> num_buckets t = 2 ^ unat (log2_num_buckets t) \<and>
     placed (buckets t) (num_buckets t) \<and> distinct (map hh_key (all_items t))"

definition head_ok :: "'v hash_table option \<Rightarrow> bool" where
  "head_ok head \<longleftrightarrow> (case head of None \<Rightarrow> True | Some t \<Rightarrow> table_ok t)"

lemma two_power_u32: "k < 32 \<Longrightarrow> unat (2 ^ k :: u32) = 2 ^ k"
proof -
  assume "k < 32"
  then have "(2::nat) ^ k < 2 ^ 32" by (intro power_strict_increasing) simp_all
  then have "unat (of_nat (2 ^ k) :: u32) = 2 ^ k"
    by (simp add: unat_of_nat take_bit_nat_eq_self_iff del: of_nat_power)
  then show ?thesis by simp
qed

lemma bucket_bound: "k < 32 \<Longrightarrow> unat (HASH_TO_BKT hv (2 ^ k)) < 2 ^ k"
proof -
  assume k: "k < 32"
  have "HASH_TO_BKT hv (2 ^ k) = take_bit k hv"
    by (simp add: HASH_TO_BKT_def take_bit_eq_mask mask_eq_decr_exp)
  then show ?thesis by (simp add: unsigned_take_bit_eq)
qed

lemma table_ok_bucket:
  "table_ok t \<Longrightarrow> unat (HASH_TO_BKT hv (num_buckets t)) < length (buckets t)"
  using bucket_bound by (simp add: table_ok_def placed_def two_power_u32)

lemma placedD:
  "placed bs n \<Longrightarrow> i < length bs \<Longrightarrow> e \<in> set (hh_chain (bs ! i)) \<Longrightarrow>
     hashv e = HASH_JEN (hh_key e) \<and> unat (HASH_TO_BKT (hashv e) n) = i"
  unfolding placed_def by blast

lemma placed_update:
  assumes "placed bs n" "i < length bs"
    and "\<And>e. e \<in> set (hh_chain b) \<Longrightarrow>
      e \<in> set (hh_chain (bs ! i)) \<or> hashv e = HASH_JEN (hh_key e) \<and> unat (HASH_TO_BKT (hashv e) n) = i"
  shows "placed (bs[i := b]) n"
  unfolding placed_def
proof (intro conjI allI impI ballI)
  show "length (bs[i := b]) = unat n" using assms(1) by (simp add: placed_def)
  fix j e assume j: "j < length (bs[i := b])" "e \<in> set (hh_chain (bs[i := b] ! j))"
  have "hashv e = HASH_JEN (hh_key e) \<and> unat (HASH_TO_BKT (hashv e) n) = j"
  proof (cases "j = i")
    case True
    with j assms(2) have "e \<in> set (hh_chain b)" by simp
    with assms(3) placedD [OF assms(1,2)] True show ?thesis by blast
  next
    case False
    with j have "j < length bs" "e \<in> set (hh_chain (bs ! j))" by simp_all
    then show ?thesis by (rule placedD [OF assms(1)])
  qed
  then show "hashv e = HASH_JEN (hh_key e)" "unat (HASH_TO_BKT (hashv e) n) = j" by blast+
qed

lemma table_okD:
  "table_ok t \<Longrightarrow> placed (buckets t) (num_buckets t)"
  "table_ok t \<Longrightarrow> num_buckets t = 2 ^ unat (log2_num_buckets t)"
  "table_ok t \<Longrightarrow> unat (log2_num_buckets t) < 32"
  "table_ok t \<Longrightarrow> distinct (map hh_key (all_items t))"
  unfolding table_ok_def by blast+

lemma in_all_items: "e \<in> set (all_items t) \<longleftrightarrow> (\<exists>i<length (buckets t). e \<in> set (hh_chain (buckets t ! i)))"
  by (auto simp: all_items_def in_set_conv_nth) (metis nth_mem)+

subsection \<open>Finding\<close>

lemma find_map_of:
  assumes "\<forall>e\<in>set es. hashv e = HASH_JEN (hh_key e)"
  shows "map_option item_value (HASH_FIND_IN_BKT es key (HASH_JEN key)) = map_of (map pair_of es) key"
  using assms by (induction es) (auto simp: HASH_FIND_IN_BKT_def)

lemma map_of_absent: "key \<notin> fst ` set xs \<Longrightarrow> map_of xs key = None"
  by (simp add: map_of_eq_None_iff)

lemma find_is_map:
  assumes "head_ok head"
  shows "map_option item_value (HASH_FIND_STR head key) = table_map head key"
proof (cases head)
  case None
  then show ?thesis by (simp add: HASH_FIND_STR_def table_map_def)
next
  case (Some t)
  then have ok: "table_ok t" using assms by (simp add: head_ok_def)
  let ?i = "unat (HASH_TO_BKT (HASH_JEN key) (num_buckets t))"
  let ?c = "hh_chain (buckets t ! ?i)"
  have i: "?i < length (buckets t)" by (rule table_ok_bucket [OF ok])
  have pl: "\<And>j e. j < length (buckets t) \<Longrightarrow> e \<in> set (hh_chain (buckets t ! j)) \<Longrightarrow>
      hashv e = HASH_JEN (hh_key e) \<and> unat (HASH_TO_BKT (hashv e) (num_buckets t)) = j"
    by (rule placedD [OF table_okD(1) [OF ok]])
  have d: "distinct (map fst (map pair_of (all_items t)))"
    using ok by (simp add: table_ok_def o_def)
  have "map_of (map pair_of ?c) key = map_of (map pair_of (all_items t)) key"
  proof (cases "map_of (map pair_of (all_items t)) key")
    case None
    then have "key \<notin> hh_key ` set (all_items t)" by (force simp: map_of_eq_None_iff)
    moreover have "set ?c \<subseteq> set (all_items t)" using i in_all_items [of _ t] by blast
    ultimately have "key \<notin> hh_key ` set ?c" by blast
    then have "key \<notin> fst ` set (map pair_of ?c)" by auto
    then show ?thesis unfolding None by (rule map_of_absent)
  next
    case (Some v)
    then obtain e where e: "e \<in> set (all_items t)" "hh_key e = key" "item_value e = v"
      by (auto dest!: map_of_SomeD)
    then obtain j where j: "j < length (buckets t)" "e \<in> set (hh_chain (buckets t ! j))"
      by (auto simp: in_all_items)
    have "j = ?i" using pl [OF j] e(2) by metis
    with j have "e \<in> set ?c" by blast
    moreover have "distinct (map fst (map pair_of ?c))"
    proof -
      have "all_items t = concat (map hh_chain (take ?i (buckets t))) @ ?c @
          concat (map hh_chain (drop (Suc ?i) (buckets t)))"
        unfolding all_items_def by (subst id_take_nth_drop [OF i]) simp
      then show ?thesis using d by (simp add: o_def)
    qed
    ultimately have "map_of (map pair_of ?c) key = Some v"
      using e by (intro map_of_is_SomeI) auto
    then show ?thesis using Some by simp
  qed
  moreover have "\<forall>e\<in>set ?c. hashv e = HASH_JEN (hh_key e)" using pl i by blast
  ultimately show ?thesis
    using find_map_of [of ?c key] Some by (simp add: HASH_FIND_STR_def table_map_def Let_def)
qed

subsection \<open>Adding\<close>

lemma concat_update:
  "i < length bs \<Longrightarrow> concat (map f (bs[i := b])) =
     concat (map f (take i bs)) @ f b @ concat (map f (drop (Suc i) bs))"
  by (simp add: upd_conv_take_nth_drop)

lemma concat_split:
  "i < length bs \<Longrightarrow> concat (map f bs) =
     concat (map f (take i bs)) @ f (bs ! i) @ concat (map f (drop (Suc i) bs))"
  by (subst id_take_nth_drop [of i bs]) simp_all

lemma move_items:
  assumes "k < 32" "length bs = 2 ^ k" "\<forall>e\<in>set es. hashv e = HASH_JEN (hh_key e)" "placed bs (2 ^ k)"
    and "fold (move_item (2 ^ k) ideal) es (bs, ni) = (bs', ni')"
  shows "placed bs' (2 ^ k) \<and> length bs' = 2 ^ k \<and>
    mset (concat (map hh_chain bs')) = mset (concat (map hh_chain bs)) + mset es"
  using assms(2-5)
proof (induction es arbitrary: bs ni)
  case Nil
  then show ?case by simp
next
  case (Cons e es)
  let ?i = "unat (HASH_TO_BKT (hashv e) (2 ^ k))"
  have i: "?i < length bs" using bucket_bound [OF assms(1), of "hashv e"] Cons.prems(1) by simp
  obtain b1 ni1 where m: "move_item (2 ^ k) ideal e (bs, ni) = (bs[?i := b1], ni1)"
    and ch: "hh_chain b1 = e # hh_chain (bs ! ?i)"
    by (auto simp: move_item_def Let_def)
  have pl: "placed (bs[?i := b1]) (2 ^ k)"
    by (rule placed_update [OF Cons.prems(3) i]) (use Cons.prems(2) ch in auto)
  have ms: "mset (concat (map hh_chain (bs[?i := b1]))) = mset (concat (map hh_chain bs)) + {#e#}"
    using i by (simp add: concat_update concat_split ch)
  from Cons.IH [OF _ _ pl, of ni1] Cons.prems m ms show ?case by simp
qed

lemma concat_empty_buckets: "concat (map hh_chain (replicate n empty_bucket)) = []"
  by (induction n) (simp_all add: empty_bucket_def)

text \<open>The expansion rearranges the items; it needs the next power of two to fit.\<close>

lemma expand_ok:
  assumes ok: "table_ok t" and room: "unat (log2_num_buckets t) + 1 < 32"
  shows "table_ok (HASH_EXPAND_BUCKETS t)" "mset (all_items (HASH_EXPAND_BUCKETS t)) = mset (all_items t)"
    "log2_num_buckets (HASH_EXPAND_BUCKETS t) = log2_num_buckets t + 1"
proof -
  let ?k = "unat (log2_num_buckets t) + 1"
  let ?ideal = "drop_bit (unat (log2_num_buckets t + 1)) (num_items t) +
           (if num_items t AND (num_buckets t * 2 - 1) \<noteq> 0 then 1 else 0)"
  have n: "num_buckets t * 2 = 2 ^ ?k" using ok by (simp add: table_ok_def)
  have l: "unat (log2_num_buckets t + 1) = ?k"
    using room by (simp add: unat_word_ariths)
  obtain bs' ni' where f: "fold (move_item (2 ^ ?k) ?ideal) (all_items t)
      (replicate (unat (2 ^ ?k :: u32)) empty_bucket, 0) = (bs', ni')" by fastforce
  have e: "\<forall>e\<in>set (all_items t). hashv e = HASH_JEN (hh_key e)"
    using ok by (auto simp: table_ok_def placed_def in_all_items)
  have "placed (replicate (unat (2 ^ ?k :: u32)) empty_bucket) (2 ^ ?k)"
    by (simp add: placed_def empty_bucket_def)
  from move_items [OF room _ e this f] two_power_u32 [OF room]
  have m: "placed bs' (2 ^ ?k)" "mset (concat (map hh_chain bs')) = mset (all_items t)"
    using concat_empty_buckets by (simp_all add: empty_bucket_def)
  have b: "buckets (HASH_EXPAND_BUCKETS t) = bs'" "num_buckets (HASH_EXPAND_BUCKETS t) = 2 ^ ?k"
    "log2_num_buckets (HASH_EXPAND_BUCKETS t) = log2_num_buckets t + 1"
    using f by (simp_all add: HASH_EXPAND_BUCKETS_def Let_def n all_items_def)
  then show "log2_num_buckets (HASH_EXPAND_BUCKETS t) = log2_num_buckets t + 1" by simp
  show ms: "mset (all_items (HASH_EXPAND_BUCKETS t)) = mset (all_items t)"
    using m(2) b(1) by (simp add: all_items_def)
  have "mset (map hh_key (all_items (HASH_EXPAND_BUCKETS t))) = mset (map hh_key (all_items t))"
    using ms by simp
  then have "distinct (map hh_key (all_items (HASH_EXPAND_BUCKETS t)))"
    using table_okD(4) [OF ok] mset_eq_imp_distinct_iff by blast
  then show "table_ok (HASH_EXPAND_BUCKETS t)"
    using b m(1) l room by (simp add: table_ok_def)
qed


subsection \<open>How often the table grows\<close>

text \<open>
  Up to 188 items can be added: the ideal chain length of an expansion is then at most 3, so an
  expansion leaves every chain at least 7 items short of its next threshold, and 26 expansions of 7 items
  each keep the bucket count below \<open>2 ^ 32\<close>.  (With chosen collisions more items could make the count
  wrap.)  \<open>counted bs s l\<close>: the counters describe the chains, none longer than \<open>l\<close>, after \<open>s\<close> additions
  since the last expansion; \<open>grown t a\<close>: the table after at most \<open>a\<close> additions, with deletions between them.
\<close>

definition counted :: "'v hash_bucket list \<Rightarrow> nat \<Rightarrow> nat \<Rightarrow> bool" where
  "counted bs s l \<longleftrightarrow> (\<forall>b\<in>set bs. unat (bkt_count b) = length (hh_chain b) \<and>
     unat (expand_mult b) \<le> l \<and> length (hh_chain b) \<le> l \<and>
     length (hh_chain b) \<le> 3 * (unat (expand_mult b) + 1) + s)"

definition grown :: "'v hash_table \<Rightarrow> nat \<Rightarrow> bool" where
  "grown t a \<longleftrightarrow> length (all_items t) \<le> a \<and> unat (num_items t) = length (all_items t) \<and> num_buckets t \<noteq> 0 \<and>
     5 \<le> unat (log2_num_buckets t) \<and>
     (\<exists>s. counted (buckets t) s a \<and> 7 * (unat (log2_num_buckets t) - 5) + s \<le> a)"

lemma countedD:
  assumes "counted bs s l" "i < length bs"
  shows "unat (bkt_count (bs ! i)) = length (hh_chain (bs ! i))"
    "unat (expand_mult (bs ! i)) \<le> l" "length (hh_chain (bs ! i)) \<le> l"
    "length (hh_chain (bs ! i)) \<le> 3 * (unat (expand_mult (bs ! i)) + 1) + s"
  using assms nth_mem [OF assms(2)] unfolding counted_def by blast+

lemma counted_mono: "counted bs s l \<Longrightarrow> s \<le> s' \<Longrightarrow> l \<le> l' \<Longrightarrow> counted bs s' l'"
  unfolding counted_def by (meson add_left_mono le_trans)

lemma counted_update:
  assumes "counted bs s l"
    and "unat (bkt_count b) = length (hh_chain b)" "unat (expand_mult b) \<le> l"
    and "length (hh_chain b) \<le> l" "length (hh_chain b) \<le> 3 * (unat (expand_mult b) + 1) + s"
  shows "counted (bs[i := b]) s l"
  using assms set_update_subset_insert [of bs i b] unfolding counted_def by blast

lemma unat_u32_add1: "unat (w :: u32) < 1000 \<Longrightarrow> unat (w + 1) = unat w + 1"
  by (simp add: unat_word_ariths)

lemma unat_u32_mult: "unat (v :: u32) < 1000 \<Longrightarrow> unat (w :: u32) < 1000 \<Longrightarrow> unat (v * w) = unat v * unat w"
proof -
  assume "unat v < 1000" "unat w < 1000"
  then have "unat v * unat w \<le> 1000 * 1000" by (intro mult_mono) simp_all
  then show ?thesis by (simp add: unat_word_ariths)
qed

lemma move_counted:
  assumes c: "counted bs 0 l" and i: "unat (HASH_TO_BKT (hashv e) n) < length bs"
    and small: "l < 900" "unat ideal \<le> 3"
  shows "counted (fst (move_item n ideal e (bs, ni))) 0 (l + 1)"
proof -
  let ?b = "bs ! unat (HASH_TO_BKT (hashv e) n)"
  note b = countedD [OF c i]
  have 1: "unat (bkt_count ?b + 1) = length (hh_chain ?b) + 1"
    using b small by (subst unat_u32_add1) auto
  have 2: "unat (expand_mult ?b + 1) = unat (expand_mult ?b) + 1"
    using b small by (subst unat_u32_add1) auto
  have 3: "unat (expand_mult ?b * ideal) = unat (expand_mult ?b) * unat ideal"
    using b small by (subst unat_u32_mult) auto
  have "unat (expand_mult ?b) * unat ideal \<le> unat (expand_mult ?b) * 3"
    using small by (intro mult_left_mono) simp_all
  then have 4: "unat (expand_mult ?b) * unat ideal < length (hh_chain ?b) + 1 \<or>
      length (hh_chain ?b) + 1 \<le> 3 * unat (expand_mult ?b)" by linarith
  have "counted (bs[unat (HASH_TO_BKT (hashv e) n) := b']) 0 (l + 1)"
    if "b' = \<lparr>hh_chain = e # hh_chain ?b, bkt_count = bkt_count ?b + 1, expand_mult = mult\<rparr>"
      "mult = (if bkt_count ?b + 1 > ideal \<and> bkt_count ?b + 1 > expand_mult ?b * ideal
               then expand_mult ?b + 1 else expand_mult ?b)" for b' mult
  proof (rule counted_update [OF counted_mono [OF c]])
    show "length (hh_chain b') \<le> 3 * (unat (expand_mult b') + 1) + 0"
      using that b(4) 1 2 3 4 small by (auto simp: word_less_nat_alt)
  qed (use that b 1 2 small in auto)
  then show ?thesis by (simp add: move_item_def Let_def)
qed

lemma length_move_item: "length (fst (move_item n ideal e st)) = length (fst st)"
  by (cases st) (simp add: move_item_def Let_def)

lemma move_all_counted:
  assumes "counted bs 0 l" "length bs = 2 ^ k" "k < 32" "l + length es < 900" "unat ideal \<le> 3"
  shows "counted (fst (fold (move_item (2 ^ k) ideal) es (bs, ni))) 0 (l + length es)"
  using assms(1,2,4)
proof (induction es arbitrary: bs ni l)
  case Nil
  then show ?case by simp
next
  case (Cons e es)
  obtain bs1 ni1 where m: "move_item (2 ^ k) ideal e (bs, ni) = (bs1, ni1)" by fastforce
  have len: "length bs1 = length bs" using length_move_item [of "2 ^ k" ideal e "(bs, ni)"] m by simp
  have "unat (HASH_TO_BKT (hashv e) (2 ^ k)) < length bs"
    using bucket_bound [OF assms(3), of "hashv e"] Cons.prems(2) by simp
  from move_counted [OF Cons.prems(1) this _ assms(5), of ni] m Cons.prems(3)
  have "counted bs1 0 (l + 1)" by simp
  from Cons.IH [OF this] len Cons.prems(2,3) m show ?case by (simp add: add.commute)
qed

lemma ideal_at_most_3:
  assumes "unat (n :: u32) \<le> 188" "6 \<le> k"
  shows "unat (drop_bit k n + (if c then 1 else 0)) \<le> 3"
proof -
  have "unat (drop_bit k n) = unat n div 2 ^ k" by (simp only: unat_drop_bit_eq) (simp add: drop_bit_eq_div)
  also have "\<dots> \<le> 188 div 2 ^ 6"
    using assms by (meson div_le_mono div_le_mono2 le_trans power_increasing one_le_numeral zero_less_numeral zero_less_power)
  finally have "unat (drop_bit k n) \<le> 2" by simp
  then show ?thesis using unat_u32_add1 [of "drop_bit k n"] by auto
qed

lemma expand_counted:
  assumes ok: "table_ok t" and room: "unat (log2_num_buckets t) + 1 < 32" "5 \<le> unat (log2_num_buckets t)"
    and small: "unat (num_items t) \<le> 188" "length (all_items t) \<le> 188"
  shows "counted (buckets (HASH_EXPAND_BUCKETS t)) 0 (length (all_items t))"
proof -
  let ?k = "unat (log2_num_buckets t) + 1"
  let ?ideal = "drop_bit (unat (log2_num_buckets t + 1)) (num_items t) +
           (if num_items t AND (num_buckets t * 2 - 1) \<noteq> 0 then 1 else 0)"
  have n: "num_buckets t * 2 = 2 ^ ?k" using ok by (simp add: table_ok_def)
  have "unat (log2_num_buckets t + 1) = ?k" using room by (subst unat_u32_add1) auto
  then have "unat ?ideal \<le> 3" using ideal_at_most_3 [OF small(1)] room by simp
  moreover have "counted (replicate (unat (2 ^ ?k :: u32)) empty_bucket :: 'a hash_bucket list) 0 0"
    by (simp add: counted_def empty_bucket_def)
  ultimately have "counted (fst (fold (move_item (2 ^ ?k) ?ideal) (all_items t)
      (replicate (unat (2 ^ ?k :: u32)) empty_bucket, 0))) 0 (0 + length (all_items t))"
    using room small two_power_u32 [OF room(1)] by (intro move_all_counted) simp_all
  then show ?thesis
    using small by (simp add: HASH_EXPAND_BUCKETS_def Let_def n all_items_def)
qed

subsection \<open>Adding an absent key\<close>

lemma map_of_eqI_set:
  assumes "distinct (map fst xs)" "distinct (map fst ys)" "set xs = set ys"
  shows "map_of xs = map_of ys"
  using map_of_inject_set [OF assms(1,2)] assms(3) by simp

definition chain_add :: "nat \<Rightarrow> 'v item \<Rightarrow> 'v hash_table \<Rightarrow> 'v hash_table" where
  "chain_add i e t = t\<lparr>buckets := (buckets t)[i := (buckets t ! i)\<lparr>bkt_count := bkt_count (buckets t ! i) + 1,
     hh_chain := e # hh_chain (buckets t ! i)\<rparr>]\<rparr>"

lemma add_to_bkt_cases:
  "HASH_ADD_TO_BKT i e t = chain_add i e t \<or>
   bkt_count (buckets t ! i) + 1 \<ge> (expand_mult (buckets t ! i) + 1) * 10 \<and>
   HASH_ADD_TO_BKT i e t = HASH_EXPAND_BUCKETS (chain_add i e t)"
  by (simp add: HASH_ADD_TO_BKT_def chain_add_def Let_def)

lemma table_map_items:
  assumes "table_ok t" "table_ok t'" "mset (all_items t') = mset (all_items t)"
  shows "table_map (Some t') = table_map (Some t)"
proof -
  have "set (all_items t') = set (all_items t)" using assms(3) by (metis set_mset_mset)
  then show ?thesis
    using table_okD(4) [OF assms(1)] table_okD(4) [OF assms(2)]
    by (simp add: table_map_def) (intro map_of_eqI_set, simp_all add: o_def)
qed

lemma chain_add_items:
  assumes "i < length (buckets t)"
  shows "mset (all_items (chain_add i e t)) = add_mset e (mset (all_items t))"
  using assms by (simp add: all_items_def chain_add_def concat_update concat_split)

lemma chain_add_ok:
  assumes ok: "table_ok t" and e: "hashv e = HASH_JEN (hh_key e)" "table_map (Some t) (hh_key e) = None"
    and i: "i = unat (HASH_TO_BKT (hashv e) (num_buckets t))"
  shows "table_ok (chain_add i e t)"
    "table_map (Some (chain_add i e t)) = (table_map (Some t))(hh_key e \<mapsto> item_value e)"
proof -
  have il: "i < length (buckets t)" unfolding i by (rule table_ok_bucket [OF ok])
  have new: "hh_key e \<notin> hh_key ` set (all_items t)"
    using e(2) by (force simp: table_map_def map_of_eq_None_iff)
  have "mset (map hh_key (all_items (chain_add i e t))) = mset (map hh_key (e # all_items t))"
    using chain_add_items [OF il, of e] by simp
  then have d: "distinct (map hh_key (all_items (chain_add i e t)))"
    using new table_okD(4) [OF ok] mset_eq_imp_distinct_iff by (metis distinct.simps(2) list.simps(9) set_map)
  have "placed (buckets (chain_add i e t)) (num_buckets t)"
    by (simp add: chain_add_def) (rule placed_update [OF table_okD(1) [OF ok] il], use e(1) i in auto)
  then show ok': "table_ok (chain_add i e t)"
    using d table_okD(2,3) [OF ok] by (simp add: table_ok_def) (simp add: chain_add_def)
  have s: "set (all_items (chain_add i e t)) = set (e # all_items t)"
    using chain_add_items [OF il, of e] by (metis list.simps(15) mset.simps(2) set_mset_add_mset_insert set_mset_mset)
  have "map_of (map pair_of (all_items (chain_add i e t))) = map_of (map pair_of (e # all_items t))"
    using s d new table_okD(4) [OF ok] by (intro map_of_eqI_set) (simp_all add: o_def)
  then show "table_map (Some (chain_add i e t)) = (table_map (Some t))(hh_key e \<mapsto> item_value e)"
    by (simp add: table_map_def)
qed

lemma chain_add_counted:
  assumes c: "counted (buckets t) s a" and i: "i < length (buckets t)" and a: "a \<le> 188"
  shows "counted (buckets (chain_add i e t)) (s + 1) (a + 1)"
    "bkt_count (buckets t ! i) + 1 \<ge> (expand_mult (buckets t ! i) + 1) * 10 \<Longrightarrow> s + 1 \<ge> 7"
proof -
  let ?b = "buckets t ! i"
  note b = countedD [OF c i]
  have 1: "unat (bkt_count ?b + 1) = length (hh_chain ?b) + 1"
    using b a by (subst unat_u32_add1) auto
  show "counted (buckets (chain_add i e t)) (s + 1) (a + 1)"
    by (simp add: chain_add_def) (rule counted_update [OF counted_mono [OF c]], use b 1 in auto)
  have 2: "unat (expand_mult ?b + 1) = unat (expand_mult ?b) + 1"
    using b a by (subst unat_u32_add1) auto
  have "unat ((expand_mult ?b + 1) * 10) = (unat (expand_mult ?b) + 1) * 10"
    using b a 2 by (subst unat_u32_mult) auto
  then show "s + 1 \<ge> 7" if "bkt_count ?b + 1 \<ge> (expand_mult ?b + 1) * 10"
    using that b(4) 1 by (simp add: word_le_nat_alt)
qed

text \<open>\<open>table_holds head a\<close>: a well formed table after at most \<open>a\<close> additions.\<close>

definition table_holds :: "'v hash_table option \<Rightarrow> nat \<Rightarrow> bool" where
  "table_holds head a \<longleftrightarrow> head_ok head \<and> (case head of None \<Rightarrow> True | Some t \<Rightarrow> grown t a)"

lemma grownD:
  assumes "grown t a"
  shows "length (all_items t) \<le> a" "unat (num_items t) = length (all_items t)" "num_buckets t \<noteq> 0"
    "5 \<le> unat (log2_num_buckets t)"
    "\<exists>s. counted (buckets t) s a \<and> 7 * (unat (log2_num_buckets t) - 5) + s \<le> a"
  using assms unfolding grown_def by blast+

lemma make_table_ok: "table_ok (HASH_MAKE_TABLE :: 'a hash_table) \<and> grown (HASH_MAKE_TABLE :: 'a hash_table) a"
proof -
  have "all_items (HASH_MAKE_TABLE :: 'a hash_table) = []"
    using concat_empty_buckets [of 32] by (simp add: all_items_def HASH_MAKE_TABLE_def)
  then show ?thesis
    by (auto simp: table_ok_def grown_def HASH_MAKE_TABLE_def placed_def counted_def empty_bucket_def
        intro!: exI [of _ "0::nat"])
qed

lemma num_items_add_to_bkt: "num_items (HASH_ADD_TO_BKT i e t) = num_items t"
  by (simp add: HASH_ADD_TO_BKT_def HASH_EXPAND_BUCKETS_def Let_def)

lemma num_items_update_simps:
  "all_items (t\<lparr>num_items := x\<rparr>) = all_items t" "table_ok (t\<lparr>num_items := x\<rparr>) = table_ok t"
  "table_map (Some (t\<lparr>num_items := x\<rparr>)) = table_map (Some t)"
  by (simp_all add: all_items_def table_ok_def table_map_def)

text \<open>
  Adding to a bucket while the table counts \<open>k\<close> items: the new count when an item is added, still the old one
  when items are selected from another table.
\<close>

lemma add_to_bkt_counting:
  assumes ok: "table_ok t" and g: "grown t a" "a < 188" and k: "unat k \<le> 188"
    and e: "hashv e = HASH_JEN (hh_key e)" "table_map (Some t) (hh_key e) = None"
    and i: "i = unat (HASH_TO_BKT (hashv e) (num_buckets t))"
  defines "u \<equiv> HASH_ADD_TO_BKT i e (t\<lparr>num_items := k\<rparr>)"
  shows "table_ok u \<and> num_items u = k \<and> grown (u\<lparr>num_items := num_items t + 1\<rparr>) (a + 1) \<and>
    table_map (Some u) = (table_map (Some t))(hh_key e \<mapsto> item_value e)"
proof -
  let ?t = "t\<lparr>num_items := k\<rparr>"
  let ?c = "chain_add i e ?t"
  have il: "i < length (buckets ?t)" unfolding i using table_ok_bucket [OF ok] by simp
  have ok1: "table_ok ?c" "table_map (Some ?c) = (table_map (Some t))(hh_key e \<mapsto> item_value e)"
    using chain_add_ok [of ?t e i] ok e i by (simp_all add: num_items_update_simps)
  obtain s where s: "counted (buckets ?t) s a" "7 * (unat (log2_num_buckets t) - 5) + s \<le> a"
    using grownD(5) [OF g(1)] by auto
  have cc: "counted (buckets ?c) (s + 1) (a + 1)"
    "bkt_count (buckets ?t ! i) + 1 \<ge> (expand_mult (buckets ?t ! i) + 1) * 10 \<Longrightarrow> s + 1 \<ge> 7"
    using chain_add_counted [OF s(1) il] g(2) by auto
  have fl: "log2_num_buckets ?c = log2_num_buckets t" "num_items ?c = k"
    "num_buckets ?c = num_buckets t" by (simp_all add: chain_add_def)
  have la: "length (all_items t) \<le> a" by (rule grownD(1) [OF g(1)])
  have ni: "unat (num_items t + 1) = length (all_items t) + 1"
    using grownD(2) [OF g(1)] la g(2) by (subst unat_u32_add1) auto
  have len: "length (all_items ?c) = length (all_items t) + 1"
    using arg_cong [OF chain_add_items [OF il, of e], of size]
    by (simp add: num_items_update_simps)
  have l5: "5 \<le> unat (log2_num_buckets t)" by (rule grownD(4) [OF g(1)])
  have gr: "grown (w\<lparr>num_items := num_items t + 1\<rparr>) (a + 1)"
    if "length (all_items w) = length (all_items t) + 1" "num_buckets w \<noteq> 0" "5 \<le> unat (log2_num_buckets w)"
      "counted (buckets w) s' (a + 1)" "7 * (unat (log2_num_buckets w) - 5) + s' \<le> a + 1" for w :: "'a hash_table" and s'
    using that ni la by (auto simp: grown_def num_items_update_simps)
  consider (plain) "u = ?c"
    | (expand) "s + 1 \<ge> 7" "u = HASH_EXPAND_BUCKETS ?c"
    using add_to_bkt_cases [of i e ?t] cc(2) unfolding u_def by blast
  then show ?thesis
  proof cases
    case plain
    have "7 * (unat (log2_num_buckets ?c) - 5) + (s + 1) \<le> a + 1" using s(2) fl by simp
    then have "grown (?c\<lparr>num_items := num_items t + 1\<rparr>) (a + 1)"
      by (intro gr [OF len _ _ cc(1)]) (use grownD(3,4) [OF g(1)] fl in simp_all)
    then show ?thesis using plain ok1 fl by simp
  next
    case expand
    have e26: "7 * (unat (log2_num_buckets t) - 5) + 7 \<le> a + 1" using s(2) expand(1) by linarith
    then have room: "unat (log2_num_buckets ?c) + 1 < 32" unfolding fl using g(2) by linarith
    note x = expand_ok [OF ok1(1) room]
    have l: "unat (log2_num_buckets u) = unat (log2_num_buckets t) + 1"
      unfolding expand(2) x(3) fl using room fl by (subst unat_u32_add1) auto
    have "counted (buckets u) 0 (length (all_items t) + 1)"
      unfolding expand(2) using expand_counted [OF ok1(1) room] l5 fl len la g(2) k by simp
    then have c: "counted (buckets u) 0 (a + 1)" by (rule counted_mono) (use la in simp_all)
    have lu: "length (all_items u) = length (all_items t) + 1"
      using arg_cong [OF x(2), of size] len expand(2) by simp
    have nu: "num_items u = k" using fl by (simp add: expand(2) HASH_EXPAND_BUCKETS_def Let_def)
    have "num_buckets u \<noteq> 0"
    proof -
      have "unat (num_buckets u) = 2 ^ unat (log2_num_buckets u)"
        using table_okD(2,3) [OF x(1)] two_power_u32 unfolding expand(2) by metis
      then show ?thesis by (metis power_not_zero unat_0 zero_neq_numeral)
    qed
    then have "grown (u\<lparr>num_items := num_items t + 1\<rparr>) (a + 1)"
      using l l5 e26 by (intro gr [OF lu _ _ c]) simp_all
    then show ?thesis
      using x(1) ok1 table_map_items [OF ok1(1) x(1,2)] expand(2) nu by simp
  qed
qed

lemma add_to_bkt:
  assumes ok: "table_ok t" and g: "grown t a" "a < 188"
    and e: "hashv e = HASH_JEN (hh_key e)" "table_map (Some t) (hh_key e) = None"
    and i: "i = unat (HASH_TO_BKT (hashv e) (num_buckets t))"
  defines "u \<equiv> HASH_ADD_TO_BKT i e (t\<lparr>num_items := num_items t + 1\<rparr>)"
  shows "table_ok u \<and> grown u (a + 1) \<and> table_map (Some u) = (table_map (Some t))(hh_key e \<mapsto> item_value e)"
proof -
  have "unat (num_items t + 1) = length (all_items t) + 1"
    using grownD(1,2) [OF g(1)] g(2) by (subst unat_u32_add1) auto
  then have "unat (num_items t + 1) \<le> 188" using grownD(1) [OF g(1)] g(2) by simp
  from add_to_bkt_counting [OF ok g this e i] show ?thesis
    unfolding u_def [symmetric] by (metis hash_table.surjective hash_table.update_convs(4))
qed

lemma add_str:
  assumes "table_holds head a" "a < 188" "table_map head key = None"
  shows "table_holds (Some (HASH_ADD_STR head key v)) (a + 1) \<and>
    table_map (Some (HASH_ADD_STR head key v)) = (table_map head)(key \<mapsto> v)"
proof -
  define t where "t = (case head of None \<Rightarrow> HASH_MAKE_TABLE | Some t \<Rightarrow> t)"
  have t: "table_ok t" "grown t a" "table_map (Some t) = table_map head"
    using assms(1) make_table_ok concat_empty_buckets [of 32]
    by (auto simp: t_def table_holds_def head_ok_def table_map_def all_items_def HASH_MAKE_TABLE_def
        split: option.splits)
  from add_to_bkt [OF t(1,2) assms(2), of "\<lparr>hh_key = key, hashv = HASH_JEN key, item_value = v\<rparr>"] t(3) assms(3)
  show ?thesis by (simp add: HASH_ADD_STR_def table_holds_def head_ok_def Let_def t_def [symmetric])
qed

subsection \<open>Assigning to a found entry\<close>

abbreviation (input) is_match :: "string \<Rightarrow> 'v item \<Rightarrow> bool" where
  "is_match key e \<equiv> hashv e = HASH_JEN key \<and> length (hh_key e) = length key \<and> hh_key e = key"

lemma set_first_split:
  "\<exists>x\<in>set xs. P x \<Longrightarrow> \<exists>ys x zs. xs = ys @ x # zs \<and> P x \<and> set_first P f xs = ys @ f x # zs"
proof (induction xs)
  case Nil
  then show ?case by simp
next
  case (Cons y xs)
  show ?case
  proof (cases "P y")
    case True
    then have "y # xs = [] @ y # xs \<and> P y \<and> set_first P f (y # xs) = [] @ f y # xs" by simp
    then show ?thesis by blast
  next
    case False
    with Cons obtain ys x zs where "xs = ys @ x # zs \<and> P x \<and> set_first P f xs = ys @ f x # zs" by auto
    with False have "y # xs = (y # ys) @ x # zs \<and> P x \<and> set_first P f (y # xs) = (y # ys) @ f x # zs"
      unfolding set_first.simps by (metis append_Cons)
    then show ?thesis by blast
  qed
qed

lemma find_in_chain:
  "HASH_FIND_IN_BKT es key (HASH_JEN key) \<noteq> None \<Longrightarrow> \<exists>e\<in>set es. is_match key e"
  unfolding HASH_FIND_IN_BKT_def by (simp only: find_None_iff not_all not_not simp_thms) blast

lemma assign_items:
  assumes ok: "table_ok t" and found: "table_map (Some t) key \<noteq> None"
  obtains pre e post where "all_items t = pre @ e # post" "hh_key e = key"
    "all_items (assign_found t key v) = pre @ e\<lparr>item_value := v\<rparr> # post"
proof -
  let ?i = "unat (HASH_TO_BKT (HASH_JEN key) (num_buckets t))"
  let ?c = "hh_chain (buckets t ! ?i)"
  have i: "?i < length (buckets t)" by (rule table_ok_bucket [OF ok])
  have "HASH_FIND_STR (Some t) key \<noteq> None"
    using find_is_map [of "Some t" key] ok found by (auto simp: head_ok_def)
  then have "\<exists>e\<in>set ?c. is_match key e" by (intro find_in_chain) (simp add: HASH_FIND_STR_def Let_def)
  from set_first_split [OF this, of "\<lambda>e. e\<lparr>item_value := v\<rparr>"] obtain ys e zs where
    s: "?c = ys @ e # zs" "is_match key e"
      "set_first (is_match key) (\<lambda>e. e\<lparr>item_value := v\<rparr>) ?c = ys @ e\<lparr>item_value := v\<rparr> # zs" by blast
  have "all_items t = (concat (map hh_chain (take ?i (buckets t))) @ ys) @ e #
      (zs @ concat (map hh_chain (drop (Suc ?i) (buckets t))))"
    using s(1) i by (simp add: all_items_def concat_split)
  moreover have "all_items (assign_found t key v) =
      (concat (map hh_chain (take ?i (buckets t))) @ ys) @ e\<lparr>item_value := v\<rparr> #
      (zs @ concat (map hh_chain (drop (Suc ?i) (buckets t))))"
    using s(3) i by (simp add: all_items_def concat_update assign_found_def Let_def)
  ultimately show ?thesis using s(2) that by blast
qed

lemma set_first_length: "length (set_first P f xs) = length xs"
  by (induction xs) auto

lemma set_first_elem: "y \<in> set (set_first P f xs) \<Longrightarrow> y \<in> set xs \<or> (\<exists>x\<in>set xs. y = f x)"
  by (induction xs) (auto split: if_splits)

lemma map_of_replace:
  assumes "distinct (map fst (xs @ (k, w) # ys))"
  shows "map_of (xs @ (k, v) # ys) = (map_of (xs @ (k, w) # ys))(k \<mapsto> v)"
proof -
  have "k \<notin> fst ` set xs" using assms by auto
  then have "map_of xs k = None" by (simp add: map_of_eq_None_iff)
  then show ?thesis by (auto simp: fun_eq_iff map_add_def split: option.splits)
qed

lemma assign_found_ok:
  assumes h: "table_holds (Some t) a" and found: "table_map (Some t) key \<noteq> None"
  shows "table_holds (Some (assign_found t key v)) a \<and>
    table_map (Some (assign_found t key v)) = (table_map (Some t))(key \<mapsto> v)"
proof -
  let ?u = "assign_found t key v"
  have ok: "table_ok t" and g: "grown t a" using h by (simp_all add: table_holds_def head_ok_def)
  obtain pre e post where s: "all_items t = pre @ e # post" "hh_key e = key"
    "all_items ?u = pre @ e\<lparr>item_value := v\<rparr> # post" by (rule assign_items [OF ok found])
  have fl: "log2_num_buckets ?u = log2_num_buckets t" "num_items ?u = num_items t"
    "num_buckets ?u = num_buckets t" by (simp_all add: assign_found_def Let_def)
  let ?i = "unat (HASH_TO_BKT (HASH_JEN key) (num_buckets t))"
  have i: "?i < length (buckets t)" by (rule table_ok_bucket [OF ok])
  have el: "hashv x = HASH_JEN (hh_key x) \<and> unat (HASH_TO_BKT (hashv x) (num_buckets t)) = ?i"
    if "x \<in> set (set_first (is_match key) (\<lambda>e. e\<lparr>item_value := v\<rparr>) (hh_chain (buckets t ! ?i)))" for x
  proof -
    from set_first_elem [OF that] obtain y where y: "y \<in> set (hh_chain (buckets t ! ?i))"
      "hashv x = hashv y" "hh_key x = hh_key y" by auto
    show ?thesis unfolding y(2,3) by (rule placedD [OF table_okD(1) [OF ok] i y(1)])
  qed
  have "placed (buckets ?u) (num_buckets t)"
    by (simp add: assign_found_def Let_def)
      (rule placed_update [OF table_okD(1) [OF ok] i], rule disjI2, rule el, simp)
  then have ok': "table_ok ?u"
    using table_okD(2-4) [OF ok] s unfolding table_ok_def fl by simp
  obtain n where n: "counted (buckets t) n a" "7 * (unat (log2_num_buckets t) - 5) + n \<le> a"
    using grownD(5) [OF g] by blast
  have "counted (buckets ?u) n a"
    by (simp add: assign_found_def Let_def)
      (rule counted_update [OF n(1)], use countedD [OF n(1) i] in \<open>simp_all add: set_first_length\<close>)
  then have "grown ?u a"
    using n(2) grownD(1-4) [OF g] s unfolding grown_def fl by auto
  moreover have "table_map (Some ?u) = (table_map (Some t))(key \<mapsto> v)"
  proof -
    have "distinct (map fst (map pair_of pre @ (key, item_value e) # map pair_of post))"
      using table_okD(4) [OF ok] s by (simp add: o_def)
    from map_of_replace [OF this, of v] s show ?thesis by (simp add: table_map_def)
  qed
  ultimately show ?thesis using ok' by (simp add: table_holds_def head_ok_def)
qed

subsection \<open>The table as a label table\<close>

interpretation uthash: label_table table_holds table_map
    "\<lambda>head key. map_option item_value (HASH_FIND_STR head key)"
    "\<lambda>head key v. Some (HASH_ADD_STR head key v)"
    "\<lambda>head key v. map_option (\<lambda>t. assign_found t key v) head" 188
proof unfold_locales
  fix head :: "'a hash_table option" and a :: nat and key :: string and v :: 'a
  show "map_option item_value (HASH_FIND_STR head key) = table_map head key" if "table_holds head a"
    using that by (intro find_is_map) (simp add: table_holds_def)
  show "table_holds (Some (HASH_ADD_STR head key v)) (a + 1) \<and>
      table_map (Some (HASH_ADD_STR head key v)) = (table_map head)(key \<mapsto> v)"
    if "table_holds head a" "a < 188" "table_map head key = None"
    by (rule add_str [OF that])
  show "table_holds (map_option (\<lambda>t. assign_found t key v) head) a \<and>
      table_map (map_option (\<lambda>t. assign_found t key v) head) = (table_map head)(key \<mapsto> v)"
    if "table_holds head a" "table_map head key \<noteq> None"
  proof (cases head)
    case None
    then show ?thesis using that by (simp add: table_map_def)
  next
    case (Some t)
    then show ?thesis using assign_found_ok [of t a key v] that by simp
  qed
qed

end
