(* ===== verification/Assembler.thy ===== *)
theory Assembler
  imports Uapi C_Text Uthash
begin

text \<open>
  The assembler (\<open>userspace/src/assembler.c\<close>): the label table, splitting a line into an operation
  and two operands, parsing a line into an instruction, and the two passes over the file.  Every
  dereference of a null pointer and every store outside an array is a value of \<open>asm_fault\<close>.  The
  functions describe the runs in which \<open>malloc\<close> and \<open>realloc\<close> succeed.
\<close>

abbreviation (input) MAX_LEN :: nat where "MAX_LEN \<equiv> 256"

datatype asm_fault = Open_failed | Null_argument | Array_overrun

type_synonym labels = "u64 hash_table option"

subsection \<open>Comments and empty lines\<close>

definition remove_comment :: "string \<Rightarrow> string" where
  "remove_comment line =
    (case find_from (\<lambda>c. c = CHR '';'') line 0 of None \<Rightarrow> line | Some i \<Rightarrow> take i line)"

fun is_empty :: "string \<Rightarrow> bool" where
  "is_empty [] = True"
| "is_empty (c # cs) = (if c \<noteq> CHR '' '' \<and> c \<noteq> NEWLINE then c = CHR '';'' else is_empty cs)"

subsection \<open>Labels\<close>

text \<open>The key array holds 63 characters and the terminator; the search uses the whole key.\<close>

definition put :: "labels \<Rightarrow> string \<Rightarrow> u64 \<Rightarrow> labels" where
  "put labels key v =
    (case HASH_FIND_STR labels key of
       None \<Rightarrow> Some (HASH_ADD_STR labels (take 63 key) v)
     | Some entry \<Rightarrow> map_option (\<lambda>t. assign_found t key v) labels)"

definition get :: "labels \<Rightarrow> string \<Rightarrow> u64 option" where
  "get labels key = map_option item_value (HASH_FIND_STR labels key)"

subsection \<open>Splitting a line\<close>

definition substring :: "string \<Rightarrow> nat \<Rightarrow> nat \<Rightarrow> string option" where
  "substring str s e = (if s \<ge> e \<or> e > length str then None else Some (take (e - s) (drop s str)))"

text \<open>
  \<open>while (str[p] == ' ') memmove(...)\<close>: the text is moved over one space at a time.  (Only for an
  empty string does the caller look behind the terminator; it then has no operation either.)
\<close>

function remove_spaces :: "string \<Rightarrow> nat \<Rightarrow> string" where
  "remove_spaces str p =
    (if p < length str \<and> str ! p = CHR '' '' then remove_spaces (take p str @ drop (p + 1) str) p
     else str)"
  by pat_completeness auto
termination by (relation "measure (\<lambda>(str, p). length str)") auto

declare remove_spaces.simps [simp del]

definition split_by_char :: "string \<Rightarrow> char \<Rightarrow> string option \<times> string option \<times> string option" where
  "split_by_char str0 delimiter =
    (let str = remove_spaces str0 0;
         end1 = (case find_from (\<lambda>c. c = delimiter) str 0 of Some i \<Rightarrow> i | None \<Rightarrow> 0);
         part1 = substring str 0 end1;
         start2 = end1 + 1;
         str2 = remove_spaces str start2;
         end2 = (case find_from (\<lambda>c. c = delimiter) str2 start2 of Some i \<Rightarrow> i | None \<Rightarrow> end1);
         part2 = substring str2 start2 end2;
         start3 = end2 + 1;
         str3 = remove_spaces str2 start3;
         end3 = (case find_from (\<lambda>c. c = delimiter \<or> c = NEWLINE) str3 start3 of
                   Some i \<Rightarrow> i | None \<Rightarrow> end2);
         part3 = substring str3 start3 (if end3 < start3 then length str3 else end3)
     in (part1, part2, part3))"

subsection \<open>Parsing a line\<close>

definition parse_int :: "string \<Rightarrow> u64 option" where
  "parse_int str =
    (case strtoull 10 str of
       (val, endptr, range_error) \<Rightarrow>
         if endptr = str \<or> range_error \<or> endptr \<noteq> [] then None else Some val)"

definition default_instruction :: instruction where
  "default_instruction = \<lparr>operand2 = 0xFFFFFFFFFFFFFFFF, operand1 = 0xFF, opcode = 0xFF, mode = 0xFF\<rparr>"

definition bracketed :: "string \<Rightarrow> bool" where
  "bracketed s \<longleftrightarrow> s \<noteq> [] \<and> hd s = CHR ''['' \<and> last s = CHR '']''"

text \<open>The text between the brackets, in base 16; what follows the number is ignored.\<close>

definition bracket_value :: "string \<Rightarrow> u64" where
  "bracket_value s = fst (strtoull 16 (tl (butlast s)))"

definition parse_operand2 :: "string \<Rightarrow> instruction \<Rightarrow> instruction" where
  "parse_operand2 s instr =
    (if s = ''R0'' then instr\<lparr>operand2 := REG_0\<rparr>
     else if s = ''R1'' then instr\<lparr>operand2 := REG_1\<rparr>
     else if s = ''R2'' then instr\<lparr>operand2 := REG_2\<rparr>
     else if s = ''R3'' then instr\<lparr>operand2 := REG_3\<rparr>
     else if bracketed s then instr\<lparr>operand2 := bracket_value s, mode := DIRECT_LOAD\<rparr>
     else (case parse_int s of
             Some v \<Rightarrow> instr\<lparr>operand2 := v, mode := IMMEDIATE\<rparr>
           | None \<Rightarrow> instr))"

definition parse_operand1 :: "string \<Rightarrow> instruction \<Rightarrow> instruction" where
  "parse_operand1 s instr =
    (if s = ''R0'' then instr\<lparr>operand1 := ucast REG_0\<rparr>
     else if s = ''R1'' then instr\<lparr>operand1 := ucast REG_1\<rparr>
     else if s = ''R2'' then instr\<lparr>operand1 := ucast REG_2\<rparr>
     else if s = ''R3'' then instr\<lparr>operand1 := ucast REG_3\<rparr>
     else if bracketed s then
       instr\<lparr>operand1 := ucast (operand2 instr), mode := DIRECT_STORE, operand2 := bracket_value s\<rparr>
     else instr)"

text \<open>\<open>strlen(operand1)\<close> of a missing first operand faults; a missing second one is its copy.\<close>

definition parse_operands ::
    "instruction \<Rightarrow> string option \<Rightarrow> string option \<Rightarrow> asm_fault + instruction" where
  "parse_operands instr op1 op2 =
    (case (case op2 of None \<Rightarrow> op1 | Some s \<Rightarrow> Some s) of
       None \<Rightarrow> Inl Null_argument
     | Some s2 \<Rightarrow>
         (let instr2 = parse_operand2 s2 instr
          in case op1 of
               None \<Rightarrow> Inr instr2
             | Some s1 \<Rightarrow>
                 (let instr1 = parse_operand1 s1 instr2
                  in Inr (if mode instr1 = 0xFF then instr1\<lparr>mode := REGISTER\<rparr> else instr1))))"

text \<open>The jumps; an unknown label leaves the operand as it is.\<close>

definition parse_jump ::
    "(string \<Rightarrow> u64 option) \<Rightarrow> instruction \<Rightarrow> string option \<Rightarrow> string option \<Rightarrow> asm_fault + instruction" where
  "parse_jump lookup instr op1 op2 =
    (case (case op1 of None \<Rightarrow> op2 | Some s \<Rightarrow> Some s) of
       None \<Rightarrow> Inl Null_argument
     | Some key \<Rightarrow>
         (let instr' = instr\<lparr>mode := LABEL\<rparr>
          in case lookup key of None \<Rightarrow> Inr instr' | Some v \<Rightarrow> Inr (instr'\<lparr>operand2 := v\<rparr>)))"

definition parse_parts :: "(string \<Rightarrow> u64 option) \<Rightarrow> string option \<Rightarrow> string option \<Rightarrow> string option \<Rightarrow>
    asm_fault + instruction" where
  "parse_parts lookup operation op1 op2 =
    (let i = default_instruction
     in case operation of
       None \<Rightarrow> Inl Null_argument
     | Some w \<Rightarrow>
         if w = ''ADD'' then parse_operands (i\<lparr>opcode := ADD_OP\<rparr>) op1 op2
         else if w = ''SUB'' then parse_operands (i\<lparr>opcode := SUB_OP\<rparr>) op1 op2
         else if w = ''AND'' then parse_operands (i\<lparr>opcode := AND_OP\<rparr>) op1 op2
         else if w = ''OR'' then parse_operands (i\<lparr>opcode := OR_OP\<rparr>) op1 op2
         else if w = ''NOT'' then parse_operands (i\<lparr>opcode := NOT_OP, mode := REGISTER\<rparr>) op1 op2
         else if w = ''MOV'' then parse_operands (i\<lparr>opcode := MOV_OP\<rparr>) op1 op2
         else if w = ''CMP'' then parse_operands (i\<lparr>opcode := CMP_OP\<rparr>) op1 op2
         else if w = ''JMP'' then parse_jump lookup (i\<lparr>opcode := JMP_OP\<rparr>) op1 op2
         else if w = ''JE'' then parse_jump lookup (i\<lparr>opcode := JE_OP\<rparr>) op1 op2
         else if w = ''JG'' then parse_jump lookup (i\<lparr>opcode := JG_OP\<rparr>) op1 op2
         else if w = ''JL'' then parse_jump lookup (i\<lparr>opcode := JL_OP\<rparr>) op1 op2
         else parse_operands i op1 op2)"

definition replace_comma :: "string \<Rightarrow> string" where
  "replace_comma line =
    (case find_from (\<lambda>c. c = CHR '','') line 0 of None \<Rightarrow> line | Some i \<Rightarrow> line[i := CHR '' ''])"

definition parse_line_with :: "(string \<Rightarrow> u64 option) \<Rightarrow> string \<Rightarrow> asm_fault + instruction" where
  "parse_line_with lookup line =
    (case split_by_char (replace_comma line) (CHR '' '') of
       (operation, op1, op2) \<Rightarrow> parse_parts lookup operation op1 op2)"

definition parse_line :: "string \<Rightarrow> labels \<Rightarrow> asm_fault + instruction" where
  "parse_line line labels = parse_line_with (get labels) line"

subsection \<open>The first pass\<close>

definition scan_line :: "string \<Rightarrow> labels \<times> u64 \<Rightarrow> labels \<times> u64" where
  "scan_line line st =
    (case st of (labels, line_number) \<Rightarrow>
      if is_empty line then st
      else
        (let line' = remove_comment line
         in case find_from (\<lambda>c. c = CHR '':'') line' 0 of
              None \<Rightarrow> (labels, line_number + 1)
            | Some i \<Rightarrow> (put labels (take i line') line_number, line_number - 1 + 1)))"

lemma fgets_line_shorter: "(l, rest, False) = fgets MAX_LEN s \<Longrightarrow> length rest < length s"
  using fgets_shorter [of MAX_LEN s l rest] by simp

function first_pass :: "string \<Rightarrow> labels \<times> u64 \<Rightarrow> labels \<times> u64" where
  "first_pass file st =
    (case fgets MAX_LEN file of
       (line, rest, eof) \<Rightarrow>
         (let st' = (if line \<noteq> [] then scan_line (c_string line) st else st)
          in if eof then st' else first_pass rest st'))"
  by pat_completeness auto
termination
  by (relation "measure (\<lambda>(file, st). length file)") (auto dest: fgets_line_shorter)

declare first_pass.simps [simp del]

subsection \<open>The second pass\<close>

definition remove_newline :: "string \<Rightarrow> string" where
  "remove_newline str =
    (let len = length str;
         new_len = (if len > 0 \<and> str ! (len - 1) = NEWLINE then len - 1 else len)
     in take new_len str)"

text \<open>Both arrays have the same capacity; \<open>size_t\<close> arithmetic on it does not wrap here.\<close>

record asm_out =
  instructions :: "instruction list"
  instruction_text :: "string list"
  instructions_capacity :: nat

definition grow :: "asm_out \<Rightarrow> asm_out" where
  "grow out =
    (if instructions_capacity out = 0 \<or> length (instructions out) + 1 = instructions_capacity out
     then out\<lparr>instructions_capacity := (if instructions_capacity out = 0 then 4
                else instructions_capacity out * 2)\<rparr>
     else out)"

text \<open>The text of an instruction is stored before it is parsed, both at index \<open>num_instructions\<close>.\<close>

definition store_text :: "string \<Rightarrow> asm_out \<Rightarrow> asm_fault + asm_out" where
  "store_text txt out =
    (if length (instructions out) < instructions_capacity out
     then Inr (out\<lparr>instruction_text := take (length (instructions out)) (instruction_text out) @ [txt]\<rparr>)
     else Inl Array_overrun)"

definition store_instr :: "instruction \<Rightarrow> asm_out \<Rightarrow> asm_fault + asm_out" where
  "store_instr instr out =
    (if length (instructions out) < instructions_capacity out
     then Inr (out\<lparr>instructions := instructions out @ [instr]\<rparr>)
     else Inl Array_overrun)"

definition emit_line :: "labels \<Rightarrow> string \<Rightarrow> asm_out \<Rightarrow> asm_fault + asm_out" where
  "emit_line labels line out =
    (if is_empty line then Inr out
     else
       (let line_copy = remove_comment line
        in if find_from (\<lambda>c. c = CHR '':'') line_copy 0 = None \<and> \<not> is_empty line_copy
           then (case store_text (remove_newline line) out of
                   Inl f \<Rightarrow> Inl f
                 | Inr out' \<Rightarrow>
                     (case parse_line line_copy labels of
                        Inl f \<Rightarrow> Inl f
                      | Inr instr \<Rightarrow> store_instr instr out'))
           else Inr out))"

function second_pass :: "labels \<Rightarrow> string \<Rightarrow> asm_out \<Rightarrow> asm_fault + asm_out" where
  "second_pass labels file out =
    (let out0 = grow out
     in case fgets MAX_LEN file of
          (line, rest, eof) \<Rightarrow>
            (case (if line \<noteq> [] then emit_line labels (c_string line) out0 else Inr out0) of
               Inl f \<Rightarrow> Inl f
             | Inr out' \<Rightarrow> if eof then Inr out' else second_pass labels rest out'))"
  by pat_completeness auto
termination
  by (relation "measure (\<lambda>(labels, file, out). length file)") (auto dest: fgets_line_shorter)

declare second_pass.simps [simp del]

definition halt_instr :: instruction where
  "halt_instr = \<lparr>operand2 = MMIO_HALT, operand1 = 0, opcode = MOV_OP, mode = DIRECT_STORE\<rparr>"

text \<open>\<open>None\<close> is a file that cannot be opened.\<close>

definition parse_assembly :: "string option \<Rightarrow> asm_fault + asm_out" where
  "parse_assembly file =
    (case file of
       None \<Rightarrow> Inl Open_failed
     | Some text \<Rightarrow>
         (let labels = fst (first_pass text (None, 0))
          in case second_pass labels text
                \<lparr>instructions = [], instruction_text = [], instructions_capacity = 0\<rparr> of
               Inl f \<Rightarrow> Inl f
             | Inr out \<Rightarrow>
                 (case store_text ''HALT'' out of
                    Inl f \<Rightarrow> Inl f
                  | Inr out' \<Rightarrow> store_instr halt_instr out')))"

end
