(* ===== verification/Assembler_Spec.thy ===== *)
theory Assembler_Spec
  imports Assembler Memory
begin

text \<open>
  What the assembler computes.  A reference assembler works on classified lines: a map from the
  labels to the index of the next instruction, and one translation of the code lines.  The two
  passes of \<open>parse_assembly\<close>, with the hash table and the growing arrays, implement it.
\<close>

subsection \<open>Lines\<close>

datatype asm_line = Blank | Label string | Code string string

text \<open>
  What a line is: nothing, a label, or code with its text and what is left of it without the comment.
\<close>

definition classify :: "string \<Rightarrow> asm_line" where
  "classify line =
    (let s = takeWhile (\<lambda>c. c \<noteq> CHR '';'') line
     in if is_empty line then Blank
        else if CHR '':'' \<in> set s then Label (takeWhile (\<lambda>c. c \<noteq> CHR '':'') s)
        else Code (remove_newline line) s)"

function file_lines :: "string \<Rightarrow> string list" where
  "file_lines src =
    (case fgets MAX_LEN src of
       (line, rest, eof) \<Rightarrow>
         (if line = [] then [] else [c_string line]) @ (if eof then [] else file_lines rest))"
  by pat_completeness auto
termination by (relation "measure length") (auto dest: fgets_line_shorter)

declare file_lines.simps [simp del]

definition asm_lines :: "string \<Rightarrow> asm_line list" where
  "asm_lines src = map classify (file_lines src)"

text \<open>A label stands for the index of the next instruction.\<close>

fun bindings :: "u64 \<Rightarrow> asm_line list \<Rightarrow> (string \<times> u64) list" where
  "bindings n [] = []"
| "bindings n (Blank # ls) = bindings n ls"
| "bindings n (Label k # ls) = (k, n) # bindings n ls"
| "bindings n (Code t s # ls) = bindings (n + 1) ls"

fun code_of_lines :: "asm_line list \<Rightarrow> (string \<times> string) list" where
  "code_of_lines [] = []"
| "code_of_lines (Code t s # ls) = (t, s) # code_of_lines ls"
| "code_of_lines (l # ls) = code_of_lines ls"

primrec traverse :: "('a \<Rightarrow> 'e + 'b) \<Rightarrow> 'a list \<Rightarrow> 'e + 'b list" where
  "traverse f [] = Inr []"
| "traverse f (x # xs) =
    (case f x of
       Inl e \<Rightarrow> Inl e
     | Inr y \<Rightarrow> (case traverse f xs of Inl e \<Rightarrow> Inl e | Inr ys \<Rightarrow> Inr (y # ys)))"

text \<open>The reference assembler: one map of labels, one translation of the code lines.\<close>

definition assemble :: "(string \<Rightarrow> u64 option) \<Rightarrow> asm_line list \<Rightarrow> asm_fault + instruction list \<times> string list" where
  "assemble lookup ls =
    (case traverse (\<lambda>(t, s). parse_line_with lookup s) (code_of_lines ls) of
       Inl f \<Rightarrow> Inl f
     | Inr is \<Rightarrow> Inr (is @ [halt_instr], map fst (code_of_lines ls) @ [''HALT'']))"

definition label_map :: "asm_line list \<Rightarrow> string \<Rightarrow> u64 option" where
  "label_map ls = map_of (rev (bindings 0 ls))"

subsection \<open>Searching\<close>

lemma find_from_drop:
  "i \<le> length s \<Longrightarrow> find_from P s i =
     (if \<exists>c\<in>set (drop i s). P c then Some (i + length (takeWhile (\<lambda>c. \<not> P c) (drop i s))) else None)"
proof (induction "length s - i" arbitrary: i)
  case 0
  then show ?case by (subst find_from.simps) simp
next
  case (Suc n)
  then have i: "i < length s" by simp
  then have d: "drop i s = s ! i # drop (i + 1) s" by (simp add: Cons_nth_drop_Suc)
  have n: "n = length s - (i + 1)" using Suc.hyps(2) by simp
  have "find_from P s i = (if P (s ! i) then Some i else find_from P s (i + 1))"
    using i by (subst find_from.simps) simp
  also have "find_from P s (i + 1) = (if \<exists>c\<in>set (drop (i + 1) s). P c
      then Some (i + 1 + length (takeWhile (\<lambda>c. \<not> P c) (drop (i + 1) s))) else None)"
    using Suc.hyps(1) [OF n] i by simp
  finally show ?case unfolding d by simp
qed

lemmas find_from_0 = find_from_drop [where i = 0, simplified]

lemma take_length_takeWhile: "take (length (takeWhile P s)) s = takeWhile P s"
  by (metis append_eq_conv_conj takeWhile_dropWhile_id)

lemma remove_comment_takeWhile: "remove_comment line = takeWhile (\<lambda>c. c \<noteq> CHR '';'') line"
proof (cases "CHR '';'' \<in> set line")
  case True
  then show ?thesis by (simp add: remove_comment_def find_from_0 take_length_takeWhile)
next
  case False
  then have t: "takeWhile (\<lambda>c. c \<noteq> CHR '';'') line = line" by (auto simp: takeWhile_eq_all_conv)
  show ?thesis unfolding t using False by (simp add: remove_comment_def find_from_0)
qed

lemma colon_search:
  "find_from (\<lambda>c. c = CHR '':'') s 0 =
    (if CHR '':'' \<in> set s then Some (length (takeWhile (\<lambda>c. c \<noteq> CHR '':'') s)) else None)"
  by (auto simp: find_from_0)

lemma is_empty_remove_comment: "\<not> is_empty line \<Longrightarrow> \<not> is_empty (takeWhile (\<lambda>c. c \<noteq> CHR '';'') line)"
  by (induction line) (auto split: if_splits)

subsection \<open>The first pass\<close>

fun scan :: "asm_line \<Rightarrow> labels \<times> u64 \<Rightarrow> labels \<times> u64" where
  "scan Blank st = st"
| "scan (Label k) (labels, n) = (put labels k n, n)"
| "scan (Code t s) (labels, n) = (labels, n + 1)"

lemma scan_line_classify: "scan_line line st = scan (classify line) st"
  by (cases st) (simp add: scan_line_def classify_def Let_def remove_comment_takeWhile colon_search
      take_length_takeWhile)

lemma first_pass_lines: "first_pass src st = fold scan (asm_lines src) st"
proof (induction src arbitrary: st rule: file_lines.induct)
  case (1 src)
  obtain line rest eof where f: "fgets MAX_LEN src = (line, rest, eof)" by (cases "fgets MAX_LEN src")
  let ?st = "if line \<noteq> [] then scan_line (c_string line) st else st"
  have "first_pass src st = (if eof then ?st else first_pass rest ?st)"
    by (subst first_pass.simps) (simp add: f)
  moreover have "file_lines src = (if line = [] then [] else [c_string line]) @
      (if eof then [] else file_lines rest)"
    by (subst file_lines.simps) (simp add: f)
  ultimately show ?case
    using "1.IH" [OF f [symmetric] refl] by (auto simp: asm_lines_def scan_line_classify)
qed

lemma fold_scan:
  "fold scan ls (labels, n) =
     (fold (\<lambda>(k, v) t. put t k v) (bindings n ls) labels, n + of_nat (length (code_of_lines ls)))"
  by (induction ls arbitrary: labels n rule: code_of_lines.induct) (simp_all add: add.assoc)

lemma put_is_put:
  "length k \<le> 63 \<Longrightarrow> put t k v =
    (if map_option item_value (HASH_FIND_STR t k) = None then Some (HASH_ADD_STR t k v)
     else map_option (\<lambda>t. assign_found t k v) t)"
  by (auto simp: put_def split: option.splits)

lemma empty_table: "table_holds None 0" "table_map None = Map.empty"
  by (simp_all add: table_holds_def head_ok_def table_map_def)

lemma puts_are_map:
  assumes "length kvs \<le> 188" "\<forall>(k, v)\<in>set kvs. length k \<le> 63"
  shows "get (fold (\<lambda>(k, v) t. put t k v) kvs None) = map_of (rev kvs)"
proof -
  have "0 + length kvs \<le> 188" using assms(1) by simp
  from uthash.puts_law [OF put_is_put empty_table(1) this assms(2)]
  obtain a where a: "table_holds (fold (\<lambda>(k, v) t. put t k v) kvs None) a"
    "table_map (fold (\<lambda>(k, v) t. put t k v) kvs None) = table_map None ++ map_of (rev kvs)"
    by blast
  show ?thesis
    using uthash.find_view [OF a(1)] a(2) by (simp add: get_def empty_table fun_eq_iff)
qed

lemma first_pass_labels:
  assumes "length (bindings 0 ls) \<le> 188" "\<forall>(k, v)\<in>set (bindings 0 ls). length k \<le> 63"
  shows "get (fst (fold scan ls (None, 0))) = label_map ls"
  using puts_are_map [OF assms] by (simp add: fold_scan label_map_def)

text \<open>A label of more than 63 characters is stored under its first 63 and not found again.\<close>

lemma long_label_lost: "63 < length k \<Longrightarrow> get (put None k v) k = None"
proof -
  assume k: "63 < length k"
  have "put None k v = Some (HASH_ADD_STR None (take 63 k) v)" by (simp add: put_def HASH_FIND_STR_def)
  moreover have "table_holds (Some (HASH_ADD_STR None (take 63 k) v)) 1 \<and>
      table_map (Some (HASH_ADD_STR None (take 63 k) v)) = [take 63 k \<mapsto> v]"
    using add_str [OF empty_table(1), of "take 63 k" v] by (simp add: empty_table)
  moreover have "take 63 k \<noteq> k" using k by (metis length_take min_less_iff_conj nat_neq_iff)
  ultimately show ?thesis by (metis get_def fun_upd_apply uthash.find_view)
qed

subsection \<open>The second pass\<close>

text \<open>The arrays between two lines, with room for one more entry and the last \<open>HALT\<close>.\<close>

definition out_ok :: "asm_out \<Rightarrow> bool" where
  "out_ok out \<longleftrightarrow> length (instruction_text out) = length (instructions out) \<and>
     (instructions_capacity out = 0 \<and> instructions out = [] \<or>
      4 \<le> instructions_capacity out \<and> length (instructions out) < instructions_capacity out)"

definition emit :: "(string \<Rightarrow> u64 option) \<Rightarrow> asm_line \<Rightarrow> asm_out \<Rightarrow> asm_fault + asm_out" where
  "emit lookup l out =
    (case l of
       Code t s \<Rightarrow>
         (case parse_line_with lookup s of
            Inl f \<Rightarrow> Inl f
          | Inr i \<Rightarrow> Inr (out\<lparr>instructions := instructions out @ [i],
                               instruction_text := instruction_text out @ [t]\<rparr>))
     | _ \<Rightarrow> Inr out)"

lemma grow_room:
  "out_ok out \<Longrightarrow> out_ok (grow out) \<and> length (instructions (grow out)) + 1 < instructions_capacity (grow out)"
  by (auto simp: out_ok_def grow_def)

lemma grow_frame: "instructions (grow out) = instructions out" "instruction_text (grow out) = instruction_text out"
  by (simp_all add: grow_def)

lemma emit_line_classify:
  assumes "out_ok out" "length (instructions out) < instructions_capacity out"
  shows "emit_line labels line out = emit (get labels) (classify line) out"
  using assms is_empty_remove_comment [of line]
  by (auto simp: emit_line_def emit_def classify_def Let_def remove_comment_takeWhile colon_search
      store_text_def store_instr_def parse_line_def out_ok_def split: sum.splits)

lemma emit_ok:
  assumes "emit lookup l out = Inr out'" "out_ok out"
    "length (instructions out) + 1 < instructions_capacity out"
  shows "out_ok out'" "0 < instructions_capacity out'"
  using assms by (auto simp: emit_def out_ok_def split: asm_line.splits sum.splits)

text \<open>The entries the lines produce, as one list.\<close>

definition entries :: "(string \<Rightarrow> u64 option) \<Rightarrow> asm_line list \<Rightarrow> asm_fault + instruction list" where
  "entries lookup ls = traverse (\<lambda>(t, s). parse_line_with lookup s) (code_of_lines ls)"

lemma parse_operands_fault: "parse_operands i a b = Inl f \<Longrightarrow> f = Null_argument"
  by (auto simp: parse_operands_def Let_def split: option.splits)

lemma parse_jump_fault: "parse_jump lookup i a b = Inl f \<Longrightarrow> f = Null_argument"
  by (auto simp: parse_jump_def Let_def split: option.splits)

lemma parse_line_fault: "parse_line_with lookup s = Inl f \<Longrightarrow> f = Null_argument"
  unfolding parse_line_with_def parse_parts_def Let_def
  by (auto split: prod.splits option.splits if_splits dest: parse_operands_fault parse_jump_fault)

lemma traverse_fault: "traverse (\<lambda>(t, s). parse_line_with lookup s) xs = Inl f \<Longrightarrow> f = Null_argument"
  by (induction xs) (auto split: sum.splits dest: parse_line_fault)

lemma traverse_length: "traverse f xs = Inr ys \<Longrightarrow> length ys = length xs"
  by (induction xs arbitrary: ys) (auto split: sum.splits)

lemma entries_emit:
  "entries lookup (l # ls) =
    (case emit lookup l \<lparr>instructions = [], instruction_text = [], instructions_capacity = 0\<rparr> of
       Inl f \<Rightarrow> Inl f
     | Inr e \<Rightarrow> (case entries lookup ls of Inl f \<Rightarrow> Inl f | Inr is \<Rightarrow> Inr (instructions e @ is)))"
  by (cases l) (auto simp: entries_def emit_def split: sum.splits)

definition emits :: "(string \<Rightarrow> u64 option) \<Rightarrow> asm_line list \<Rightarrow> asm_out \<Rightarrow> asm_fault + asm_out \<Rightarrow> bool" where
  "emits lookup ls out r \<longleftrightarrow>
    (case entries lookup ls of
       Inl f \<Rightarrow> r = Inl f
     | Inr is \<Rightarrow> (\<exists>out'. r = Inr out' \<and> out_ok out' \<and> 0 < instructions_capacity out' \<and>
         instructions out' = instructions out @ is \<and>
         instruction_text out' = instruction_text out @ map fst (code_of_lines ls)))"

lemma emits_Nil: "out_ok out \<Longrightarrow> 0 < instructions_capacity out \<Longrightarrow> emits lookup [] out (Inr out)"
  by (simp add: emits_def entries_def)

lemma emits_fault: "emit lookup l out = Inl f \<Longrightarrow> emits lookup (l # ls) out (Inl f)"
  by (cases l) (auto simp: emits_def entries_emit emit_def split: sum.splits)

lemma emits_Cons: "emit lookup l out = Inr out1 \<Longrightarrow> emits lookup ls out1 r \<Longrightarrow> emits lookup (l # ls) out r"
  by (cases l) (auto simp: emits_def entries_emit emit_def split: sum.splits)

lemma emits_grow: "emits lookup ls (grow out) r \<Longrightarrow> emits lookup ls out r"
  unfolding emits_def grow_frame .

lemma second_pass_lines:
  "out_ok out \<Longrightarrow> emits (get labels) (asm_lines src) out (second_pass labels src out)"
proof (induction src arbitrary: out rule: file_lines.induct)
  case (1 src)
  obtain line rest eof where f: "fgets MAX_LEN src = (line, rest, eof)" by (cases "fgets MAX_LEN src")
  let ?o = "grow out"
  have o: "out_ok ?o" "length (instructions ?o) + 1 < instructions_capacity ?o"
    using grow_room [OF "1.prems"] by simp_all
  have step: "second_pass labels src out =
      (case (if line \<noteq> [] then emit (get labels) (classify (c_string line)) ?o else Inr ?o) of
         Inl f \<Rightarrow> Inl f | Inr out' \<Rightarrow> if eof then Inr out' else second_pass labels rest out')"
    using o by (subst second_pass.simps) (simp add: f Let_def emit_line_classify)
  have ls: "asm_lines src = (if line = [] then [] else [classify (c_string line)]) @
      (if eof then [] else asm_lines rest)"
    unfolding asm_lines_def by (subst file_lines.simps) (simp add: f)
  have rest: "emits (get labels) (if eof then [] else asm_lines rest) out1
      (if eof then Inr out1 else second_pass labels rest out1)"
    if "out_ok out1" "0 < instructions_capacity out1" for out1
    using that emits_Nil "1.IH" [OF f [symmetric] refl] by simp
  show ?case
  proof (rule emits_grow, cases "line = []")
    case True
    then show "emits (get labels) (asm_lines src) ?o (second_pass labels src out)"
      unfolding ls step using rest [OF o(1)] o(2) by simp
  next
    case False
    show "emits (get labels) (asm_lines src) ?o (second_pass labels src out)"
    proof (cases "emit (get labels) (classify (c_string line)) ?o")
      case (Inl e)
      then show ?thesis unfolding ls step using False by (simp add: emits_fault)
    next
      case (Inr out1)
      from emits_Cons [OF Inr rest [OF emit_ok [OF Inr o]]] Inr False
      show ?thesis unfolding ls step by simp
    qed
  qed
qed

subsection \<open>The assembler\<close>

abbreviation result_of :: "asm_fault + asm_out \<Rightarrow> asm_fault + instruction list \<times> string list" where
  "result_of \<equiv> map_sum id (\<lambda>out. (instructions out, instruction_text out))"

abbreviation labels_of :: "string \<Rightarrow> labels" where
  "labels_of src \<equiv> fst (first_pass src (None, 0))"

lemma second_pass_start:
  "emits (get labels) (asm_lines src) \<lparr>instructions = [], instruction_text = [], instructions_capacity = 0\<rparr>
     (second_pass labels src \<lparr>instructions = [], instruction_text = [], instructions_capacity = 0\<rparr>)"
  by (rule second_pass_lines) (simp add: out_ok_def)

lemma parse_assembly_result:
  "result_of (parse_assembly (Some src)) = assemble (get (labels_of src)) (asm_lines src)"
  "parse_assembly (Some src) = Inr out \<Longrightarrow> length (instructions out) \<le> instructions_capacity out"
  using second_pass_start [of "labels_of src" src]
  by (auto simp: parse_assembly_def Let_def emits_def assemble_def entries_def store_text_def
      store_instr_def out_ok_def split: sum.splits)

subsection \<open>Labels in the assembled program\<close>

definition labels_fit :: "asm_line list \<Rightarrow> bool" where
  "labels_fit ls \<longleftrightarrow> length (bindings 0 ls) \<le> 188 \<and> (\<forall>(k, v)\<in>set (bindings 0 ls). length k \<le> 63)"

lemma labels_of_fit: "labels_fit (asm_lines src) \<Longrightarrow> get (labels_of src) = label_map (asm_lines src)"
  unfolding first_pass_lines labels_fit_def using first_pass_labels by blast

lemma bindings_append:
  "bindings n (ls @ ms) = bindings n ls @ bindings (n + of_nat (length (code_of_lines ls))) ms"
  by (induction n ls rule: bindings.induct) (simp_all add: add.assoc)

lemma code_of_lines_append: "code_of_lines (ls @ ms) = code_of_lines ls @ code_of_lines ms"
  by (induction ls rule: code_of_lines.induct) simp_all

lemma bindings_labels: "k \<in> fst ` set (bindings n ls) \<longleftrightarrow> Label k \<in> set ls"
  by (induction n ls rule: bindings.induct) auto

lemma label_map_last:
  assumes "Label k \<notin> set post"
  shows "label_map (pre @ Label k # post) k = Some (of_nat (length (code_of_lines pre)))"
proof -
  have "map_of (rev (bindings n post)) k = None" for n
    using assms bindings_labels [of k n post] by (simp add: map_of_eq_None_iff)
  then show ?thesis by (simp add: label_map_def bindings_append map_add_def)
qed

lemma assembled_length:
  assumes "parse_assembly (Some src) = Inr out"
  shows "length (instructions out) = length (code_of_lines (asm_lines src)) + 1"
    "length (instruction_text out) = length (code_of_lines (asm_lines src)) + 1"
  using parse_assembly_result(1) [of src] assms
  by (auto simp: assemble_def dest: traverse_length split: sum.splits)

text \<open>
  C6.  The two passes implement the reference assembler.
\<close>

theorem assembler_refines:
  assumes "labels_fit (asm_lines src)"
  shows "result_of (parse_assembly (Some src)) = assemble (label_map (asm_lines src)) (asm_lines src)"
  by (simp add: parse_assembly_result(1) labels_of_fit [OF assms])

definition demo_src :: string where
  "demo_src = ''MOV R0, 1'' @ [NEWLINE] @ ''LOOP:'' @ [NEWLINE] @ ''JMP LOOP ; again'' @ [NEWLINE]"

lemma demo_lines:
  "asm_lines demo_src = [Code ''MOV R0, 1'' (''MOV R0, 1'' @ [NEWLINE]), Label ''LOOP'',
     Code ''JMP LOOP ; again'' ''JMP LOOP '']"
  by code_simp

lemma demo_fits: "labels_fit (asm_lines demo_src)"
  unfolding demo_lines by (simp add: labels_fit_def)

theorem assembler_refines_witness:
  "result_of (parse_assembly (Some demo_src)) =
     Inr ([\<lparr>operand2 = 1, operand1 = 0, opcode = MOV_OP, mode = IMMEDIATE\<rparr>,
           \<lparr>operand2 = 1, operand1 = 0xFF, opcode = JMP_OP, mode = LABEL\<rparr>, halt_instr],
          [''MOV R0, 1'', ''JMP LOOP ; again'', ''HALT''])"
  unfolding assembler_refines [OF demo_fits] demo_lines by code_simp

text \<open>
  C9.  The label table is a map: after putting up to 188 labels of at most 63 characters, whatever
  their hash values and however often the table grew, a search finds the value put last under
  a key, and nothing under any other key.
\<close>

theorem label_table_map:
  assumes "length kvs \<le> 188" "\<forall>(k, v)\<in>set kvs. length k \<le> 63"
  shows "get (fold (\<lambda>(k, v) t. put t k v) kvs None) = map_of (rev kvs)"
  by (rule puts_are_map [OF assms])

theorem label_table_map_witness:
  "get (fold (\<lambda>(k, v) t. put t k v) [(''LOOP'', 3), (''END'', 9), (''LOOP'', 5)] None) ''LOOP'' = Some 5"
  using label_table_map [of "[(''LOOP'', 3), (''END'', 9), (''LOOP'', 5)]"] by simp

text \<open>
  C12.  The two arrays are never overrun, the \<open>HALT\<close> entry included: with \<open>n\<close> lines of code an
  assembly either dereferences a null pointer or gives \<open>n + 1\<close> instructions and as many texts, no
  more than the capacity, and the two passes agree on \<open>n\<close>.
\<close>

theorem assembler_arrays:
  "case parse_assembly (Some src) of
     Inl f \<Rightarrow> f = Null_argument
   | Inr out \<Rightarrow>
       length (instructions out) = length (code_of_lines (asm_lines src)) + 1 \<and>
       length (instruction_text out) = length (instructions out) \<and>
       length (instructions out) \<le> instructions_capacity out \<and>
       last (instructions out) = halt_instr \<and>
       snd (first_pass src (None, 0)) = of_nat (length (code_of_lines (asm_lines src)))"
proof (cases "parse_assembly (Some src)")
  case (Inl f)
  then have "assemble (get (labels_of src)) (asm_lines src) = Inl f"
    using parse_assembly_result(1) [of src] by simp
  then show ?thesis using Inl by (simp add: assemble_def traverse_fault split: sum.splits)
next
  case (Inr out)
  have "assemble (get (labels_of src)) (asm_lines src) = Inr (instructions out, instruction_text out)"
    using parse_assembly_result(1) [of src] Inr by simp
  then obtain "is" where "instructions out = is @ [halt_instr]"
    by (auto simp: assemble_def split: sum.splits dest: sym)
  then have "last (instructions out) = halt_instr" by simp
  then show ?thesis
    using assembled_length [OF Inr] parse_assembly_result(2) [OF Inr] Inr
    by (simp add: first_pass_lines fold_scan)
qed

text \<open>
  C8.  A label names the instruction after it: in the assembled program, loaded into a large enough
  memory, a jump to a label, which sets the program counter to \<open>INSTR_SIZE\<close> times its operand, finds
  the instruction that follows the label's last definition, or the final \<open>HALT\<close>.
\<close>

theorem label_target:
  assumes "labels_fit (asm_lines src)" "asm_lines src = pre @ Label k # post" "Label k \<notin> set post"
    and "parse_assembly (Some src) = Inr out"
    and "length (instructions out) * INSTR_SIZE + INSTR_SIZE \<le> MEM_SIZE"
    and "store_machine_code m MEM_SIZE (instructions out) (length (instructions out)) = Some m'"
  shows "\<exists>i. parse_jump (get (labels_of src)) default_instruction (Some k) None = Inr i \<and>
    fetch_next m' (operand2 i * INSTR_SIZE) = Some (instructions out ! length (code_of_lines pre))"
proof -
  let ?n = "length (code_of_lines pre)"
  have l: "get (labels_of src) k = Some (of_nat ?n)"
    using label_map_last [OF assms(3), of pre] by (simp add: labels_of_fit [OF assms(1)] assms(2))
  have n: "?n < length (instructions out)"
    using assembled_length(1) [OF assms(4)] by (simp add: assms(2) code_of_lines_append)
  have "fetch_next m' (of_nat (?n * INSTR_SIZE)) = Some (instructions out ! ?n)"
    by (rule fetch_stored [OF assms(5) n assms(6)])
  then show ?thesis using l by (simp add: parse_jump_def Let_def mult.commute)
qed


abbreviation (input) demo_instructions :: "instruction list" where
  "demo_instructions \<equiv> [\<lparr>operand2 = 1, operand1 = 0, opcode = MOV_OP, mode = IMMEDIATE\<rparr>,
     \<lparr>operand2 = 1, operand1 = 0xFF, opcode = JMP_OP, mode = LABEL\<rparr>, halt_instr]"

lemma demo_out:
  obtains out where "parse_assembly (Some demo_src) = Inr out" "instructions out = demo_instructions"
proof -
  have "result_of (parse_assembly (Some demo_src)) =
      assemble (label_map (asm_lines demo_src)) (asm_lines demo_src)"
    by (simp add: parse_assembly_result(1) labels_of_fit [OF demo_fits])
  also have "\<dots> = Inr (demo_instructions, [''MOV R0, 1'', ''JMP LOOP ; again'', ''HALT''])"
    unfolding demo_lines by code_simp
  finally show ?thesis using that by (cases "parse_assembly (Some demo_src)") auto
qed

theorem label_target_witness:
  "\<exists>m' i. parse_jump (get (labels_of demo_src)) default_instruction (Some ''LOOP'') None = Inr i \<and>
    fetch_next m' (operand2 i * INSTR_SIZE) =
      Some \<lparr>operand2 = 1, operand1 = 0xFF, opcode = JMP_OP, mode = LABEL\<rparr>"
proof -
  obtain out where out: "parse_assembly (Some demo_src) = Inr out" "instructions out = demo_instructions"
    by (rule demo_out)
  have fits: "length demo_instructions * INSTR_SIZE + INSTR_SIZE \<le> MEM_SIZE" by simp
  obtain m' where m: "store_machine_code (\<lambda>_. 0) MEM_SIZE demo_instructions (length demo_instructions) = Some m'"
    using store_program [OF fits, of demo_instructions "\<lambda>_. 0"] fits
    by (auto simp: store_machine_code_def simp del: of_nat_mult)
  have "asm_lines demo_src = [Code ''MOV R0, 1'' (''MOV R0, 1'' @ [NEWLINE])] @ Label ''LOOP'' #
      [Code ''JMP LOOP ; again'' ''JMP LOOP '']" by (simp add: demo_lines)
  from label_target [OF demo_fits this _ out(1) _ m [folded out(2)]] show ?thesis
    by (auto simp: out(2))
qed

end
