(* ===== verification/Program.thy ===== *)
theory Program
  imports Emulator Cache_Run Assembler_Spec
begin

text \<open>
  The program (\<open>userspace/src/main.c\<close>): the assembler, the loader, the execution loop over both
  devices and the cache simulator in one run.  What the program meets outside itself is a \<open>host\<close>: its
  arguments, the files, the environment of the execution loop, which openings and allocations
  succeed, and what the user types.  A path that does not fit its buffer, like a null argument, crashes.
\<close>

subsection \<open>The program\<close>

record host =
  argv :: "string list"
  files :: "string \<Rightarrow> string option"
  environment :: "nat \<Rightarrow> env"
  cpu_opens :: "int \<times> int \<times> bool"
  trace_opens :: bool
  kmalloc_start :: "(nat \<Rightarrow> mem_access) option"
  malloc_traces :: bool
  open_traces :: bool
  realloc_traces :: "nat \<Rightarrow> bool"
  stack_word :: u32
  stack_levels :: hierarchy
  typed :: "u32 option list"

datatype main_end = Exit_success "sim_report option" | Exit_failure | Waits | Crashes | Kernel_oops

definition no_memory :: memory where
  "no_memory = (\<lambda>_. 0)"

definition run_simulator :: "host \<Rightarrow> trace_buffer \<Rightarrow> main_end option" where
  "run_simulator w tb =
    (case run_cache_sim (\<lambda>n. trace_read (n * sizeof_mem_access) (\<lambda>_. True)) (malloc_traces w) (open_traces w)
            (realloc_traces w) (stack_word w) (stack_levels w) (typed w) tb of
       None \<Rightarrow> None
     | Some (tb', report) \<Rightarrow> Some (Exit_success report))"

definition run_program :: "host \<Rightarrow> instruction list \<Rightarrow> gate \<Rightarrow> board \<Rightarrow> trace_buffer \<Rightarrow> main_end option" where
  "run_program w is g b tb =
    (case store_machine_code no_memory MEM_SIZE is (length is) of
       None \<Rightarrow> Some Crashes
     | Some m \<Rightarrow>
         (case run (environment w) (cpu_opens w) (trace_opens w) (kmalloc_start w)
                 (sint (of_nat (length is) :: 32 word)) m g b tb of
            None \<Rightarrow> None
          | Some (Finished r, e) \<Rightarrow>
              (if r \<noteq> 0 then Some Exit_failure
               else run_simulator w (case e of None \<Rightarrow> tb | Some e' \<Rightarrow> dev_trace e'))
          | Some (Waiting, e) \<Rightarrow> Some Waits
          | Some (Segfault, e) \<Rightarrow> Some Crashes
          | Some (Kernel_fault, e) \<Rightarrow> Some Kernel_oops))"

definition main_program :: "host \<Rightarrow> gate \<Rightarrow> board \<Rightarrow> trace_buffer \<Rightarrow> main_end option" where
  "main_program w g b tb =
    (case argv w of
       prog # arg # rest \<Rightarrow>
         (let path = ''./doc/'' @ arg
          in if length path + 1 > 128 then Some Crashes
             else (case parse_assembly (files w path) of
                     Inl Open_failed \<Rightarrow> Some Exit_failure
                   | Inl Null_argument \<Rightarrow> Some Crashes
                   | Inl Array_overrun \<Rightarrow> Some Crashes
                   | Inr out \<Rightarrow> run_program w (instructions out) g b tb))
     | _ \<Rightarrow> Some Crashes)"

subsection \<open>The collector has delivered nothing\<close>

definition unread :: "trace_buffer \<Rightarrow> bool" where
  "unread tb \<longleftrightarrow> buffer_ok tb \<and> pending tb = contents tb"

lemma trace_write_unread: "unread tb \<Longrightarrow> unread (fst (trace_write len buf km tb))"
proof -
  assume u: "unread tb"
  obtain tb' st where w: "trace_write len buf km tb = (tb', st)" by fastforce
  with trace_write_cases [OF _ w] u show ?thesis
    by (auto simp: unread_def split: if_splits option.splits)
qed

fun flow_state :: "emu flow \<Rightarrow> emu" where
  "flow_state (Go e) = e"
| "flow_state (Stop r e) = e"

lemma record_access_unread: "unread (dev_trace e) \<Longrightarrow> unread (dev_trace (record_access km a ty e))"
  by (simp add: record_access_def Let_def trace_write_unread)

lemma fetch_step_unread: "unread (dev_trace e) \<Longrightarrow> unread (dev_trace (flow_state (fetch_step v e)))"
  by (auto simp: fetch_step_def record_access_unread split: option.splits)

lemma serve_unread: "unread (dev_trace e) \<Longrightarrow> unread (dev_trace (flow_state (serve v e)))"
  by (auto simp: serve_def serve_read_def serve_write_def Let_def record_access_unread
      intro!: fetch_step_unread split: option.splits syscall.splits)

lemma iteration_unread: "unread (dev_trace e) \<Longrightarrow> unread (dev_trace (flow_state (run_iteration n v e)))"
  by (auto simp: run_iteration_def Let_def intro!: serve_unread split: syscall.splits)

lemma run_loop_unread:
  assumes "run_loop envs n k e = Some y" "unread (dev_trace e)"
  shows "unread (dev_trace (snd y))"
proof -
  have "unread (dev_trace e) \<longrightarrow> unread (dev_trace (snd y))"
  proof (rule run_loop.raw_induct [where P = "\<lambda>envs n k e y. unread (dev_trace e) \<longrightarrow> unread (dev_trace (snd y))",
        OF _ assms(1)], intro impI)
    fix f :: "(nat \<Rightarrow> env) \<Rightarrow> int \<Rightarrow> nat \<Rightarrow> emu \<Rightarrow> (run_end \<times> emu) option"
    fix envs n k e y
    assume IH: "\<And>envs n k e y. f envs n k e = Some y \<Longrightarrow> unread (dev_trace e) \<longrightarrow> unread (dev_trace (snd y))"
      and step: "(case run_iteration n (envs k) e of Go e' \<Rightarrow> f envs n (k + 1) e' | Stop r e' \<Rightarrow> Some (r, e')) = Some y"
      and u: "unread (dev_trace e)"
    from iteration_unread [OF u, of n "envs k"] step IH show "unread (dev_trace (snd y))"
      by (cases "run_iteration n (envs k) e") auto
  qed
  with assms(2) show ?thesis by blast
qed

lemma run_unread:
  assumes "run envs opened opens km n m g b tb = Some (r, Some e)" "unread tb"
  shows "unread (dev_trace e)"
proof -
  have start: "unread (dev_trace e0)" if "run_init m g' ctx b km tb = Some e0" for g' ctx e0
    using that assms(2) by (auto simp: run_init_def trace_write_unread split: option.splits)
  from assms(1) obtain g' ctx e0 where "run_init m g' ctx b km tb = Some e0" "run_loop envs n 0 e0 = Some (r, e)"
    by (auto simp: run_def split: prod.splits option.splits if_splits)
  from run_loop_unread [OF this(2)] start [OF this(1)] show ?thesis by simp
qed

subsection \<open>A complete run\<close>

lemma simulator_report:
  assumes "unread tb" "malloc_traces w" "open_traces w" "\<And>n. realloc_traces w n"
    and "configure_cache_sim_parameters (stack_word w) initial_globals (typed w) = Some (g, rest)"
    and "contents tb \<noteq> []"
    and "simulate (contents tb) (length (contents tb)) (g, init_levels g (stack_levels w)) = (g', h)"
  shows "run_simulator w tb =
    Some (Exit_success (Some (make_report (contents tb) (length (contents tb)) g' h)))"
proof -
  have ok: "buffer_ok tb" using assms(1) by (simp add: unread_def)
  from collector.load_loop_ends [OF ok, of "[]" INITIAL_TRACE_CAPACITY "realloc_traces w"] assms(4)
  obtain tb' cap ending where
    "load_loop (\<lambda>n. trace_read (n * sizeof_mem_access) (\<lambda>_. True)) (realloc_traces w) INITIAL_TRACE_CAPACITY [] tb =
       Some (tb', pending tb, cap, ending)" by force
  moreover have "pending tb = contents tb" using assms(1) by (simp add: unread_def)
  ultimately show ?thesis
    using assms by (simp add: run_simulator_def run_cache_sim_def load_traces_def)
qed


fun outcome_log :: "outcome \<Rightarrow> mem_access list" where
  "outcome_log (Runs M) = log M"
| "outcome_log (Ends r M) = log M"

lemma next_fetch_log: "log M \<noteq> [] \<Longrightarrow> outcome_log (next_fetch M) \<noteq> []"
  by (auto simp: next_fetch_def log_access_def split: option.splits)

lemma finish_event_log: "log M \<noteq> [] \<Longrightarrow> outcome_log (finish_event ev M) \<noteq> []"
  by (auto simp: finish_event_def log_access_def intro!: next_fetch_log split: event.splits option.splits)

lemma machine_step_log: "log M \<noteq> [] \<Longrightarrow> outcome_log (machine_step n v M) \<noteq> []"
  by (auto simp: machine_step_def Let_def intro!: finish_event_log split: option.splits prod.splits)

lemma machine_run_log:
  "machine_run n input fuel k M = Some (r, M') \<Longrightarrow> log M \<noteq> [] \<Longrightarrow> log M' \<noteq> []"
proof (induction fuel arbitrary: k M)
  case 0
  then show ?case by simp
next
  case (Suc fuel)
  then show ?case
    using machine_step_log [of M n "input k"] by (cases "machine_step n (input k) M") auto
qed

lemma small_int: "n < 2 ^ 31 \<Longrightarrow> sint (of_nat n :: 32 word) = int n"
  by (simp add: sint_uint uint_nat unat_of_nat take_bit_nat_eq_self_iff signed_take_bit_int_eq_self)

lemma run_program_report:
  assumes "length is * INSTR_SIZE + INSTR_SIZE \<le> MEM_SIZE"
    and "store_machine_code no_memory MEM_SIZE is (length is) = Some m"
    and "cpu_opens w = (run_val, 0, True)" "run_val > 0" "trace_opens w" "kmalloc_start w \<noteq> None"
    and "undisturbed (environment w)"
    and "machine_run (length is) (\<lambda>k. pin (environment w k)) fuel 0 (reset_machine m) = Some (Finished 0, M')"
    and "malloc_traces w" "open_traces w" "\<And>n. realloc_traces w n"
    and "configure_cache_sim_parameters (stack_word w) initial_globals (typed w) = Some (g0, rest)"
    and "simulate (log M') (length (log M')) (g0, init_levels g0 (stack_levels w)) = (g', h)"
  shows "run_program w is g b trace_buffer_init =
    Some (Exit_success (Some (make_report (log M') (length (log M')) g' h)))"
proof -
  have fresh: "unread trace_buffer_init" by (simp add: unread_def buffer_ok_init)
  obtain e where e: "run (environment w) (run_val, 0, True) True (kmalloc_start w) (int (length is)) m g b
      trace_buffer_init = Some (Finished 0, Some e)" "contents (dev_trace e) = log M'"
    using run_from_reset [OF assms(4,7) buffer_ok_init(1) assms(6,8), of g b] by (auto simp: buffer_ok_init)
  have "log M' \<noteq> []" by (rule machine_run_log [OF assms(8)]) (simp add: reset_machine_def)
  moreover have "sint (of_nat (length is) :: 32 word) = int (length is)"
    using assms(1) by (intro small_int) simp
  ultimately show ?thesis
    using simulator_report [OF run_unread [OF e(1) fresh], of w g0 rest g' h] e assms(2,3,5,9-13)
    by (simp add: run_program_def)
qed

lemma main_assembles:
  assumes "argv w = [prog, arg]" "length arg \<le> 121" "files w (''./doc/'' @ arg) = Some src"
    and "labels_fit (asm_lines src)" "assemble (label_map (asm_lines src)) (asm_lines src) = Inr (is, texts)"
  shows "main_program w g b tb = run_program w is g b tb"
proof -
  have "result_of (parse_assembly (Some src)) = Inr (is, texts)"
    using parse_assembly_result(1) [of src] labels_of_fit [OF assms(4)] assms(5) by simp
  then obtain out where "parse_assembly (Some src) = Inr out" "instructions out = is"
    by (cases "parse_assembly (Some src)") auto
  then show ?thesis using assms(1-3) by (simp add: main_program_def Let_def)
qed

definition one_line_src :: string where
  "one_line_src = ''MOV R1, 5'' @ [NEWLINE]"

definition demo_host :: host where
  "demo_host = \<lparr>argv = [''main'', ''p.txt''], files = [''./doc/p.txt'' \<mapsto> one_line_src],
     environment = (\<lambda>_. quiet_env), cpu_opens = (1, 0, True), trace_opens = True,
     kmalloc_start = Some (\<lambda>_. \<lparr>acc_addr = 0, acc_type = 0\<rparr>), malloc_traces = True, open_traces = True,
     realloc_traces = (\<lambda>_. True), stack_word = 0,
     stack_levels = \<lparr>l1 = blank_level, l2 = blank_level, l3 = blank_level\<rparr>,
     typed = [Some 1, Some 16, Some 1, Some 16, Some 2]\<rparr>"

lemma demo_config:
  "configure_cache_sim_parameters 0 initial_globals [Some 1, Some 16, Some 1, Some 16, Some 2] =
    Some (\<lparr>global_timer = 0, num_lvls = 1, line_size = 16, assoc = [1, 0, 0], lvl_size = [16, 0, 0],
      policy = ALG_LRU\<rparr>, [])"
  by (simp add: configure_cache_sim_parameters_def ask_def ask_if_def initial_globals_def
      is_valid_num_lvls_def is_valid_line_size_def is_valid_assoc_def is_valid_lvl_size_def
      is_valid_algorithm_num_def is_power_of_two_def)

lemma two_line_run:
  assumes "fetch_next m 0 = Some (ins MOV_OP IMMEDIATE 1 5)"
    "fetch_next m 11 = Some (ins MOV_OP DIRECT_STORE 0 0xFFFF)"
  shows "\<exists>M'. machine_run 2 (\<lambda>_. 0) (Suc (Suc 0)) 0 (reset_machine m) = Some (Finished 0, M') \<and>
    log M' = [\<lparr>acc_addr = 0, acc_type = 0\<rparr>, \<lparr>acc_addr = 11, acc_type = 0\<rparr>]"
  by (simp add: machine_step_def reset_machine_def assms two_line_decode isa_exec_def abs_cpu_def
        zero_cpu_def faults_def finish_event_def next_fetch_def log_access_def next_ip_def set_reg_def)

end
