(* ===== verification/Typed_Programs.thy ===== *)
theory Typed_Programs
  imports Program
begin

text \<open>
  A static check of assembled programs, in the way of a type system: every instruction has a meaning,
  names registers that exist, loads from and stores to memory, stores outside the program and jumps
  into it, and the program ends with the halt.  The emulator runs such a program without a fault.
\<close>

subsection \<open>The check\<close>

fun op_typed :: "nat \<Rightarrow> isa \<Rightarrow> bool" where
  "op_typed n (Load k a) = (reg_of (ucast k) \<noteq> None \<and> unat a + 8 \<le> MEM_SIZE)"
| "op_typed n (Store k a) = (reg_of (ucast k) \<noteq> None \<and> n * INSTR_SIZE \<le> unat a \<and> unat a + 8 \<le> MEM_SIZE)"
| "op_typed n (Jump c t) = (unat t < n)"
| "op_typed n _ = True"

definition instr_typed :: "nat \<Rightarrow> instruction \<Rightarrow> bool" where
  "instr_typed n w = (case decode w of None \<Rightarrow> False | Some a \<Rightarrow> op_typed n a)"

definition typed_code :: "instruction list \<Rightarrow> bool" where
  "typed_code ws \<longleftrightarrow> ws \<noteq> [] \<and> length ws * INSTR_SIZE + INSTR_SIZE \<le> MEM_SIZE \<and>
     list_all (instr_typed (length ws)) ws \<and> decode (last ws) = Some Halt"

text \<open>The states a typed program keeps to: at one of its instructions, with its code untouched.\<close>

definition holds_code :: "memory \<Rightarrow> instruction list \<Rightarrow> bool" where
  "holds_code m ws \<longleftrightarrow> (\<forall>i<length ws. fetch_next m (of_nat (i * INSTR_SIZE)) = Some (ws ! i))"

definition same_code :: "instruction list \<Rightarrow> memory \<Rightarrow> memory \<Rightarrow> bool" where
  "same_code ws m m' \<longleftrightarrow> (\<forall>j<length ws * INSTR_SIZE. m' j = m j)"

definition on_code :: "instruction list \<Rightarrow> memory \<Rightarrow> machine \<Rightarrow> bool" where
  "on_code ws m M \<longleftrightarrow> (\<exists>k<length ws. ip (cpu M) = of_nat (k * INSTR_SIZE)) \<and> same_code ws m (ram M)"

definition stays_typed :: "instruction list \<Rightarrow> memory \<Rightarrow> outcome \<Rightarrow> bool" where
  "stays_typed ws m out \<longleftrightarrow>
     (case out of
        Runs M \<Rightarrow> on_code ws m M
      | Ends r M \<Rightarrow> r = Finished 0 \<and> same_code ws m (ram M))"

subsection \<open>Every step keeps to the code\<close>

lemma code_offset:
  assumes "typed_code ws" "k < length ws"
  shows "unat (of_nat (k * INSTR_SIZE) :: u64) = k * INSTR_SIZE"
    "k * INSTR_SIZE + INSTR_SIZE \<le> length ws * INSTR_SIZE" "length ws * INSTR_SIZE \<le> MEM_SIZE"
proof -
  show len: "length ws * INSTR_SIZE \<le> MEM_SIZE" using assms(1) unfolding typed_code_def by linarith
  have "Suc k * INSTR_SIZE \<le> length ws * INSTR_SIZE" using assms(2) by (intro mult_le_mono1) simp
  then show le: "k * INSTR_SIZE + INSTR_SIZE \<le> length ws * INSTR_SIZE" by simp
  show "unat (of_nat (k * INSTR_SIZE) :: u64) = k * INSTR_SIZE"
    using le len by (subst unat_of_nat) (simp add: take_bit_nat_eq_self_iff del: of_nat_mult)
qed

lemma fetch_on_code:
  assumes "typed_code ws" "holds_code m ws" "same_code ws m m'" "k < length ws"
  shows "fetch_next m' (of_nat (k * INSTR_SIZE)) = Some (ws ! k)"
proof -
  have "fetch_next m' (of_nat (k * INSTR_SIZE)) = fetch_next m (of_nat (k * INSTR_SIZE))"
    using code_offset [OF assms(1,4)] assms(3)
    by (intro fetch_cong) (simp add: same_code_def del: of_nat_mult)
  then show ?thesis using assms(2,4) by (simp add: holds_code_def)
qed

text \<open>What the next instruction may be, for the instruction at index \<open>k\<close>.\<close>

lemma exec_typed:
  assumes "isa_exec input (Some a) s = (s', ev)" "op_typed n a" "ip s = of_nat (k * INSTR_SIZE)"
    and "a \<noteq> Halt \<Longrightarrow> Suc k < n"
  shows "ev = Rejected \<or> ev = Halted \<or> (\<exists>k'<n. ip s' = of_nat (k' * INSTR_SIZE))"
    "ev = Want_read q x \<Longrightarrow> reg_of (ucast q) \<noteq> None \<and> unat x + 8 \<le> MEM_SIZE"
    "ev = Want_write q x \<Longrightarrow> reg_of (ucast q) \<noteq> None \<and> n * INSTR_SIZE \<le> unat x \<and> unat x + 8 \<le> MEM_SIZE"
proof -
  have seq: "\<exists>k'<n. of_nat (k * INSTR_SIZE) + 11 = (of_nat (k' * INSTR_SIZE) :: u64)" if "a \<noteq> Halt"
    using assms(4) [OF that] by (intro exI [of _ "Suc k"]) (simp add: algebra_simps)
  have jump: "\<exists>k'<n. t * 11 = (of_nat (k' * INSTR_SIZE) :: u64)" if "unat t < n" for t :: u64
    using that by (intro exI [of _ "unat t"]) simp
  show "ev = Rejected \<or> ev = Halted \<or> (\<exists>k'<n. ip s' = of_nat (k' * INSTR_SIZE))"
    using assms(1-3) seq jump
    by (cases a) (auto simp: isa_exec_def next_ip_def set_reg_def Let_def simp del: of_nat_mult split: if_splits)
  show "ev = Want_read q x \<Longrightarrow> reg_of (ucast q) \<noteq> None \<and> unat x + 8 \<le> MEM_SIZE"
    "ev = Want_write q x \<Longrightarrow> reg_of (ucast q) \<noteq> None \<and> n * INSTR_SIZE \<le> unat x \<and> unat x + 8 \<le> MEM_SIZE"
    using assms(1,2) by (cases a; auto simp: isa_exec_def Let_def split: if_splits)+
qed

lemma next_fetch_typed:
  assumes "typed_code ws" "holds_code m ws" "on_code ws m M"
  shows "stays_typed ws m (next_fetch M)"
proof -
  obtain k where k: "k < length ws" "ip (cpu M) = of_nat (k * INSTR_SIZE)" "same_code ws m (ram M)"
    using assms(3) by (auto simp: on_code_def)
  have "fetch_next (ram M) (ip (cpu M)) = Some (ws ! k)"
    unfolding k(2) by (rule fetch_on_code [OF assms(1,2) k(3,1)])
  with assms(3) show ?thesis
    by (simp add: next_fetch_def stays_typed_def on_code_def log_access_def)
qed

lemma same_code_write:
  assumes "same_code ws m m1" "write_to_memory m1 a v = Some m2" "length ws * INSTR_SIZE \<le> unat a"
  shows "same_code ws m m2"
  using assms by (auto simp: same_code_def write_to_memory_spec put_bytes_def split: if_splits)

lemma finish_event_typed:
  assumes "typed_code ws" "holds_code m ws" "same_code ws m (ram M)"
    and "ev = Rejected \<or> ev = Halted \<or> (\<exists>k<length ws. ip (cpu M) = of_nat (k * INSTR_SIZE))"
    and "\<And>q x. ev = Want_read q x \<Longrightarrow> reg_of (ucast q) \<noteq> None \<and> unat x + 8 \<le> MEM_SIZE"
    and "\<And>q x. ev = Want_write q x \<Longrightarrow>
      reg_of (ucast q) \<noteq> None \<and> length ws * INSTR_SIZE \<le> unat x \<and> unat x + 8 \<le> MEM_SIZE"
  shows "stays_typed ws m (finish_event ev M)"
proof -
  have run: "stays_typed ws m (next_fetch M')"
    if "ip (cpu M') = ip (cpu M)" "same_code ws m (ram M')" "ev \<noteq> Rejected" "ev \<noteq> Halted" for M'
    using next_fetch_typed [OF assms(1,2)] assms(4) that by (simp add: on_code_def)
  show ?thesis
  proof (cases ev)
    case (Want_read q x)
    from assms(5) [OF this] obtain p where "reg_of (ucast q) = Some p" "unat x + 8 \<le> MEM_SIZE" by auto
    with Want_read assms(3) show ?thesis
      by (simp add: finish_event_def read_from_memory_spec) (rule run; simp add: log_access_def set_reg_def)
  next
    case (Want_write q x)
    from assms(6) [OF this] obtain p where p: "reg_of (ucast q) = Some p"
      "length ws * INSTR_SIZE \<le> unat x" "unat x + 8 \<le> MEM_SIZE" by auto
    then obtain m2 where w: "write_to_memory (ram M) x (rf (cpu M) p) = Some m2"
      by (simp add: write_to_memory_spec)
    with p same_code_write [OF assms(3) w p(2)] Want_write show ?thesis
      by (simp add: finish_event_def) (rule run; simp add: log_access_def)
  qed (use run [of M] assms(3) in \<open>simp_all add: finish_event_def stays_typed_def\<close>)
qed

lemma typed_step:
  assumes "typed_code ws" "holds_code m ws" "on_code ws m M"
  shows "stays_typed ws m (machine_step (length ws) input M)"
proof -
  obtain k where k: "k < length ws" "ip (cpu M) = of_nat (k * INSTR_SIZE)" "same_code ws m (ram M)"
    using assms(3) by (auto simp: on_code_def)
  have f: "fetch_next (ram M) (ip (cpu M)) = Some (ws ! k)"
    unfolding k(2) by (rule fetch_on_code [OF assms(1,2) k(3,1)])
  obtain a where a: "decode (ws ! k) = Some a" "op_typed (length ws) a"
    using assms(1) k(1) by (auto simp: typed_code_def list_all_length instr_typed_def split: option.splits)
  have halt: "Suc k < length ws" if "a \<noteq> Halt"
  proof (rule ccontr)
    assume "\<not> Suc k < length ws"
    with k(1) have "k = length ws - 1" by simp
    moreover have "ws \<noteq> []" "decode (last ws) = Some Halt" using assms(1) by (simp_all add: typed_code_def)
    ultimately show False using a(1) that by (simp add: last_conv_nth)
  qed
  obtain s' ev where x: "isa_exec input (Some a) (cpu M) = (s', ev)" by fastforce
  note t = exec_typed [OF x a(2) k(2) halt]
  have "\<not> faults ev" using t(3) by (auto simp: faults_def split: event.splits)
  moreover have "unat (ip (cpu M)) div INSTR_SIZE = k" unfolding k(2) code_offset(1) [OF assms(1) k(1)] by simp
  ultimately have "machine_step (length ws) input M = finish_event ev (M\<lparr>cpu := s'\<rparr>)"
    using f a(1) x k(1) by (simp add: machine_step_def)
  then show ?thesis
    using finish_event_typed [OF assms(1,2), of "M\<lparr>cpu := s'\<rparr>" ev] t k(3) by simp
qed

lemma reset_on_code: "typed_code ws \<Longrightarrow> on_code ws m (reset_machine m)"
  by (auto simp: on_code_def reset_machine_def same_code_def abs_cpu_def zero_cpu_def typed_code_def
      intro!: exI [of _ 0])

subsection \<open>Runs of the emulator\<close>

lemma run_loop_typed:
  assumes "run_loop envs (int (length ws)) k e = Some y" "typed_code ws" "holds_code m ws" "undisturbed envs"
    and "ready old e M" "unpaused (dev_gate e)" "on_code ws m M"
  shows "fst y = Finished 0 \<and> same_code ws m (emu_memory (snd y))"
proof -
  let ?P = "\<lambda>envs n k e y. n = int (length ws) \<and> undisturbed envs \<and> unpaused (dev_gate e) \<and>
    (\<exists>M. ready old e M \<and> on_code ws m M) \<longrightarrow> fst y = Finished 0 \<and> same_code ws m (emu_memory (snd y))"
  have "?P envs (int (length ws)) k e y"
  proof (rule run_loop.raw_induct [where P = ?P, OF _ assms(1)], intro impI)
    fix f :: "(nat \<Rightarrow> env) \<Rightarrow> int \<Rightarrow> nat \<Rightarrow> emu \<Rightarrow> (run_end \<times> emu) option"
    fix envs n k e y
    assume IH: "\<And>envs n k e y. f envs n k e = Some y \<Longrightarrow> ?P envs n k e y"
      and step: "(case run_iteration n (envs k) e of Go e' \<Rightarrow> f envs n (k + 1) e' | Stop r e' \<Rightarrow> Some (r, e')) = Some y"
      and h: "n = int (length ws) \<and> undisturbed envs \<and> unpaused (dev_gate e) \<and> (\<exists>M. ready old e M \<and> on_code ws m M)"
    then obtain M where M: "ready old e M" "on_code ws m M" by blast
    have m: "matches old (run_iteration n (envs k) e) (machine_step (length ws) (pin (envs k)) M)"
      using h M(1) iteration_matches [OF M(1) undisturbed_lets_run] by blast
    note t = typed_step [OF assms(2,3) M(2), of "pin (envs k)"]
    show "fst y = Finished 0 \<and> same_code ws m (emu_memory (snd y))"
    proof (cases "machine_step (length ws) (pin (envs k)) M")
      case (Ends r M1)
      with m t step show ?thesis by (auto simp: matches_def stays_typed_def)
    next
      case (Runs M1)
      with m obtain e1 where e1: "run_iteration n (envs k) e = Go e1" "ready old e1 M1"
        by (auto simp: matches_def)
      have "unpaused (dev_gate e1)" using iteration_gate [OF e1(1)] h by (simp add: undisturbed_def)
      moreover have "on_code ws m M1" using t Runs by (simp add: stays_typed_def)
      ultimately show ?thesis using IH [of envs n "k + 1" e1 y] step e1 h by auto
    qed
  qed
  with assms(4-7) show ?thesis by blast
qed

lemma run_typed:
  assumes "typed_code ws" "holds_code m ws" "run_val > 0" "undisturbed envs" "buffer_ok tb" "km \<noteq> None"
    and "run envs (run_val, 0, True) True km (int (length ws)) m g b tb = Some (r, x)"
  shows "\<exists>e. x = Some e \<and> r = Finished 0 \<and> same_code ws m (emu_memory e)"
proof -
  let ?g = "g\<lparr>cpu_running := run_val, cpu_paused := 0\<rparr>"
  have o: "cpu_open run_val 0 True g = (?g, Some zero_context, 0)"
    using assms(3) by (simp add: cpu_open_def)
  obtain e where e: "run_init m ?g zero_context b km tb = Some e" "ready (contents tb) e (reset_machine m)"
    using run_init_ready [OF assms(5,6)] by blast
  obtain e' where e': "x = Some e'" "run_loop envs (int (length ws)) 0 e = Some (r, e')"
    using assms(7) o e(1) by (auto simp: run_def split: option.splits)
  have "dev_gate e = ?g" using e(1) by (auto simp: run_init_def split: option.splits)
  then have "unpaused (dev_gate e)" using assms(3) by (simp add: unpaused_def)
  from run_loop_typed [OF e'(2) assms(1,2,4) e(2) this reset_on_code [OF assms(1)]] e'(1)
  show ?thesis by simp
qed


subsection \<open>The whole program\<close>

text \<open>The instructions the reference assembler makes of a source whose labels fit, when they pass the check.\<close>

definition typed_source :: "string \<Rightarrow> instruction list \<Rightarrow> bool" where
  "typed_source src ws \<longleftrightarrow> labels_fit (asm_lines src) \<and> typed_code ws \<and>
     (case assemble (label_map (asm_lines src)) (asm_lines src) of Inl f \<Rightarrow> False | Inr (is, texts) \<Rightarrow> is = ws)"

text \<open>Everything around the program works: both devices open and run, the collector has memory.\<close>

definition host_ready :: "host \<Rightarrow> string \<Rightarrow> bool" where
  "host_ready w src \<longleftrightarrow>
     (\<exists>prog arg run_val. argv w = [prog, arg] \<and> length arg \<le> 121 \<and> files w (''./doc/'' @ arg) = Some src \<and>
        cpu_opens w = (run_val, 0, True) \<and> run_val > 0) \<and>
     trace_opens w \<and> kmalloc_start w \<noteq> None \<and> undisturbed (environment w) \<and>
     configure_cache_sim_parameters (stack_word w) initial_globals (typed w) \<noteq> None"

lemma simulator_returns:
  assumes "buffer_ok tb" "configure_cache_sim_parameters (stack_word w) initial_globals (typed w) \<noteq> None"
  shows "\<exists>rep. run_simulator w tb = Some (Exit_success rep)"
proof -
  obtain g rest where c: "configure_cache_sim_parameters (stack_word w) initial_globals (typed w) = Some (g, rest)"
    using assms(2) by auto
  from collector.load_loop_ends [OF assms(1), of "[]" INITIAL_TRACE_CAPACITY "realloc_traces w"]
  have "\<exists>z. load_loop (\<lambda>n. trace_read (n * sizeof_mem_access) (\<lambda>_. True)) (realloc_traces w)
      INITIAL_TRACE_CAPACITY [] tb = Some z" by force
  then obtain z where "load_loop (\<lambda>n. trace_read (n * sizeof_mem_access) (\<lambda>_. True)) (realloc_traces w)
      INITIAL_TRACE_CAPACITY [] tb = Some z" by blast
  with c show ?thesis
    by (cases z) (auto simp: run_simulator_def run_cache_sim_def load_traces_def split: prod.split)
qed

lemma typed_loaded:
  assumes "typed_code ws"
  obtains m where "store_machine_code no_memory MEM_SIZE ws (length ws) = Some m" "holds_code m ws"
proof -
  have fits: "length ws * INSTR_SIZE + INSTR_SIZE \<le> MEM_SIZE"
    using assms by (simp only: typed_code_def)
  obtain m where m: "store_machine_code no_memory MEM_SIZE ws (length ws) = Some m"
    using store_program [OF fits, of ws no_memory] fits by (simp add: store_machine_code_def del: of_nat_mult)
  show thesis by (rule that [OF m]) (use fetch_stored [OF fits _ m] in \<open>simp add: holds_code_def\<close>)
qed

lemma host_ready_runs:
  assumes "host_ready w src" "typed_source src ws"
  shows "main_program w g b tb = run_program w ws g b tb"
proof -
  obtain texts where "assemble (label_map (asm_lines src)) (asm_lines src) = Inr (ws, texts)"
    using assms(2) by (auto simp: typed_source_def split: sum.splits prod.splits)
  with assms show ?thesis
    by (auto simp: host_ready_def typed_source_def intro: main_assembles)
qed

lemma run_buffer_ok:
  assumes "run envs opened opens km n m g b tb = Some (r, Some e)" "unread tb"
  shows "buffer_ok (dev_trace e)"
  using run_unread [OF assms] by (simp add: unread_def)

lemma jumpless_straight:
  assumes "typed_code ws" "holds_code m ws" "\<And>w c t. w \<in> set ws \<Longrightarrow> decode w \<noteq> Some (Jump c t)"
  shows "straight_line m (length ws)"
  unfolding straight_line_def
proof (intro conjI allI impI)
  show "0 < length ws" using assms(1) by (simp add: typed_code_def)
  then show "length ws * INSTR_SIZE \<le> MEM_SIZE" by (intro code_offset(3) [OF assms(1)])
  fix i assume i: "i < length ws"
  obtain a where a: "decode (ws ! i) = Some a" "op_typed (length ws) a"
    using assms(1) i by (auto simp: typed_code_def list_all_length instr_typed_def split: option.splits)
  have "goes_straight (length ws) (decode (ws ! i))"
    using a assms(3) [of "ws ! i"] i by (cases a) (auto simp: goes_straight_def)
  moreover have "i = length ws - 1 \<longrightarrow> decode (ws ! i) = Some Halt"
    using assms(1) by (auto simp: typed_code_def last_conv_nth)
  moreover have "fetch_next m (of_nat (i * INSTR_SIZE)) = Some (ws ! i)"
    using assms(2) i unfolding holds_code_def by blast
  ultimately show "\<exists>w. fetch_next m (of_nat (i * INSTR_SIZE)) = Some w \<and> goes_straight (length ws) (decode w) \<and>
      (i = length ws - 1 \<longrightarrow> decode w = Some Halt)" by blast
qed

lemma typed_machine_run:
  assumes "typed_code ws" "holds_code m ws"
  shows "machine_run (length ws) input fuel k M = Some (r, M') \<Longrightarrow> on_code ws m M \<Longrightarrow> r = Finished 0"
proof (induction fuel arbitrary: k M)
  case 0
  then show ?case by simp
next
  case (Suc fuel)
  note t = typed_step [OF assms Suc.prems(2), of "input k"]
  show ?case
    using Suc t by (cases "machine_step (length ws) (input k) M") (auto simp: stays_typed_def)
qed

definition demo_ws :: "instruction list" where
  "demo_ws = [ins MOV_OP IMMEDIATE 1 5, ins MOV_OP DIRECT_STORE 0 0xFFFF]"

lemma demo_typed: "typed_source one_line_src demo_ws"
proof -
  have l: "asm_lines one_line_src = [Code ''MOV R1, 5'' (''MOV R1, 5'' @ [NEWLINE])]"
    by code_simp
  have a: "assemble (label_map (asm_lines one_line_src)) (asm_lines one_line_src) =
      Inr (demo_ws, [''MOV R1, 5'', ''HALT''])"
    unfolding l demo_ws_def by code_simp
  have "labels_fit (asm_lines one_line_src)" unfolding l by (simp add: labels_fit_def)
  moreover have "typed_code demo_ws"
    by (simp add: typed_code_def demo_ws_def instr_typed_def two_line_decode)
  ultimately show ?thesis by (simp add: typed_source_def a)
qed

lemma demo_ready: "host_ready demo_host one_line_src"
  using demo_config quiet_undisturbed by (simp add: host_ready_def demo_host_def)

lemma demo_jumpless: "w \<in> set demo_ws \<Longrightarrow> decode w \<noteq> Some (Jump c t)"
  by (auto simp: demo_ws_def two_line_decode)

subsection \<open>Properties\<close>

text \<open>
  C5.  A program that passes the check does not go wrong: undisturbed, if the emulator stops at all it
  stops normally (no access outside the memory, no fault in the kernel, no wait), with the program's own
  code as it was loaded.
\<close>

theorem typed_runs_safely:
  assumes "typed_code ws" and "holds_code m ws" and "run_val > 0" and "undisturbed envs" and "buffer_ok tb"
    and "km \<noteq> None" and "run envs (run_val, 0, True) True km (int (length ws)) m g b tb = Some (r, x)"
  shows "\<exists>e. x = Some e \<and> r = Finished 0 \<and> same_code ws m (emu_memory e)"
  by (rule run_typed [OF assms])

theorem typed_runs_safely_witness:
  "\<exists>m e. run (\<lambda>_. quiet_env) (1, 0, True) True (Some (\<lambda>_. \<lparr>acc_addr = 0, acc_type = 0\<rparr>)) 2 m gate_init dark_board
       trace_buffer_init = Some (Finished 0, Some e) \<and> same_code demo_ws m (emu_memory e)"
proof -
  have t: "typed_code demo_ws" "length demo_ws = 2" using demo_typed by (simp_all add: typed_source_def demo_ws_def)
  obtain m where m: "holds_code m demo_ws" by (rule typed_loaded [OF t(1)])
  have d: "straight_line m 2" using jumpless_straight [OF t(1) m demo_jumpless] t(2) by simp
  have "ip (cpu (reset_machine m)) = of_nat (0 * INSTR_SIZE)" "\<forall>j<2 * INSTR_SIZE. ram (reset_machine m) j = m j"
    by (simp_all add: reset_machine_def abs_cpu_def zero_cpu_def)
  with straight_run [OF d, of 0 "reset_machine m" "\<lambda>k. pin quiet_env"] obtain r M' where
    mr: "machine_run 2 (\<lambda>k. pin quiet_env) 2 0 (reset_machine m) = Some (r, M')" by auto
  from run_from_reset [OF _ quiet_undisturbed buffer_ok_init(1) _ mr, of 1] obtain e where
    e: "run (\<lambda>_. quiet_env) (1, 0, True) True (Some (\<lambda>_. \<lparr>acc_addr = 0, acc_type = 0\<rparr>)) (int 2) m gate_init
      dark_board trace_buffer_init = Some (r, Some e)" by fastforce
  then have e': "run (\<lambda>_. quiet_env) (1, 0, True) True (Some (\<lambda>_. \<lparr>acc_addr = 0, acc_type = 0\<rparr>))
      (int (length demo_ws)) m gate_init dark_board trace_buffer_init = Some (r, Some e)" using t(2) by simp
  from typed_runs_safely [OF t(1) m _ quiet_undisturbed buffer_ok_init(1) _ e'] e show ?thesis by auto
qed

text \<open>
  C2.  From source to report: a source whose assembled program passes the check, run by a host on which
  everything works, either keeps running or ends with success.
\<close>

theorem typed_source_succeeds:
  assumes "typed_source src ws" and "host_ready w src"
  shows "main_program w g b trace_buffer_init = None \<or>
    (\<exists>rep. main_program w g b trace_buffer_init = Some (Exit_success rep))"
proof -
  have tc: "typed_code ws" using assms(1) by (simp add: typed_source_def)
  obtain m where m: "store_machine_code no_memory MEM_SIZE ws (length ws) = Some m" "holds_code m ws"
    by (rule typed_loaded [OF tc])
  obtain v where v: "cpu_opens w = (v, 0, True)" "v > 0" using assms(2) by (auto simp: host_ready_def)
  have h: "trace_opens w" "kmalloc_start w \<noteq> None" "undisturbed (environment w)"
    "configure_cache_sim_parameters (stack_word w) initial_globals (typed w) \<noteq> None"
    using assms(2) by (simp_all add: host_ready_def)
  have n: "sint (of_nat (length ws) :: 32 word) = int (length ws)"
    using code_offset(3) [OF tc, of 0] tc by (intro small_int) (auto simp: typed_code_def)
  let ?run = "run (environment w) (v, 0, True) True (kmalloc_start w) (int (length ws)) m g b trace_buffer_init"
  have fresh: "unread trace_buffer_init" by (simp add: unread_def buffer_ok_init)
  have "run_program w ws g b trace_buffer_init = None \<or>
      (\<exists>rep. run_program w ws g b trace_buffer_init = Some (Exit_success rep))"
  proof (cases ?run)
    case None
    then show ?thesis by (simp add: run_program_def m(1) v(1) h(1) n)
  next
    case (Some y)
    then obtain r x where r: "?run = Some (r, x)" by (cases y) auto
    obtain e where e: "x = Some e" "r = Finished 0"
      using run_typed [OF tc m(2) v(2) h(3) buffer_ok_init(1) h(2) r] by blast
    have "buffer_ok (dev_trace e)" using run_buffer_ok [OF _ fresh] r e by blast
    from simulator_returns [OF this h(4)] r e show ?thesis by (simp add: run_program_def m(1) v(1) h(1) n)
  qed
  then show ?thesis by (simp add: host_ready_runs [OF assms(2,1)])
qed

theorem typed_source_succeeds_witness:
  "main_program demo_host gate_init dark_board trace_buffer_init = None \<or>
    (\<exists>rep. main_program demo_host gate_init dark_board trace_buffer_init = Some (Exit_success rep))"
  by (rule typed_source_succeeds [OF demo_typed demo_ready])

text \<open>
  C22.  Without jumps it ends: the whole program, from a checked source without jumps to the report,
  returns, with success and the simulation of the accesses the machine made from reset.
\<close>

theorem jumpless_source_ends:
  assumes "typed_source src ws" and "host_ready w src"
    and "\<And>i c t. i \<in> set ws \<Longrightarrow> decode i \<noteq> Some (Jump c t)"
    and "malloc_traces w" and "open_traces w" and "\<And>n. realloc_traces w n"
  shows "\<exists>M rep. machine_run (length ws) (\<lambda>k. pin (environment w k)) (length ws) 0
        (reset_machine (the (store_machine_code no_memory MEM_SIZE ws (length ws)))) = Some (Finished 0, M) \<and>
      main_program w g b trace_buffer_init = Some (Exit_success (Some rep)) \<and> rep_total rep = length (log M)"
proof -
  have tc: "typed_code ws" using assms(1) by (simp add: typed_source_def)
  have fits: "length ws * INSTR_SIZE + INSTR_SIZE \<le> MEM_SIZE" using tc by (simp only: typed_code_def)
  obtain m where m: "store_machine_code no_memory MEM_SIZE ws (length ws) = Some m" "holds_code m ws"
    by (rule typed_loaded [OF tc])
  obtain v where v: "cpu_opens w = (v, 0, True)" "v > 0" using assms(2) by (auto simp: host_ready_def)
  have h: "trace_opens w" "kmalloc_start w \<noteq> None" "undisturbed (environment w)"
    using assms(2) by (simp_all add: host_ready_def)
  obtain g0 rest where c: "configure_cache_sim_parameters (stack_word w) initial_globals (typed w) = Some (g0, rest)"
    using assms(2) by (auto simp: host_ready_def)
  have z: "ip (cpu (reset_machine m)) = of_nat (0 * INSTR_SIZE)"
    "\<forall>j<length ws * INSTR_SIZE. ram (reset_machine m) j = m j"
    by (simp_all add: reset_machine_def abs_cpu_def zero_cpu_def)
  have pos: "0 < length ws" using tc by (simp add: typed_code_def)
  obtain r M where mr: "machine_run (length ws) (\<lambda>k. pin (environment w k)) (length ws) 0 (reset_machine m) = Some (r, M)"
    using straight_run [OF jumpless_straight [OF tc m(2) assms(3)] pos z] by (metis minus_nat.diff_0)
  have "r = Finished 0" by (rule typed_machine_run [OF tc m(2) mr reset_on_code [OF tc]])
  with mr have mr': "machine_run (length ws) (\<lambda>k. pin (environment w k)) (length ws) 0 (reset_machine m) =
      Some (Finished 0, M)" by simp
  obtain g' hh where s: "simulate (log M) (length (log M)) (g0, init_levels g0 (stack_levels w)) = (g', hh)"
    by fastforce
  have "main_program w g b trace_buffer_init =
      Some (Exit_success (Some (make_report (log M) (length (log M)) g' hh)))"
    unfolding host_ready_runs [OF assms(2,1)]
    by (rule run_program_report [OF fits m(1) v h mr' assms(4-6) c s])
  moreover have "rep_total (make_report (log M) (length (log M)) g' hh) = length (log M)"
    by (simp add: make_report_def Let_def)
  ultimately show ?thesis using mr' m(1) by auto
qed

theorem jumpless_source_ends_witness:
  "\<exists>rep. main_program demo_host gate_init dark_board trace_buffer_init = Some (Exit_success (Some rep))"
  using jumpless_source_ends [OF demo_typed demo_ready demo_jumpless] by (auto simp: demo_host_def)

end
