(* ===== verification/Paging.thy ===== *)
theory Paging
  imports Cache_Level
begin

text \<open>
  Replacement on demand in general: a cache of \<open>n\<close> blocks serves a sequence of requests, and on a miss
  in a full cache some block makes room.  Always evicting the block whose next request is furthest away
  makes no more misses than any other way of serving the sequence.
\<close>

subsection \<open>Serving a sequence\<close>

text \<open>\<open>serves n C bs k\<close>: from contents \<open>C\<close> the requests \<open>bs\<close> can be served with \<open>k\<close> misses.\<close>

inductive serves :: "nat \<Rightarrow> 'b set \<Rightarrow> 'b list \<Rightarrow> nat \<Rightarrow> bool" for n where
  nothing: "serves n C [] 0"
| hit: "b \<in> C \<Longrightarrow> serves n C bs k \<Longrightarrow> serves n C (b # bs) k"
| fill: "b \<notin> C \<Longrightarrow> card C < n \<Longrightarrow> serves n (insert b C) bs k \<Longrightarrow> serves n C (b # bs) (Suc k)"
| evict: "b \<notin> C \<Longrightarrow> card C = n \<Longrightarrow> u \<in> C \<Longrightarrow> serves n (insert b (C - {u})) bs k \<Longrightarrow>
    serves n C (b # bs) (Suc k)"

inductive_cases serves_NilE: "serves n C [] k"
inductive_cases serves_ConsE: "serves n C (b # bs) k"

text \<open>Where a block is requested next.\<close>

fun next_in :: "'b list \<Rightarrow> 'b \<Rightarrow> nat option" where
  "next_in [] b = None"
| "next_in (x # xs) b = (if x = b then Some 0 else map_option Suc (next_in xs b))"

text \<open>Serving it Belady's way.\<close>

inductive furthest :: "nat \<Rightarrow> 'b set \<Rightarrow> 'b list \<Rightarrow> nat \<Rightarrow> bool" for n where
  nothing: "furthest n C [] 0"
| hit: "b \<in> C \<Longrightarrow> furthest n C bs k \<Longrightarrow> furthest n C (b # bs) k"
| fill: "b \<notin> C \<Longrightarrow> card C < n \<Longrightarrow> furthest n (insert b C) bs k \<Longrightarrow> furthest n C (b # bs) (Suc k)"
| evict: "b \<notin> C \<Longrightarrow> card C = n \<Longrightarrow> u \<in> C \<Longrightarrow> \<forall>v\<in>C. later_use (next_in bs u) (next_in bs v) \<Longrightarrow>
    furthest n (insert b (C - {u})) bs k \<Longrightarrow> furthest n C (b # bs) (Suc k)"

lemma later_use_Suc: "later_use (map_option Suc a) (map_option Suc b) \<longleftrightarrow> later_use a b"
  by (cases a; cases b) (simp_all add: later_use_def)

lemma later_use_0: "later_use a (Some 0)" "\<not> later_use (Some 0) (map_option Suc b)"
  by (cases a; cases b; simp add: later_use_def)+

subsection \<open>Exchanging one block\<close>

lemma serves_evict:
  "b \<notin> insert q Y \<Longrightarrow> q \<notin> Y \<Longrightarrow> finite Y \<Longrightarrow> card Y + 1 = n \<Longrightarrow> serves n (insert b Y) bs k \<Longrightarrow>
     serves n (insert q Y) (b # bs) (Suc k)"
  using serves.evict [of b "insert q Y" n q bs k] by simp

text \<open>A miss in a full cache, by what it evicts.\<close>

lemma serves_missE:
  assumes "serves n (insert q Y) (b # bs) k" "b \<notin> insert q Y" "q \<notin> Y" "finite Y" "card Y + 1 = n"
  obtains (same) k' where "k = Suc k'" "serves n (insert b Y) bs k'"
  | (other) w k' where "k = Suc k'" "w \<in> Y" "serves n (insert q (insert b (Y - {w}))) bs k'"
  using assms(1)
proof (cases rule: serves.cases)
  case hit
  then show thesis using assms(2) by simp
next
  case (fill k')
  then show thesis using assms(3-5) by simp
next
  case (evict u k')
  show thesis
  proof (cases "u = q")
    case True
    then have "insert q Y - {u} = Y" using assms(3) by auto
    then show thesis using same evict by simp
  next
    case False
    then have "insert b (insert q Y - {u}) = insert q (insert b (Y - {u}))" by auto
    then show thesis using other [of k' u] evict False by simp
  qed
qed

lemma card_replace:
  assumes "finite Y" "w \<in> Y" "b \<notin> Y"
  shows "finite (insert b (Y - {w}))" "card (insert b (Y - {w})) = card Y"
  using assms card_Suc_Diff1 [OF assms(1,2)] by simp_all

text \<open>Holding another block costs at most one miss.\<close>

lemma swap_one:
  assumes "serves n (insert q Y) bs k" "p \<notin> Y" "q \<notin> Y" "finite Y" "card Y + 1 = n"
  shows "\<exists>k'\<le>Suc k. serves n (insert p Y) bs k'"
  using assms
proof (induction bs arbitrary: p q Y k)
  case Nil
  then show ?case by (auto intro: serves.nothing)
next
  case (Cons b bs)
  show ?case
  proof (cases "p = q")
    case True
    with Cons.prems(1) show ?thesis by (auto intro: le_SucI)
  next
    case ne: False
    consider (old) "b \<in> Y" | (q) "b = q" | (miss) "b \<notin> insert q Y" by blast
    then show ?thesis
    proof cases
      case old
      with Cons.prems(1) have "serves n (insert q Y) bs k" by (auto elim: serves_ConsE)
      from Cons.IH [OF this Cons.prems(2-5)] old show ?thesis by (auto intro: serves.hit)
    next
      case q
      then have "serves n (insert q Y) bs k" using Cons.prems(1) by (auto elim: serves_ConsE)
      then have "serves n (insert p Y) (q # bs) (Suc k)"
        using Cons.prems ne by (intro serves_evict) auto
      then show ?thesis using q by blast
    next
      case miss
      from Cons.prems(1) miss Cons.prems(3-5) show ?thesis
      proof (cases rule: serves_missE)
        case (same k')
        show ?thesis
        proof (cases "b = p")
          case True
          with same show ?thesis by (intro exI [of _ k']) (simp add: serves.hit)
        next
          case False
          then have "serves n (insert p Y) (b # bs) (Suc k')"
            using same Cons.prems miss by (intro serves_evict) auto
          with same(1) show ?thesis by (intro exI [of _ "Suc k'"]) simp
        qed
      next
        case (other w k')
        let ?Z = "insert b (Y - {w})"
        have Z: "finite ?Z" "card ?Z + 1 = n" "q \<notin> ?Z"
          using Cons.prems other(2) miss card_replace [of Y w b] by auto
        show ?thesis
        proof (cases "b = p")
          case True
          have "w \<notin> ?Z" using other Cons.prems(2) True by auto
          from Cons.IH [OF other(3) this Z(3,1,2)] obtain k'' where
            k: "k'' \<le> Suc k'" "serves n (insert w ?Z) bs k''" by blast
          have "insert w ?Z = insert p Y" using other True by auto
          with k True other show ?thesis by (intro exI [of _ k'']) (simp add: serves.hit)
        next
          case False
          then have "p \<notin> ?Z" using Cons.prems(2) by simp
          from Cons.IH [OF other(3) this Z(3,1,2)] obtain k'' where
            k: "k'' \<le> Suc k'" "serves n (insert p ?Z) bs k''" by blast
          have "insert b (insert p Y - {w}) = insert p ?Z" using other Cons.prems(2) by auto
          then have "serves n (insert p Y) (b # bs) (Suc k'')"
            using serves.evict [of b "insert p Y" n w bs k''] k other False miss Cons.prems by simp
          with k other show ?thesis by auto
        qed
      qed
    qed
  qed
qed

text \<open>Holding the block that is requested sooner costs nothing.\<close>

lemma swap_sooner:
  assumes "serves n (insert a Y) bs k" "a \<notin> Y" "p \<notin> Y" "finite Y" "card Y + 1 = n"
    and "later_use (next_in bs a) (next_in bs p)"
  shows "\<exists>k'\<le>k. serves n (insert p Y) bs k'"
  using assms
proof (induction bs arbitrary: Y k)
  case Nil
  then show ?case by (auto intro: serves.nothing elim: serves_NilE)
next
  case (Cons b bs)
  show ?case
  proof (cases "p = a")
    case True
    with Cons.prems(1) show ?thesis by auto
  next
    case ne: False
    have later: "b \<noteq> p \<Longrightarrow> b \<noteq> a \<and> later_use (next_in bs a) (next_in bs p)"
      using Cons.prems(6) ne later_use_0(2) by (auto simp: later_use_Suc split: if_splits)
    consider (old) "b \<in> Y" | (p) "b = p" | (miss) "b \<notin> Y" "b \<noteq> p" by blast
    then show ?thesis
    proof cases
      case old
      then have "b \<noteq> p" using Cons.prems(3) by auto
      from old Cons.prems(1) have "serves n (insert a Y) bs k" by (auto elim: serves_ConsE)
      from Cons.IH [OF this Cons.prems(2-5)] later [OF \<open>b \<noteq> p\<close>] old show ?thesis
        by (auto intro: serves.hit)
    next
      case p
      then have new: "b \<notin> insert a Y" using Cons.prems(3) ne by simp
      from Cons.prems(1) new Cons.prems(2,4,5) show ?thesis
      proof (cases rule: serves_missE)
        case (same k')
        then show ?thesis using p by (intro exI [of _ k']) (simp add: serves.hit)
      next
        case (other w k')
        let ?Z = "insert b (Y - {w})"
        have Z: "finite ?Z" "card ?Z + 1 = n" "a \<notin> ?Z" "w \<notin> ?Z"
          using Cons.prems other(2) p ne card_replace [of Y w b] by auto
        from swap_one [OF other(3) Z(4,3,1,2)] obtain k'' where
          k: "k'' \<le> Suc k'" "serves n (insert w ?Z) bs k''" by blast
        have "insert w ?Z = insert p Y" using other p by auto
        with k p other show ?thesis by (intro exI [of _ k'']) (simp add: serves.hit)
      qed
    next
      case miss
      then have new: "b \<notin> insert a Y" using later by blast
      from Cons.prems(1) new Cons.prems(2,4,5) show ?thesis
      proof (cases rule: serves_missE)
        case (same k')
        then have "serves n (insert p Y) (b # bs) (Suc k')"
          using Cons.prems miss by (intro serves_evict) auto
        with same show ?thesis by auto
      next
        case (other w k')
        let ?Z = "insert b (Y - {w})"
        have Z: "finite ?Z" "card ?Z + 1 = n" "a \<notin> ?Z" "p \<notin> ?Z"
          using Cons.prems other(2) miss later card_replace [of Y w b] by auto
        from Cons.IH [OF other(3) Z(3,4,1,2)] later miss obtain k'' where
          k: "k'' \<le> k'" "serves n (insert p ?Z) bs k''" by blast
        have "insert b (insert p Y - {w}) = insert p ?Z" using other Cons.prems(3) by auto
        then have "serves n (insert p Y) (b # bs) (Suc k'')"
          using serves.evict [of b "insert p Y" n w bs k''] k other miss Cons.prems by simp
        with k other show ?thesis by auto
      qed
    qed
  qed
qed

subsection \<open>Furthest in the future is optimal\<close>

lemma furthest_serves: "furthest n C bs k \<Longrightarrow> serves n C bs k"
  by (induction rule: furthest.induct) (auto intro: serves.intros)

lemma furthest_optimal:
  assumes "furthest n C bs k" "serves n C bs k'" "finite C" "card C \<le> n"
  shows "k \<le> k'"
  using assms
proof (induction arbitrary: k' rule: furthest.induct)
  case (nothing C)
  then show ?case by simp
next
  case (hit b C bs k)
  then show ?case by (auto elim: serves_ConsE)
next
  case (fill b C bs k)
  from fill.prems(1) fill.hyps(1,2) obtain l where "k' = Suc l" "serves n (insert b C) bs l"
    by (auto elim: serves_ConsE)
  with fill.IH [of l] fill.prems fill.hyps show ?case by simp
next
  case (evict b C u bs k)
  from evict.prems(1) evict.hyps(1,2) obtain v l where
    l: "k' = Suc l" "v \<in> C" "serves n (insert b (C - {v})) bs l" by (auto elim: serves_ConsE)
  have c: "card (C - {u}) + 1 = n"
    using evict.hyps(2,3) evict.prems(2) by (metis Suc_eq_plus1 card_Suc_Diff1)
  have size: "finite (insert b (C - {u}))" "card (insert b (C - {u})) \<le> n"
    using evict.hyps(1) evict.prems(2) c by simp_all
  have "\<exists>l'\<le>l. serves n (insert b (C - {u})) bs l'"
  proof (cases "u = v")
    case True
    with l show ?thesis by blast
  next
    case False
    let ?X = "insert b (C - {u, v})"
    have X: "insert b (C - {v}) = insert u ?X" "insert b (C - {u}) = insert v ?X"
      using evict.hyps(3) l(2) False by auto
    have "u \<notin> ?X" "v \<notin> ?X" "finite ?X" using evict.hyps l(2) evict.prems(2) by auto
    moreover have "card ?X + 1 = n"
    proof -
      have "card (insert v ?X) = card (C - {u}) + 1"
        unfolding X(2) [symmetric] using evict.hyps(1) evict.prems(2) by simp
      then show ?thesis using calculation(2,3) c by simp
    qed
    ultimately show ?thesis
      using swap_sooner [of n u ?X bs l v] l(2,3) evict.hyps(4) unfolding X by blast
  qed
  then obtain l' where "l' \<le> l" "serves n (insert b (C - {u})) bs l'" by blast
  with evict.IH [OF _ size, of l'] l(1) show ?case by simp
qed

end
