(* ===== verification/Cache_Belady.thy ===== *)
theory Cache_Belady
  imports Cache_Run Paging
begin

text \<open>
  The first level as a cache that serves the sequence of blocks the trace requests.  With one set, the
  optimal policy serves it Belady's way, so its misses are the least any policy could have.
\<close>

subsection \<open>A level with one set\<close>

definition held :: "cache_level \<Rightarrow> nat set" where
  "held c = unat ` tags_in (sets c ! 0) (unat (associativity c))"

definition requests :: "cache_level \<Rightarrow> mem_access list \<Rightarrow> nat \<Rightarrow> nat \<Rightarrow> nat list" where
  "requests c traces i total_traces = map (\<lambda>j. block_of c (acc_addr (traces ! j))) [i..<total_traces]"

lemma requests_Cons:
  "i < n \<Longrightarrow> requests c traces i n = block_of c (acc_addr (traces ! i)) # requests c traces (Suc i) n"
  by (simp add: requests_def upt_conv_Cons)

lemma find_next_in: "find (\<lambda>j. f j = b) [i..<n] = map_option (\<lambda>p. p + i) (next_in (map f [i..<n]) b)"
proof (induction "n - i" arbitrary: i)
  case 0
  then show ?case by simp
next
  case (Suc d)
  then have i: "i < n" "d = n - Suc i" by simp_all
  have "find (\<lambda>j. f j = b) [Suc i..<n] = map_option (\<lambda>p. p + Suc i) (next_in (map f [Suc i..<n]) b)"
    by (rule Suc.hyps(1) [OF i(2)])
  then show ?case using i(1) by (simp add: upt_conv_Cons option.map_comp o_def)
qed

lemma block_use_requests:
  "block_use c traces cur total_traces b = map_option (\<lambda>p. p + (cur + 1)) (next_in (requests c traces (Suc cur) total_traces) b)"
  by (simp add: block_use_def requests_def find_next_in)

lemma later_use_shift:
  "later_use (map_option (\<lambda>p. Suc (p + k)) a) (map_option (\<lambda>p. Suc (p + k)) b) \<longleftrightarrow> later_use a b"
  by (cases a; cases b) (simp_all add: later_use_def)

lemma card_tags:
  assumes "set_ok s n"
  shows "finite (tags_in s n)" "full s n \<Longrightarrow> card (tags_in s n) = n" "\<not> full s n \<Longrightarrow> card (tags_in s n) < n"
proof -
  have t: "tags_in s n = (\<lambda>i. tag (lines s ! i)) ` {i. i < n \<and> valid (lines s ! i)}"
    by (auto simp: tags_in_def)
  have inj: "inj_on (\<lambda>i. tag (lines s ! i)) {i. i < n \<and> valid (lines s ! i)}"
    using assms by (auto simp: set_ok_def inj_on_def)
  show "finite (tags_in s n)" unfolding t by simp
  have card: "card (tags_in s n) = card {i. i < n \<and> valid (lines s ! i)}" unfolding t by (rule card_image [OF inj])
  show "full s n \<Longrightarrow> card (tags_in s n) = n"
  proof -
    assume "full s n"
    then have "{i. i < n \<and> valid (lines s ! i)} = {..<n}" by (auto simp: full_def)
    then show ?thesis using card by simp
  qed
  show "\<not> full s n \<Longrightarrow> card (tags_in s n) < n"
  proof -
    assume "\<not> full s n"
    then have "{i. i < n \<and> valid (lines s ! i)} \<subset> {..<n}" by (auto simp: full_def)
    from psubset_card_mono [OF _ this] show ?thesis using card by simp
  qed
qed

lemma inj_unat: "inj (unat :: u64 \<Rightarrow> nat)"
  by (intro injI) (simp add: word_unat_eq_iff)

lemma card_unat: "card (unat ` (T :: u64 set)) = card T"
  by (rule card_image [OF inj_on_subset [OF inj_unat]]) simp

lemma unat_in_image: "unat (t :: u64) \<in> unat ` T \<longleftrightarrow> t \<in> T"
  by (rule inj_image_mem_iff [OF inj_unat])

lemma unat_image_diff: "unat ` (T - {u :: u64}) = unat ` T - {unat u}"
  by (simp add: image_set_diff [OF inj_unat])

lemma one_set:
  assumes "level_ok c" "num_sets c = 1"
  shows "geometry_ok c" "set_ok (sets c ! 0) (unat (associativity c))" "0 < length (sets c)"
  using assms by (simp_all add: level_ok_def geometry_ok_def)

lemma one_set_address:
  assumes "level_ok c" "num_sets c = 1"
  shows "unat (set_index c a) = 0" "unat (tag_of c a) = block_of c a"
  using set_index_block [OF one_set(1) [OF assms], of a] tag_of_block [OF one_set(1) [OF assms], of a] assms(2)
  by simp_all

text \<open>One access, whatever the policy: a way of serving the request.\<close>

lemma access_held:
  assumes "level_ok c" "num_sets c = 1" "cache_access traces cur total_traces (g, c) = (g', c')"
    and "b = block_of c (acc_addr (traces ! cur))" "n = unat (associativity c)"
  shows "level_ok c' \<and> num_sets c' = 1 \<and> associativity c' = associativity c \<and> block_of c' = block_of c"
    "if b \<in> held c then held c' = held c \<and> misses c' = misses c
     else misses c' = misses c + 1 \<and>
       (if full (sets c ! 0) n then card (held c) = n \<and> (\<exists>u\<in>held c. held c' = insert b (held c - {u}))
        else card (held c) < n \<and> held c' = insert b (held c))"
proof -
  define a where "a = acc_addr (traces ! cur)"
  note o = one_set [OF assms(1,2)] and adr = one_set_address [OF assms(1,2), of a]
  note e = access_effect [OF assms(1,3) a_def refl assms(5)]
  show frame: "level_ok c' \<and> num_sets c' = 1 \<and> associativity c' = associativity c \<and> block_of c' = block_of c"
    using e(1-5) assms(2) address_frame [OF e(4,5,3)] by simp
  have r: "resident c a \<longleftrightarrow> b \<in> held c"
    unfolding resident_def held_def assms(4) a_def [symmetric] using adr unat_in_image [of "tag_of c a"] by simp
  have h': "held c' = unat ` tags_in (sets c' ! 0) n" using frame assms(5) by (simp add: held_def)
  have h: "held c = unat ` tags_in (sets c ! 0) n" using assms(5) by (simp add: held_def)
  have b: "b = unat (tag_of c a)" using adr(2) assms(4) a_def by simp
  note card = card_tags [OF o(2), folded assms(5)]
  show "if b \<in> held c then held c' = held c \<and> misses c' = misses c
     else misses c' = misses c + 1 \<and>
       (if full (sets c ! 0) n then card (held c) = n \<and> (\<exists>u\<in>held c. held c' = insert b (held c - {u}))
        else card (held c) < n \<and> held c' = insert b (held c))"
  proof (cases "b \<in> held c")
    case True
    then show ?thesis using e(7) r adr(1) by (simp add: h' h)
  next
    case miss: False
    then have m: "misses c' = misses c + 1" using e(7) r by simp
    show ?thesis
    proof (cases "full (sets c ! 0) n")
      case True
      obtain u where u: "u \<in> tags_in (sets c ! 0) n"
        "tags_in (sets c' ! 0) n = insert (tag_of c a) (tags_in (sets c ! 0) n - {u})"
        using e(7) r miss True adr(1) by auto
      have "held c' = insert b (held c - {unat u})" "unat u \<in> held c"
        unfolding h' h u(2) b using u(1) by (simp_all add: unat_image_diff)
      with m miss True card(2) show ?thesis by (auto simp: h card_unat)
    next
      case False
      have "tags_in (sets c' ! 0) n = insert (tag_of c a) (tags_in (sets c ! 0) n)"
        using e(7) r miss False adr(1) by simp
      with m miss False card(3) show ?thesis by (simp add: h h' b card_unat)
    qed
  qed
qed

text \<open>The optimal policy evicts the block requested furthest in the future.\<close>

lemma optimal_held:
  assumes "level_ok c" "num_sets c = 1" "cache_access traces cur total_traces (g, c) = (g', c')"
    and "policy g = ALG_OPTIMAL" "b = block_of c (acc_addr (traces ! cur))" "b \<notin> held c"
    and "full (sets c ! 0) (unat (associativity c))"
  shows "\<exists>u\<in>held c. held c' = insert b (held c - {u}) \<and>
    (\<forall>v\<in>held c. later_use (next_in (requests c traces (Suc cur) total_traces) u)
                          (next_in (requests c traces (Suc cur) total_traces) v))"
proof -
  let ?n = "unat (associativity c)" and ?s = "sets c ! 0"
  let ?u = "next_use c traces cur total_traces"
  define a where "a = acc_addr (traces ! cur)"
  note o = one_set [OF assms(1,2)] and adr = one_set_address [OF assms(1,2), of a]
  have npos: "0 < ?n" using o(1) by (simp add: geometry_ok_def word_less_nat_alt)
  have b: "b = unat (tag_of c a)" using adr(2) assms(5) a_def by simp
  have notin: "tag_of c a \<notin> tags_in ?s ?n" using assms(6) unat_in_image [of "tag_of c a"] b by (simp add: held_def)
  show ?thesis
    using assms(3) refl a_def adr(1) [symmetric] refl refl refl
  proof (cases rule: cache_access_cases)
    case (hit i)
    then show ?thesis using notin by (force simp: tags_in_def)
  next
    case (fill i)
    then show ?thesis using assms(7) by (simp add: full_def)
  next
    case evict
    let ?v = "optimal_scan (\<lambda>i. ?u (tag (lines ?s ! i))) [0..<?n] 0 0"
    have v: "victim_of g c ?s traces cur total_traces = ?v"
      using assms(4) by (simp add: victim_of_def find_optimal_victim_def)
    have s': "sets c' ! 0 = replace_line ?s ?v ((lines ?s ! ?v)\<lparr>tag := tag_of c a, last_used := global_timer g + 1\<rparr>)"
      using evict(3) v o(3) by (simp add: frame_simps)
    obtain i where i: "i < ?n" "tags_in (sets c' ! 0) ?n = insert (tag_of c a) (tags_in ?s ?n - {tag (lines ?s ! i)})"
      "\<forall>j<?n. later_use (?u (tag (lines ?s ! i))) (?u (tag (lines ?s ! j)))"
      using opt.evict(3) [OF o(2) assms(7) npos notin s'] by blast
    have use: "?u t = map_option (\<lambda>p. p + (cur + 1)) (next_in (requests c traces (Suc cur) total_traces) (unat t))" for t
      using one_set_use [OF o(1) assms(2)] by (simp add: block_use_requests)
    have frame: "associativity c' = associativity c"
      using access_held(1) [OF assms(1-3) refl refl] by blast
    have h: "held c = (\<lambda>j. unat (tag (lines ?s ! j))) ` {..<?n}"
      using assms(7) by (auto simp: held_def tags_in_def full_def)
    have "held c' = insert b (held c - {unat (tag (lines ?s ! i))})"
      using i(2) by (simp add: held_def frame b unat_image_diff)
    moreover have "\<forall>v\<in>held c. later_use (next_in (requests c traces (Suc cur) total_traces) (unat (tag (lines ?s ! i))))
        (next_in (requests c traces (Suc cur) total_traces) v)"
      using i(3) by (auto simp: h use later_use_shift)
    moreover have "unat (tag (lines ?s ! i)) \<in> held c" using i(1) h by blast
    ultimately show ?thesis by blast
  qed
qed


subsection \<open>The whole run\<close>

text \<open>The first level sees every access, however many levels there are.\<close>

lemma first_level:
  assumes "simulate_access traces total_traces i (g, h) = (g', h')"
  obtains g1 where "cache_access traces i total_traces (g, l1 h) = (g1, l1 h')" "policy g' = policy g"
proof -
  obtain g1 c1 where a1: "cache_access traces i total_traces (g, l1 h) = (g1, c1)" by fastforce
  obtain g2 c2 where a2: "cache_access traces i total_traces (g1, l2 h) = (g2, c2)" by fastforce
  obtain g3 c3 where a3: "cache_access traces i total_traces (g2, l3 h) = (g3, c3)" by fastforce
  have "policy g1 = policy g" "policy g2 = policy g" "policy g3 = policy g"
    using cache_access_globals [OF a1] cache_access_globals [OF a2] cache_access_globals [OF a3] by simp_all
  then have "l1 h' = c1" "policy g' = policy g"
    using assms by (auto simp: simulate_access_def a1 a2 a3 split: if_splits)
  with a1 that show thesis by blast
qed

lemma simulate_from:
  assumes "fold (simulate_access traces total_traces) [i..<total_traces] (g, h) = (g', h')"
    and "level_ok (l1 h)" "num_sets (l1 h) = 1" "i \<le> total_traces"
    and "unat (misses (l1 h)) + (total_traces - i) < 2 ^ 64"
  shows "\<exists>k. unat (misses (l1 h')) = unat (misses (l1 h)) + k \<and>
    serves (unat (associativity (l1 h))) (held (l1 h)) (requests (l1 h) traces i total_traces) k \<and>
    (policy g = ALG_OPTIMAL \<longrightarrow>
       furthest (unat (associativity (l1 h))) (held (l1 h)) (requests (l1 h) traces i total_traces) k)"
  using assms
proof (induction "total_traces - i" arbitrary: i g h)
  case 0
  then show ?case by (auto simp: requests_def intro: serves.nothing furthest.nothing)
next
  case (Suc d)
  then have i: "i < total_traces" "d = total_traces - Suc i" by simp_all
  let ?c = "l1 h" and ?n = "unat (associativity (l1 h))"
  let ?b = "block_of ?c (acc_addr (traces ! i))" and ?rest = "requests ?c traces (Suc i) total_traces"
  obtain g1 h1 where a: "simulate_access traces total_traces i (g, h) = (g1, h1)" by fastforce
  obtain g2 where acc: "cache_access traces i total_traces (g, ?c) = (g2, l1 h1)" and pol: "policy g1 = policy g"
    by (rule first_level [OF a])
  note f = access_held(1) [OF Suc.prems(2,3) acc refl refl]
  note s = access_held(2) [OF Suc.prems(2,3) acc refl refl]
  have run: "fold (simulate_access traces total_traces) [Suc i..<total_traces] (g1, h1) = (g', h')"
    using Suc.prems(1) i(1) a by (simp add: upt_conv_Cons)
  have small: "unat (misses ?c) + 1 < 2 ^ 64" using Suc.prems(5) i(1) by simp
  have "unat (misses (l1 h1)) \<le> unat (misses ?c) + 1"
    using s unat_plus_1 [of "misses ?c"] small by (auto split: if_splits)
  then have "unat (misses (l1 h1)) + (total_traces - Suc i) < 2 ^ 64" using Suc.prems(5) i(1) by simp
  from Suc.hyps(1) [OF i(2) run] f this i(1) pol obtain k where
    k: "unat (misses (l1 h')) = unat (misses (l1 h1)) + k" "serves ?n (held (l1 h1)) ?rest k"
      "policy g = ALG_OPTIMAL \<longrightarrow> furthest ?n (held (l1 h1)) ?rest k"
    by (auto simp: requests_def)
  note req = requests_Cons [OF i(1), of ?c traces]
  show ?case
  proof (cases "?b \<in> held ?c")
    case True
    with s k show ?thesis unfolding req by (intro exI [of _ k]) (auto intro: serves.hit furthest.hit)
  next
    case miss: False
    then have m: "unat (misses (l1 h')) = unat (misses ?c) + Suc k"
      using s k(1) unat_plus_1 [of "misses ?c"] small by simp
    show ?thesis
    proof (cases "full (sets ?c ! 0) ?n")
      case full: True
      have "serves ?n (held ?c) (?b # ?rest) (Suc k)"
        using s miss full k(2) by (auto intro: serves.evict)
      moreover have "furthest ?n (held ?c) (?b # ?rest) (Suc k)" if "policy g = ALG_OPTIMAL"
        using optimal_held [OF Suc.prems(2,3) acc that refl miss full] s miss full k(3) that
        by (auto intro: furthest.evict)
      ultimately show ?thesis unfolding req using m by blast
    next
      case False
      then have "held (l1 h1) = insert ?b (held ?c)" "card (held ?c) < ?n" using s miss by simp_all
      with k(2,3) miss have "serves ?n (held ?c) (?b # ?rest) (Suc k)"
        "policy g = ALG_OPTIMAL \<longrightarrow> furthest ?n (held ?c) (?b # ?rest) (Suc k)"
        by (auto intro: serves.fill furthest.fill)
      with m show ?thesis unfolding req by blast
    qed
  qed
qed

lemma fresh_level:
  assumes "config_ok g" "unat (lvl_size g ! 0) = unat (assoc g ! 0) * unat (line_size g)"
  shows "level_ok (l1 (init_levels g h))" "num_sets (l1 (init_levels g h)) = 1"
    "misses (l1 (init_levels g h)) = 0" "held (l1 (init_levels g h)) = {}"
    "associativity (l1 (init_levels g h)) = assoc g ! 0" "cl_line_size (l1 (init_levels g h)) = line_size g"
proof -
  let ?c = "l1 (init_levels g h)"
  have "num_lvls g = 1 \<or> num_lvls g = 2 \<or> num_lvls g = 3"
    using assms(1) num_lvls_cases by (auto simp: config_ok_def)
  then have n: "1 \<le> unat (1 :: 8 word)" "unat (1 :: 8 word) \<le> unat (num_lvls g)" by auto
  have c: "?c = fst (cache_init g 1 (l1 h))" by (simp add: init_levels_def Let_def)
  note b = built_level [OF assms(1) n c]
  show ok: "level_ok ?c" and "misses ?c = 0" by (rule b)+
  show a: "associativity ?c = assoc g ! 0" and l: "cl_line_size ?c = line_size g" using b(5,6) by simp_all
  have geo: "geometry_ok ?c" using ok by (simp add: level_ok_def)
  have pos: "0 < unat (assoc g ! 0)" "0 < unat (line_size g)"
    using geo a l by (auto simp: geometry_ok_def is_power_of_two_def word_less_nat_alt unat_gt_0)
  have "length (sets ?c) = 1" using b(7) pos assms(2) by simp
  then show one: "num_sets ?c = 1" using geo by (simp add: geometry_ok_def word_unat_eq_iff)
  have "\<exists>is. by_recency (unat (associativity ?c)) 0 (sets ?c ! 0) is \<and>
      [] = map (block_in ?c 0) (tags_at (sets ?c ! 0) is)"
    using b(4) [where timer = 0] \<open>length (sets ?c) = 1\<close> by (auto simp: lru_rel_def)
  then have "tags_in (sets ?c ! 0) (unat (associativity ?c)) = {}" using set_tags_at by fastforce
  then show "held ?c = {}" by (simp add: held_def)
qed


lemma run_serves:
  assumes "config_ok g" "unat (lvl_size g ! 0) = unat (assoc g ! 0) * unat (line_size g)"
    and "total_traces < 2 ^ 64" "simulate traces total_traces (g, init_levels g stack) = (g', h)"
    and "blocks = map (\<lambda>a. a div unat (line_size g)) (trace_addresses traces total_traces)"
  shows "serves (unat (assoc g ! 0)) {} blocks (unat (misses (l1 h)))"
    "policy g = ALG_OPTIMAL \<Longrightarrow> furthest (unat (assoc g ! 0)) {} blocks (unat (misses (l1 h)))"
proof -
  note f = fresh_level [OF assms(1,2), of stack]
  have "requests (l1 (init_levels g stack)) traces 0 total_traces = blocks"
    by (simp add: requests_def assms(5) trace_addresses_def block_of_def f(6) o_def)
  with simulate_from [OF assms(4) [unfolded simulate_def] f(1,2)] f(3-5) assms(3)
  show "serves (unat (assoc g ! 0)) {} blocks (unat (misses (l1 h)))"
    "policy g = ALG_OPTIMAL \<Longrightarrow> furthest (unat (assoc g ! 0)) {} blocks (unat (misses (l1 h)))" by auto
qed

text \<open>A first level of two lines, and three blocks that do not fit in it.\<close>

abbreviation two_line_config :: sim_globals where
  "two_line_config \<equiv> \<lparr>global_timer = 0, num_lvls = 1, line_size = 16, assoc = [2, 0, 0],
     lvl_size = [32, 0, 0], policy = ALG_OPTIMAL\<rparr>"

abbreviation three_blocks :: "mem_access list" where
  "three_blocks \<equiv> map (\<lambda>a. \<lparr>acc_addr = a, acc_type = 0\<rparr>) [0, 16, 32, 0]"

lemma two_line_config_ok: "config_ok two_line_config"
  by (simp add: config_ok_def level_config_ok_def is_valid_num_lvls_def is_valid_line_size_def
      is_valid_assoc_def is_valid_lvl_size_def is_power_of_two_def)

lemma three_blocks_blocks:
  "map (\<lambda>a. a div unat (line_size two_line_config)) (trace_addresses three_blocks 4) = [0, 1, 2, 0]"
  by (simp add: trace_addresses_def upt_rec)

lemma three_blocks_serves: "serves 2 {} [0, 1, 2, 0 :: nat] 3"
proof -
  have "insert 2 ({1, 0} - {1}) = {2, 0 :: nat}" by auto
  then have "serves 2 (insert 2 ({1, 0 :: nat} - {1})) [0] 0" by (simp add: serves.hit serves.nothing)
  from serves.evict [OF _ _ _ this] have "serves 2 {1, 0 :: nat} [2, 0] (Suc 0)" by simp
  from serves.fill [OF _ _ this] have "serves 2 {0 :: nat} [1, 2, 0] (Suc (Suc 0))" by simp
  from serves.fill [OF _ _ this] have "serves 2 {} [0, 1, 2, 0 :: nat] (Suc (Suc (Suc 0)))" by simp
  then show ?thesis by (simp add: numeral_3_eq_3)
qed

subsection \<open>Properties\<close>

text \<open>
  C18.  The optimal policy is optimal on a first level with one set: over the whole trace, and whatever
  the further levels, its misses are a number of misses with which the sequence of blocks can be served
  from an empty cache of that many ways, and no way of serving it has fewer.
\<close>

theorem optimal_fewest_misses:
  assumes "config_ok g" and "unat (lvl_size g ! 0) = unat (assoc g ! 0) * unat (line_size g)"
    and "policy g = ALG_OPTIMAL" and "total_traces < 2 ^ 64"
    and "simulate traces total_traces (g, init_levels g stack) = (g', h)"
    and "blocks = map (\<lambda>a. a div unat (line_size g)) (trace_addresses traces total_traces)"
  shows "serves (unat (assoc g ! 0)) {} blocks (unat (misses (l1 h))) \<and>
    (\<forall>k. serves (unat (assoc g ! 0)) {} blocks k \<longrightarrow> unat (misses (l1 h)) \<le> k)"
  using run_serves [OF assms(1,2,4,5,6)] furthest_optimal [of _ "{}" blocks] assms(3) by simp

theorem optimal_fewest_misses_witness:
  "\<exists>g' h. simulate three_blocks 4
      (two_line_config, init_levels two_line_config \<lparr>l1 = blank_level, l2 = blank_level, l3 = blank_level\<rparr>) = (g', h) \<and>
     unat (misses (l1 h)) \<le> 3"
proof -
  obtain g' h where s: "simulate three_blocks 4
      (two_line_config, init_levels two_line_config \<lparr>l1 = blank_level, l2 = blank_level, l3 = blank_level\<rparr>) = (g', h)"
    by fastforce
  from optimal_fewest_misses [OF two_line_config_ok _ _ _ s three_blocks_blocks [symmetric]] three_blocks_serves
  have "unat (misses (l1 h)) \<le> 3" by simp
  with s show ?thesis by blast
qed

text \<open>
  C19.  On such a level the optimal policy never misses more often than LRU on the same trace.
\<close>

theorem optimal_beats_lru:
  assumes "config_ok g" and "unat (lvl_size g ! 0) = unat (assoc g ! 0) * unat (line_size g)"
    and "policy g = ALG_OPTIMAL" and "total_traces < 2 ^ 64"
    and "simulate traces total_traces (g, init_levels g stack) = (g1, h1)"
    and "g_lru = g\<lparr>policy := ALG_LRU\<rparr>"
    and "simulate traces total_traces (g_lru, init_levels g_lru stack) = (g2, h2)"
  shows "unat (misses (l1 h1)) \<le> unat (misses (l1 h2))"
proof -
  let ?blocks = "map (\<lambda>a. a div unat (line_size g)) (trace_addresses traces total_traces)"
  have lru: "config_ok g_lru" "lvl_size g_lru = lvl_size g" "assoc g_lru = assoc g" "line_size g_lru = line_size g"
    using assms(1,6) by (simp_all add: config_ok_def level_config_ok_def)
  have "unat (lvl_size g_lru ! 0) = unat (assoc g_lru ! 0) * unat (line_size g_lru)"
    unfolding lru by (rule assms(2))
  from run_serves(1) [OF lru(1) this assms(4,7) refl]
  have s: "serves (unat (assoc g ! 0)) {} ?blocks (unat (misses (l1 h2)))" unfolding lru .
  have "furthest (unat (assoc g ! 0)) {} ?blocks (unat (misses (l1 h1)))"
    by (rule run_serves(2) [OF assms(1,2,4,5) refl assms(3)])
  from furthest_optimal [OF this s] show ?thesis by simp
qed

theorem optimal_beats_lru_witness:
  "\<exists>g1 h1 g2 h2. simulate three_blocks 4 (two_line_config, init_levels two_line_config
        \<lparr>l1 = blank_level, l2 = blank_level, l3 = blank_level\<rparr>) = (g1, h1) \<and>
     simulate three_blocks 4 (two_line_config\<lparr>policy := ALG_LRU\<rparr>, init_levels (two_line_config\<lparr>policy := ALG_LRU\<rparr>)
        \<lparr>l1 = blank_level, l2 = blank_level, l3 = blank_level\<rparr>) = (g2, h2) \<and>
     unat (misses (l1 h1)) \<le> unat (misses (l1 h2))"
proof -
  let ?b = "\<lparr>l1 = blank_level, l2 = blank_level, l3 = blank_level\<rparr>"
  obtain g1 h1 where s1: "simulate three_blocks 4 (two_line_config, init_levels two_line_config ?b) = (g1, h1)"
    by fastforce
  obtain g2 h2 where s2: "simulate three_blocks 4 (two_line_config\<lparr>policy := ALG_LRU\<rparr>,
      init_levels (two_line_config\<lparr>policy := ALG_LRU\<rparr>) ?b) = (g2, h2)" by fastforce
  have "unat (misses (l1 h1)) \<le> unat (misses (l1 h2))"
    by (rule optimal_beats_lru [OF two_line_config_ok _ _ _ s1 refl s2]) simp_all
  with s1 s2 show ?thesis by blast
qed

end
