(* ===== verification/Assembler_Split.thy ===== *)
theory Assembler_Split
  imports Assembler_Spec
begin

text \<open>
  Splitting a line in terms of words.  The loops of \<open>split_by_char\<close>, which move the text about in the
  buffer and carry positions over, compute the first words of the line; from this follows which
  lines the parser faults on.
\<close>

subsection \<open>Splitting, in terms of words\<close>

abbreviation (input) space :: char where "space \<equiv> CHR '' ''"
abbreviation (input) nonspace :: "char \<Rightarrow> bool" where "nonspace c \<equiv> c \<noteq> CHR '' ''"

text \<open>The text after the first word and the spaces around it.\<close>

definition trim :: "string \<Rightarrow> string" where
  "trim s = dropWhile (\<lambda>c. c = CHR '' '') s"

definition nonempty :: "string \<Rightarrow> string option" where
  "nonempty s = (if s = [] then None else Some s)"

definition split_words :: "string \<Rightarrow> string option \<times> string option \<times> string option" where
  "split_words line =
    (let s = trim line;
         rest = trim (dropWhile nonspace s);
         rest2 = trim (dropWhile nonspace rest);
         word = takeWhile (\<lambda>c. c \<noteq> CHR '' '' \<and> c \<noteq> NEWLINE)
     in if CHR '' '' \<notin> set rest
        then (Some (takeWhile nonspace s), None, nonempty (word rest))
        else (Some (takeWhile nonspace s), nonempty (takeWhile nonspace rest), nonempty (word rest2)))"

lemma remove_spaces_trim: "p \<le> length s \<Longrightarrow> remove_spaces s p = take p s @ trim (drop p s)"
proof (induction s p rule: remove_spaces.induct)
  case (1 str p)
  show ?case
  proof (cases "p < length str \<and> str ! p = CHR '' ''")
    case True
    then have d: "drop p str = CHR '' '' # drop (p + 1) str" by (metis Cons_nth_drop_Suc Suc_eq_plus1)
    have "remove_spaces str p = remove_spaces (take p str @ drop (p + 1) str) p"
      using True by (subst remove_spaces.simps) simp
    also have "\<dots> = take p str @ trim (drop (p + 1) str)"
    proof (subst "1.IH" [OF True])
      show "p \<le> length (take p str @ drop (p + 1) str)" using True by (simp add: Suc_leI) linarith
    qed (use True in simp)
    finally show ?thesis by (simp add: d trim_def)
  next
    case False
    then have "trim (drop p str) = drop p str"
      using "1.prems" by (cases "drop p str") (auto simp: trim_def nth_via_drop)
    with False show ?thesis by (subst remove_spaces.simps) auto
  qed
qed

lemma substring_prefix: "substring (a @ b @ c) (length a) (length a + length b) = nonempty b"
  by (auto simp: substring_def nonempty_def)

lemma find_space:
  "find_from (\<lambda>c. c = CHR '' '') (a @ s) (length a) =
    (if CHR '' '' \<in> set s then Some (length a + length (takeWhile nonspace s)) else None)"
  by (auto simp: find_from_drop)

lemma find_word_end:
  "find_from (\<lambda>c. c = CHR '' '' \<or> c = NEWLINE) (a @ s) (length a) =
    (if CHR '' '' \<in> set s \<or> NEWLINE \<in> set s
     then Some (length a + length (takeWhile (\<lambda>c. c \<noteq> CHR '' '' \<and> c \<noteq> NEWLINE) s)) else None)"
  by (auto simp: find_from_drop)


lemma third_part:
  assumes "e < length a"
  shows "substring (a @ s) (length a)
      (let end3 = (case find_from (\<lambda>c. c = CHR '' '' \<or> c = NEWLINE) (a @ s) (length a) of Some i \<Rightarrow> i | None \<Rightarrow> e)
       in if end3 < length a then length (a @ s) else end3) =
    nonempty (takeWhile (\<lambda>c. c \<noteq> CHR '' '' \<and> c \<noteq> NEWLINE) s)"
proof (cases "CHR '' '' \<in> set s \<or> NEWLINE \<in> set s")
  case True
  let ?w = "takeWhile (\<lambda>c. c \<noteq> CHR '' '' \<and> c \<noteq> NEWLINE) s"
  have "substring (a @ s) (length a) (length a + length ?w) = nonempty ?w"
    using substring_prefix [of a ?w "dropWhile (\<lambda>c. c \<noteq> CHR '' '' \<and> c \<noteq> NEWLINE) s"] by simp
  then show ?thesis unfolding find_word_end if_P [OF True] by (simp add: Let_def)
next
  case False
  then have w: "takeWhile (\<lambda>c. c \<noteq> CHR '' '' \<and> c \<noteq> NEWLINE) s = s" by (auto simp: takeWhile_eq_all_conv)
  have "substring (a @ s @ []) (length a) (length a + length s) = nonempty s" by (rule substring_prefix)
  then show ?thesis unfolding w using False assms by (simp add: find_word_end)
qed

lemma split_at_space:
  "CHR '' '' \<in> set s \<Longrightarrow> \<exists>r. s = takeWhile nonspace s @ CHR '' '' # r \<and> dropWhile nonspace s = CHR '' '' # r"
  by (induction s) auto

lemma trim_idem: "trim (trim s) = trim s"
  by (induction s) (simp_all add: trim_def)

lemma trim_space: "trim (CHR '' '' # s) = trim s"
  by (simp add: trim_def)

lemma trim_Cons: "trim s = c # cs \<Longrightarrow> c \<noteq> CHR '' ''"
  using hd_dropWhile [of "\<lambda>c. c = CHR '' ''" s] unfolding trim_def by force

lemma first_word_nonempty: "trim s \<noteq> [] \<Longrightarrow> takeWhile nonspace (trim s) \<noteq> []"
  by (cases "trim s") (simp_all add: trim_Cons)

lemma second_part:
  fixes a rest :: string
  assumes t: "trim rest = rest" and e: "Suc end1 = length a"
  shows "(let end2 = (case find_from (\<lambda>c. c = CHR '' '') (a @ rest) (length a) of Some i \<Rightarrow> i | None \<Rightarrow> end1);
            part2 = substring (a @ rest) (length a) end2;
            start3 = end2 + 1;
            str3 = remove_spaces (a @ rest) start3;
            end3 = (case find_from (\<lambda>c. c = CHR '' '' \<or> c = NEWLINE) str3 start3 of
                      Some i \<Rightarrow> i | None \<Rightarrow> end2)
        in (part2, substring str3 start3 (if end3 < start3 then length str3 else end3))) =
    (if CHR '' '' \<notin> set rest
     then (None, nonempty (takeWhile (\<lambda>c. c \<noteq> CHR '' '' \<and> c \<noteq> NEWLINE) rest))
     else (nonempty (takeWhile nonspace rest),
           nonempty (takeWhile (\<lambda>c. c \<noteq> CHR '' '' \<and> c \<noteq> NEWLINE) (trim (dropWhile nonspace rest)))))"
proof (cases "CHR '' '' \<in> set rest")
  case False
  have "remove_spaces (a @ rest) (length a) = a @ rest"
    using remove_spaces_trim [of "length a" "a @ rest"] t by simp
  moreover have "substring (a @ rest) (length a) end1 = None" using e by (simp add: substring_def)
  moreover have "end1 + 1 = length a" "end1 < length a" using e by simp_all
  ultimately show ?thesis
    using third_part [of end1 a rest]
    by (simp only: find_space Let_def False if_False if_True option.case not_False_eq_True simp_thms)
next
  case True
  let ?w = "takeWhile nonspace rest"
  from split_at_space [OF True] obtain r where r: "rest = ?w @ CHR '' '' # r"
    "dropWhile nonspace rest = CHR '' '' # r" by blast
  let ?b = "a @ ?w @ [CHR '' '']"
  have b: "a @ rest = ?b @ r" "length ?b = Suc (length a + length ?w)" using r(1) by simp_all
  have "substring (a @ rest) (length a) (length a + length ?w) = nonempty ?w"
    using substring_prefix [of a ?w "CHR '' '' # r"] r(1) by simp
  moreover have "remove_spaces (a @ rest) (length ?b) = ?b @ trim r"
    using remove_spaces_trim [of "length ?b" "?b @ r"] unfolding b(1) by simp
  moreover have "length a + length ?w < length ?b" "length a + length ?w + 1 = length ?b" by simp_all
  ultimately show ?thesis
    using third_part [of "length a + length ?w" ?b "trim r"]
    by (simp only: find_space Let_def True if_False if_True option.case not_True_eq_False r(2) trim_space)
qed

lemma split_by_char_words:
  assumes "CHR '' '' \<in> set (trim line)"
  shows "split_by_char line (CHR '' '') = split_words line"
proof -
  let ?s = "trim line"
  let ?w = "takeWhile nonspace ?s"
  from split_at_space [OF assms] obtain r where r: "?s = ?w @ CHR '' '' # r"
    "dropWhile nonspace ?s = CHR '' '' # r" by blast
  let ?a = "?w @ [CHR '' '']"
  have s0: "remove_spaces line 0 = ?s" by (simp add: remove_spaces_trim)
  have f: "find_from (\<lambda>c. c = CHR '' '') ?s 0 = Some (length ?w)"
    using assms find_space [of "[]" ?s] by simp
  have p1: "substring ?s 0 (length ?w) = Some ?w"
    using substring_prefix [of "[]" ?w "CHR '' '' # r"] r(1) first_word_nonempty [of line] assms
    by (auto simp: nonempty_def)
  have s2: "remove_spaces ?s (length ?w + 1) = ?a @ trim r"
  proof -
    have "?s = ?a @ r" "length ?w + 1 = length ?a" using r(1) by simp_all
    then show ?thesis using remove_spaces_trim [of "length ?a" "?a @ r"] by (metis append_eq_conv_conj le_add1 length_append)
  qed
  show ?thesis
  proof -
    have la: "length ?w + 1 = length ?a" by simp
    have "split_by_char line (CHR '' '') = (Some ?w,
        if CHR '' '' \<notin> set (trim r)
        then (None, nonempty (takeWhile (\<lambda>c. c \<noteq> CHR '' '' \<and> c \<noteq> NEWLINE) (trim r)))
        else (nonempty (takeWhile nonspace (trim r)),
           nonempty (takeWhile (\<lambda>c. c \<noteq> CHR '' '' \<and> c \<noteq> NEWLINE) (trim (dropWhile nonspace (trim r))))))"
      unfolding split_by_char_def Let_def s0 f option.case p1 s2
      unfolding la second_part [OF trim_idem la [unfolded One_nat_def add_Suc_right add_0_right],
        unfolded Let_def, symmetric] ..
    then show ?thesis by (simp add: split_words_def Let_def r(2) trim_space)
  qed
qed

subsection \<open>Lines with too few words\<close>

lemma split_one_word:
  "CHR '' '' \<notin> set (trim line) \<Longrightarrow> fst (split_by_char line (CHR '' '')) = None"
  using find_space [of "[]" "trim line"]
  by (simp add: split_by_char_def Let_def remove_spaces_trim substring_def)

lemma parse_parts_None: "parse_parts lookup None op1 op2 = Inl Null_argument"
  by (simp add: parse_parts_def Let_def)

lemma parse_parts_operands:
  "(\<exists>f. parse_parts lookup (Some w) op1 op2 = Inl f) \<longleftrightarrow> op1 = None \<and> op2 = None"
  by (cases op1; cases op2) (simp_all add: parse_parts_def parse_operands_def parse_jump_def Let_def split: option.splits)

text \<open>What follows the first word and its spaces.\<close>

definition operands_text :: "string \<Rightarrow> string" where
  "operands_text line = trim (dropWhile nonspace (trim line))"

lemma split_words_None:
  "split_words line = (op, None, None) \<longleftrightarrow>
    op = Some (takeWhile nonspace (trim line)) \<and> CHR '' '' \<notin> set (operands_text line) \<and>
    (operands_text line = [] \<or> hd (operands_text line) = NEWLINE)"
proof -
  have 1: "takeWhile nonspace (trim x) \<noteq> [] \<longleftrightarrow> trim x \<noteq> []" for x
    using first_word_nonempty [of x] by auto
  have 2: "takeWhile (\<lambda>c. c \<noteq> CHR '' '' \<and> c \<noteq> NEWLINE) t = [] \<longleftrightarrow> t = [] \<or> hd t = NEWLINE"
    if "CHR '' '' \<notin> set t" for t using that by (cases t) auto
  show ?thesis
    using 1 [of "dropWhile nonspace (trim line)"] 2 [of "operands_text line"]
    by (auto simp: split_words_def Let_def operands_text_def nonempty_def split: if_splits)
qed


lemma parse_line_faults_at:
  "(\<exists>f. parse_line_with lookup line = Inl f) \<longleftrightarrow>
    CHR '' '' \<notin> set (trim (replace_comma line)) \<or>
    CHR '' '' \<notin> set (operands_text (replace_comma line)) \<and>
    (operands_text (replace_comma line) = [] \<or> hd (operands_text (replace_comma line)) = NEWLINE)"
proof (cases "CHR '' '' \<in> set (trim (replace_comma line))")
  case False
  obtain op1 op2 where "split_by_char (replace_comma line) (CHR '' '') = (None, op1, op2)"
    using split_one_word [OF False] by (cases "split_by_char (replace_comma line) (CHR '' '')") simp
  then show ?thesis using False by (simp add: parse_line_with_def parse_parts_None)
next
  case True
  let ?w = "takeWhile nonspace (trim (replace_comma line))"
  obtain op1 op2 where w: "split_words (replace_comma line) = (Some ?w, op1, op2)"
    by (cases "split_words (replace_comma line)") (auto simp: split_words_def Let_def split: if_splits)
  have "(\<exists>f. parse_line_with lookup line = Inl f) \<longleftrightarrow> op1 = None \<and> op2 = None"
    using split_by_char_words [OF True] w by (simp add: parse_line_with_def parse_parts_operands)
  then show ?thesis using split_words_None [of "replace_comma line" "Some ?w"] w True by auto
qed

text \<open>
  C14.  A line makes \<open>strcmp\<close> or \<open>strlen\<close> dereference a null pointer exactly when no space follows
  its first word, as in a line that is only \<open>HALT\<close>, or nothing but the line end follows the spaces.
\<close>

theorem parse_line_faults:
  "(\<exists>f. parse_line_with lookup line = Inl f) \<longleftrightarrow>
    CHR '' '' \<notin> set (trim (replace_comma line)) \<or>
    CHR '' '' \<notin> set (operands_text (replace_comma line)) \<and>
    (operands_text (replace_comma line) = [] \<or> hd (operands_text (replace_comma line)) = NEWLINE)"
  by (rule parse_line_faults_at)

theorem parse_line_faults_witness:
  "\<exists>f. parse_line_with (\<lambda>_. None) (''HALT'' @ [NEWLINE]) = Inl f"
  unfolding parse_line_faults by code_simp
end
