(* ===== verification/Assembler_Roundtrip.thy ===== *)
theory Assembler_Roundtrip
  imports Assembler_Split Cpu_Isa
begin

text \<open>
  Writing an instruction of the abstract set (\<open>Cpu_Isa\<close>) as a line of assembly, and the proof that
  the parser reads it back: numbers are printed and parsed, words are laid out with any spacing.
\<close>

subsection \<open>Numbers\<close>

definition digit_char :: "nat \<Rightarrow> char" where
  "digit_char d = (if d < 10 then char_of (48 + d) else char_of (87 + d))"

function print_nat :: "nat \<Rightarrow> nat \<Rightarrow> string" where
  "print_nat base n =
    (if n < base \<or> base < 2 then [digit_char n] else print_nat base (n div base) @ [digit_char (n mod base)])"
  by pat_completeness auto
termination by (relation "measure snd") (auto intro!: div_less_dividend)

declare print_nat.simps [simp del]

lemma code_of_digit: "d < 16 \<Longrightarrow> code_of (digit_char d) = (if d < 10 then 48 + int d else 87 + int d)"
proof -
  assume "d < 16"
  then have "of_char (digit_char d) = (if d < 10 then 48 + d else 87 + d)"
    by (simp add: digit_char_def of_char_of)
  moreover have "code_of c = int (of_char c)" for c by (simp add: code_of_def of_nat_of_char)
  ultimately show ?thesis by simp
qed

lemma digit_of_digit_char: "d < base \<Longrightarrow> base \<le> 16 \<Longrightarrow> digit_of (int base) (digit_char d) = Some (int d)"
  using code_of_digit [of d] by (simp add: digit_of_def Let_def)

lemma print_nat_simps:
  "n < base \<Longrightarrow> print_nat base n = [digit_char n]"
  "2 \<le> base \<Longrightarrow> \<not> n < base \<Longrightarrow> print_nat base n = print_nat base (n div base) @ [digit_char (n mod base)]"
  by (subst print_nat.simps, simp)+

lemma print_nat_digits:
  assumes "2 \<le> base"
  shows "(\<forall>c\<in>set (print_nat base n). \<exists>d<base. c = digit_char d) \<and> print_nat base n \<noteq> []"
  using assms
proof (induction base n rule: print_nat.induct)
  case (1 base n)
  then show ?case
    by (cases "n < base") (auto simp: print_nat_simps intro!: exI [of _ "n mod base"])
qed

lemma digits_value_snoc: "digits_value base (ds @ [c]) = digits_value base ds * base + the (digit_of base c)"
  by (simp add: digits_value_def)

lemma print_nat_value:
  assumes "2 \<le> base" "base \<le> 16"
  shows "digits_value (int base) (print_nat base n) = int n"
  using assms
proof (induction base n rule: print_nat.induct)
  case (1 base n)
  show ?case
  proof (cases "n < base")
    case True
    then show ?thesis
      using "1.prems" by (simp add: print_nat_simps digits_value_def digit_of_digit_char)
  next
    case False
    then have "digits_value (int base) (print_nat base (n div base)) = int (n div base)"
      using 1 by simp
    then show ?thesis
      using "1.prems" False
      by (simp add: print_nat_simps digits_value_snoc digit_of_digit_char flip: of_nat_mult of_nat_add)
  qed
qed

lemma digit_char_plain:
  assumes "d < 16"
  shows "\<not> isspace (digit_char d)" "digit_char d \<noteq> CHR ''-''" "digit_char d \<noteq> CHR ''+''"
    "digit_char d \<noteq> CHR '' ''" "digit_char d \<noteq> CHR '',''" "digit_char d \<noteq> NEWLINE"
    "digit_char d \<noteq> CHR '']''" "digit_char d \<noteq> CHR ''R''" "digit_char d \<noteq> CHR ''[''"
proof -
  have "48 \<le> code_of (digit_char d) \<and> code_of (digit_char d) \<le> 57 \<or>
      97 \<le> code_of (digit_char d) \<and> code_of (digit_char d) \<le> 102"
    using code_of_digit [OF assms] assms by auto
  then have "digit_char d \<notin> {CHR '' '', CHR 0x09, CHR 0x0A, CHR 0x0B, CHR 0x0C, CHR 0x0D, CHR ''-'', CHR ''+'',
      CHR '','', CHR '']'', CHR ''R'', CHR ''[''}"
    by (auto simp: code_of_def)
  then show "\<not> isspace (digit_char d)" "digit_char d \<noteq> CHR ''-''" "digit_char d \<noteq> CHR ''+''"
    "digit_char d \<noteq> CHR '' ''" "digit_char d \<noteq> CHR '',''" "digit_char d \<noteq> NEWLINE"
    "digit_char d \<noteq> CHR '']''" "digit_char d \<noteq> CHR ''R''" "digit_char d \<noteq> CHR ''[''"
    by (simp_all add: isspace_def)
qed

lemma print_nat_hd:
  assumes "2 \<le> base" "base \<le> 16"
  obtains d cs where "print_nat base n = digit_char d # cs" "d < base"
  using print_nat_digits [OF assms(1), of n] by (cases "print_nat base n") auto

lemma print_nat_is_digit:
  "2 \<le> base \<Longrightarrow> base \<le> 16 \<Longrightarrow> c \<in> set (print_nat base n) \<Longrightarrow> is_digit (int base) c"
  using print_nat_digits [of base n] by (auto simp: is_digit_def digit_of_digit_char)

lemma number_scan:
  assumes "2 \<le> base" "base \<le> 16"
  shows "takeWhile (is_digit (int base)) (print_nat base n) = print_nat base n"
    "dropWhile (is_digit (int base)) (print_nat base n) = []"
  using print_nat_is_digit [OF assms] by (auto simp: takeWhile_eq_all_conv dropWhile_eq_Nil_conv)

lemma strtoull_print:
  assumes "n < 2 ^ 64"
  shows "strtoull 10 (print_nat 10 n) = (of_nat n, [], False)"
    "strtoull 16 (''0x'' @ print_nat 16 n) = (of_nat n, [], False)"
proof -
  obtain d cs where d: "print_nat 10 n = digit_char d # cs" "d < 10" by (rule print_nat_hd [of 10]) simp_all
  have "skip_sign (dropWhile isspace (print_nat 10 n)) = (False, print_nat 10 n)"
    using d digit_char_plain [of d] by (simp add: skip_sign_def)
  moreover have "skip_prefix 10 t = t" for t
    by (simp add: skip_prefix_def split: list.split)
  ultimately show "strtoull 10 (print_nat 10 n) = (of_nat n, [], False)"
    using print_nat_value [of 10 n] print_nat_digits [of 10 n] assms
    by (simp add: strtoull_def Let_def number_scan [of 10, unfolded of_nat_numeral])
next
  obtain e es where e: "print_nat 16 n = digit_char e # es" "e < 16" by (rule print_nat_hd [of 16]) simp_all
  have "skip_sign (dropWhile isspace (''0x'' @ print_nat 16 n)) = (False, ''0x'' @ print_nat 16 n)"
    by (simp add: skip_sign_def isspace_def)
  moreover have "skip_prefix 16 (''0x'' @ print_nat 16 n) = print_nat 16 n"
    using e digit_of_digit_char [of e 16] by (simp add: skip_prefix_def is_digit_def)
  ultimately show "strtoull 16 (''0x'' @ print_nat 16 n) = (of_nat n, [], False)"
    using print_nat_value [of 16 n] print_nat_digits [of 16 n] assms
    by (simp add: strtoull_def Let_def number_scan [of 16, unfolded of_nat_numeral])
qed

subsection \<open>Written lines\<close>

definition spaces :: "nat \<Rightarrow> string" where
  "spaces n = replicate n (CHR '' '')"

definition word :: "string \<Rightarrow> bool" where
  "word w \<longleftrightarrow> w \<noteq> [] \<and> CHR '' '' \<notin> set w \<and> CHR '','' \<notin> set w \<and> NEWLINE \<notin> set w"

definition line_end :: "string \<Rightarrow> bool" where
  "line_end t \<longleftrightarrow> (\<exists>d. t = spaces d \<or> t = spaces d @ [NEWLINE])"

lemma trim_spaces: "trim (spaces n @ s) = trim s"
  by (induction n) (simp_all add: spaces_def trim_def)

lemma trim_word: "word w \<Longrightarrow> trim (w @ s) = w @ s"
  by (cases w) (auto simp: word_def trim_def)

lemma word_until_space:
  assumes "word w"
  shows "takeWhile nonspace (w @ spaces (Suc n) @ s) = w"
    "dropWhile nonspace (w @ spaces (Suc n) @ s) = spaces (Suc n) @ s"
proof -
  have "\<And>x. x \<in> set w \<Longrightarrow> nonspace x" using assms by (auto simp: word_def)
  then show "takeWhile nonspace (w @ spaces (Suc n) @ s) = w"
    "dropWhile nonspace (w @ spaces (Suc n) @ s) = spaces (Suc n) @ s"
    by (simp_all add: takeWhile_append2 dropWhile_append2 spaces_def)
qed

lemma line_endE:
  assumes "line_end t"
  obtains (stop) "t = [] \<or> t = [NEWLINE]"
    | (gap) d nl where "t = spaces (Suc d) @ nl" "nl = [] \<or> nl = [NEWLINE]"
proof -
  from assms obtain d where "t = spaces d @ [] \<or> t = spaces d @ [NEWLINE]"
    by (auto simp: line_end_def)
  then show ?thesis using stop gap by (cases d) (auto simp: spaces_def)
qed

lemma word_until_end:
  assumes "word w" "line_end t"
  shows "takeWhile (\<lambda>c. c \<noteq> CHR '' '' \<and> c \<noteq> NEWLINE) (w @ t) = w"
proof -
  have "\<And>x. x \<in> set w \<Longrightarrow> x \<noteq> CHR '' '' \<and> x \<noteq> NEWLINE" using assms by (auto simp: word_def)
  then have "takeWhile (\<lambda>c. c \<noteq> CHR '' '' \<and> c \<noteq> NEWLINE) (w @ t) =
      w @ takeWhile (\<lambda>c. c \<noteq> CHR '' '' \<and> c \<noteq> NEWLINE) t" by (simp add: takeWhile_append2)
  moreover have "takeWhile (\<lambda>c. c \<noteq> CHR '' '' \<and> c \<noteq> NEWLINE) t = []"
    using assms(2) by (cases rule: line_endE) (auto simp: spaces_def)
  ultimately show ?thesis by simp
qed

lemma spaces_Suc: "spaces (Suc n) = CHR '' '' # spaces n"
  by (simp add: spaces_def)

lemma spaces_has: "CHR '' '' \<in> set (spaces (Suc n))" "CHR '','' \<notin> set (spaces n)"
  by (simp_all add: spaces_def)

lemma nonempty_word: "word w \<Longrightarrow> nonempty w = Some w"
  by (simp add: nonempty_def word_def)

lemma line_end_comma: "line_end t \<Longrightarrow> CHR '','' \<notin> set t"
  by (auto simp: line_end_def spaces_def)

lemma replace_comma_none: "CHR '','' \<notin> set s \<Longrightarrow> replace_comma s = s"
  by (auto simp: replace_comma_def find_from_0 split: option.splits)

lemma replace_comma_at:
  assumes "CHR '','' \<notin> set s"
  shows "replace_comma (s @ CHR '','' # t) = s @ CHR '' '' # t"
proof -
  have "takeWhile (\<lambda>c. c \<noteq> CHR '','') (s @ CHR '','' # t) = s"
    using assms by (subst takeWhile_append2) auto
  then show ?thesis by (simp add: replace_comma_def find_from_0)
qed

definition one_operand :: "nat \<Rightarrow> nat \<Rightarrow> string \<Rightarrow> string \<Rightarrow> string" where
  "one_operand a b w1 w2 = spaces a @ w1 @ spaces (Suc b) @ w2"

definition two_operand_line :: "nat \<Rightarrow> nat \<Rightarrow> nat \<Rightarrow> string \<Rightarrow> string \<Rightarrow> string \<Rightarrow> string" where
  "two_operand_line a b c w1 w2 w3 = one_operand a b w1 w2 @ CHR '','' # spaces c @ w3"

lemma split_two:
  assumes "word w1" "word w2" "word w3" "line_end t"
  shows "split_by_char (replace_comma (two_operand_line a b c w1 w2 w3 @ t)) (CHR '' '') = (Some w1, Some w2, Some w3)"
proof -
  have "CHR '','' \<notin> set (one_operand a b w1 w2)"
    using assms by (simp add: one_operand_def word_def spaces_def)
  then have r: "replace_comma (two_operand_line a b c w1 w2 w3 @ t) =
      spaces a @ w1 @ spaces (Suc b) @ w2 @ spaces (Suc c) @ w3 @ t"
    using replace_comma_at [of "one_operand a b w1 w2" "spaces c @ w3 @ t"]
    by (simp add: two_operand_line_def one_operand_def spaces_Suc)
  have s: "trim (spaces a @ w1 @ spaces (Suc b) @ w2 @ spaces (Suc c) @ w3 @ t) =
      w1 @ spaces (Suc b) @ w2 @ spaces (Suc c) @ w3 @ t"
    by (simp add: trim_spaces trim_word assms)
  have w: "split_words (spaces a @ w1 @ spaces (Suc b) @ w2 @ spaces (Suc c) @ w3 @ t) =
      (Some w1, Some w2, Some w3)"
    unfolding split_words_def Let_def s
    by (simp only: word_until_space assms trim_spaces trim_word word_until_end nonempty_word) (simp add: spaces_has)
  show ?thesis unfolding r w [symmetric] by (rule split_by_char_words) (simp add: s spaces_has)
qed

lemma split_one:
  assumes "word w1" "word w2" "line_end t"
  shows "split_by_char (replace_comma (one_operand a b w1 w2 @ t)) (CHR '' '') \<in>
    {(Some w1, None, Some w2), (Some w1, Some w2, None)}"
proof -
  have "CHR '','' \<notin> set (one_operand a b w1 w2 @ t)"
    using assms line_end_comma by (simp add: one_operand_def word_def spaces_def)
  then have r: "replace_comma (one_operand a b w1 w2 @ t) = spaces a @ w1 @ spaces (Suc b) @ w2 @ t"
    by (simp add: replace_comma_none one_operand_def)
  have s: "trim (spaces a @ w1 @ spaces (Suc b) @ w2 @ t) = w1 @ spaces (Suc b) @ w2 @ t"
    by (simp add: trim_spaces trim_word assms)
  have "split_words (spaces a @ w1 @ spaces (Suc b) @ w2 @ t) \<in>
      {(Some w1, None, Some w2), (Some w1, Some w2, None)}"
    using assms(3)
  proof (cases rule: line_endE)
    case stop
    then have "CHR '' '' \<notin> set (w2 @ t)" using assms(2) by (auto simp: word_def)
    then show ?thesis
      unfolding split_words_def Let_def s
      by (simp only: word_until_space assms trim_spaces trim_word word_until_end nonempty_word) simp
  next
    case (gap d nl)
    have n: "trim nl = nl" using gap(2) by (auto simp: trim_def)
    have "takeWhile (\<lambda>c. c \<noteq> CHR '' '' \<and> c \<noteq> NEWLINE) nl = []" using gap(2) by auto
    then show ?thesis
      unfolding split_words_def Let_def s gap(1)
      by (simp only: word_until_space assms trim_spaces trim_word n nonempty_word)
        (simp add: spaces_has nonempty_def)
  qed
  then show ?thesis unfolding r using split_by_char_words [of "spaces a @ w1 @ spaces (Suc b) @ w2 @ t"]
    by (simp add: s spaces_has)
qed

subsection \<open>Written instructions\<close>

fun reg_name :: "reg \<Rightarrow> string" where
  "reg_name R0 = ''R0''" | "reg_name R1 = ''R1''" | "reg_name R2 = ''R2''" | "reg_name R3 = ''R3''"

fun alu_name :: "alu \<Rightarrow> string" where
  "alu_name Add = ''ADD''" | "alu_name Sub = ''SUB''" | "alu_name Conj = ''AND''" | "alu_name Disj = ''OR''"

fun jump_name :: "cond \<Rightarrow> string" where
  "jump_name Always = ''JMP''" | "jump_name If_equal = ''JE''" | "jump_name If_greater = ''JG''"
| "jump_name If_less = ''JL''"

fun src_text :: "src \<Rightarrow> string" where
  "src_text (Imm v) = print_nat 10 (unat v)"
| "src_text (Reg r) = reg_name r"

definition address_text :: "u64 \<Rightarrow> string" where
  "address_text a = ''['' @ (''0x'' @ print_nat 16 (unat a)) @ '']''"

text \<open>The layout of a line: the spaces before, after the operation and after the comma.\<close>

type_synonym layout = "nat \<times> nat \<times> nat"

fun write1 :: "layout \<Rightarrow> string \<Rightarrow> string \<Rightarrow> string" where
  "write1 (a, b, c) = one_operand a b"

fun write2 :: "layout \<Rightarrow> string \<Rightarrow> string \<Rightarrow> string \<Rightarrow> string" where
  "write2 (a, b, c) = two_operand_line a b c"

text \<open>A load or store names one of the four registers and an address below the device registers.\<close>

fun writable :: "isa \<Rightarrow> bool" where
  "writable (Load k a) = (reg_of (ucast k) \<noteq> None \<and> a < MMIO_START)"
| "writable (Store k a) = (reg_of (ucast k) \<noteq> None \<and> a < MMIO_START)"
| "writable _ = True"

fun write_isa :: "layout \<Rightarrow> (u64 \<Rightarrow> string) \<Rightarrow> isa \<Rightarrow> string" where
  "write_isa l lab (Alu f r s) = write2 l (alu_name f) (reg_name r) (src_text s)"
| "write_isa l lab (Invert r) = write1 l ''NOT'' (reg_name r)"
| "write_isa l lab (Move r s) = write2 l ''MOV'' (reg_name r) (src_text s)"
| "write_isa l lab (Input r) = write2 l ''MOV'' (reg_name r) (address_text MMIO_INPUT)"
| "write_isa l lab (Output r) = write2 l ''MOV'' (address_text MMIO_OUTPUT) (reg_name r)"
| "write_isa l lab Halt = write2 l ''MOV'' (address_text MMIO_HALT) (reg_name R0)"
| "write_isa l lab (Load k a) = write2 l ''MOV'' (reg_name (the (reg_of (ucast k)))) (address_text a)"
| "write_isa l lab (Store k a) = write2 l ''MOV'' (address_text a) (reg_name (the (reg_of (ucast k))))"
| "write_isa l lab (Compare r s) = write2 l ''CMP'' (reg_name r) (src_text s)"
| "write_isa l lab (Jump c n) = write1 l (jump_name c) (lab n)"

lemma words:
  "word (reg_name r)" "word (alu_name f)" "word (jump_name c)" "word ''NOT''" "word ''MOV''" "word ''CMP''"
  by (cases r; cases f; cases c; simp add: word_def)+

lemma word_print_nat: "2 \<le> base \<Longrightarrow> base \<le> 16 \<Longrightarrow> word (print_nat base n)"
  using print_nat_digits [of base n] digit_char_plain
  by (auto simp: word_def) (metis order_less_le_trans)+

lemma word_src: "word (src_text s)"
  by (cases s) (simp_all add: word_print_nat words)

lemma word_address: "word (address_text a)"
  using word_print_nat [of 16 "unat a"] by (simp add: word_def address_text_def)

lemma parse_write2:
  assumes "word w1" "word w2" "word w3" "line_end t"
  shows "parse_line_with lookup (write2 l w1 w2 w3 @ t) = parse_parts lookup (Some w1) (Some w2) (Some w3)"
  by (cases l) (simp add: parse_line_with_def split_two [OF assms])

lemma parse_write1:
  assumes "word w1" "word w2" "line_end t"
  shows "parse_line_with lookup (write1 l w1 w2 @ t) \<in>
    {parse_parts lookup (Some w1) None (Some w2), parse_parts lookup (Some w1) (Some w2) None}"
proof (cases l)
  case (fields a b c)
  then show ?thesis using split_one [OF assms, of a b] by (auto simp: parse_line_with_def)
qed

subsection \<open>Parsing written operands\<close>

abbreviation (input) reg_num :: "reg \<Rightarrow> u64" where "reg_num r \<equiv> of_nat (reg_idx r)"

lemma reg_of_reg_num: "reg_of (reg_num r) = Some r"
  by (cases r) (simp_all add: reg_of_def)

lemma reg_of_Some: "reg_of n = Some r \<longleftrightarrow> n = reg_num r"
  by (cases r) (auto simp: reg_of_def)

lemma operand2_reg: "parse_operand2 (reg_name r) i = i\<lparr>operand2 := reg_num r\<rparr>"
  by (cases r) (simp_all add: parse_operand2_def)

lemma operand1_reg: "parse_operand1 (reg_name r) i = i\<lparr>operand1 := ucast (reg_num r)\<rparr>"
  by (cases r) (simp_all add: parse_operand1_def)

lemma unat_lt_64: "unat (a :: u64) < 2 ^ 64"
  using unsigned_less [of a, where ?'a = nat] by simp

lemma bracket_address: "bracketed (address_text a)" "bracket_value (address_text a) = a"
proof -
  show "bracketed (address_text a)" by (simp add: bracketed_def address_text_def)
  have "tl (butlast (address_text a)) = ''0x'' @ print_nat 16 (unat a)"
    by (simp add: address_text_def butlast_append)
  then show "bracket_value (address_text a) = a"
    using strtoull_print(2) [of "unat a"] unat_lt_64 [of a] by (simp add: bracket_value_def)
qed

lemma address_not_reg: "address_text a \<noteq> reg_name r"
  by (cases r) (simp_all add: address_text_def)

lemma address_not_regs:
  "address_text a \<noteq> ''R0''" "address_text a \<noteq> ''R1''" "address_text a \<noteq> ''R2''" "address_text a \<noteq> ''R3''"
  using address_not_reg [of a R0] address_not_reg [of a R1] address_not_reg [of a R2] address_not_reg [of a R3]
  by simp_all

lemma operand2_address: "parse_operand2 (address_text a) i = i\<lparr>operand2 := a, mode := DIRECT_LOAD\<rparr>"
  by (simp add: parse_operand2_def address_not_regs bracket_address)

lemma operand1_address:
  "parse_operand1 (address_text a) i =
    i\<lparr>operand1 := ucast (operand2 i), mode := DIRECT_STORE, operand2 := a\<rparr>"
  by (simp add: parse_operand1_def address_not_regs bracket_address)

lemma parse_int_print: "parse_int (print_nat 10 (unat v)) = Some v"
  using strtoull_print(1) [OF unat_lt_64] print_nat_digits [of 10 "unat v"]
  by (auto simp: parse_int_def)

lemma operand2_imm: "parse_operand2 (src_text (Imm v)) i = i\<lparr>operand2 := v, mode := IMMEDIATE\<rparr>"
proof -
  obtain d cs where d: "print_nat 10 (unat v) = digit_char d # cs" "d < 10"
    by (rule print_nat_hd [of 10]) simp_all
  then have "digit_char d \<noteq> CHR ''R''" "digit_char d \<noteq> CHR ''[''" using digit_char_plain [of d] by auto
  then show ?thesis
    using d(1) parse_int_print [of v] by (simp add: parse_operand2_def bracketed_def)
qed

definition src_fields :: "src \<Rightarrow> instruction \<Rightarrow> instruction" where
  "src_fields s i = (case s of Imm v \<Rightarrow> i\<lparr>operand2 := v, mode := IMMEDIATE\<rparr> | Reg r \<Rightarrow> i\<lparr>operand2 := reg_num r\<rparr>)"

lemma operand2_src: "parse_operand2 (src_text s) i = src_fields s i"
  by (cases s) (simp_all add: src_fields_def operand2_reg operand2_imm del: src_text.simps(1))

lemma parse_two_operands:
  assumes "mode i = 0xFF"
  shows "\<exists>j. parse_operands i (Some (reg_name r)) (Some (src_text s)) = Inr j \<and> opcode j = opcode i \<and>
    operand1 j = ucast (reg_num r) \<and> src_of (mode j) (operand2 j) = Some s"
  using assms by (cases s)
    (simp_all add: parse_operands_def Let_def operand2_src operand1_reg src_fields_def src_of_def reg_of_reg_num
      del: src_text.simps)

lemma two_operands_parsed:
  assumes "operand1 j = ucast (reg_num r)" "src_of (mode j) (operand2 j) = Some s"
  shows "two_operands c j = Some (c r s)"
proof -
  have "ucast (ucast (reg_num r) :: u8) = reg_num r" by (cases r) simp_all
  then show ?thesis using assms by (simp add: two_operands_def reg_of_reg_num)
qed

subsection \<open>Parsing written instructions\<close>

definition reads_as :: "asm_fault + instruction \<Rightarrow> isa \<Rightarrow> bool" where
  "reads_as p a \<longleftrightarrow> (\<exists>w. p = Inr w \<and> decode w = Some a)"

lemma reads_asI: "p = Inr w \<Longrightarrow> decode w = Some a \<Longrightarrow> reads_as p a"
  by (simp add: reads_as_def)

fun alu_code :: "alu \<Rightarrow> u8" where
  "alu_code Add = ADD_OP" | "alu_code Sub = SUB_OP" | "alu_code Conj = AND_OP" | "alu_code Disj = OR_OP"

lemma reads_alu:
  "reads_as (parse_parts lookup (Some (alu_name f)) (Some (reg_name r)) (Some (src_text s))) (Alu f r s)"
proof -
  obtain w where w: "parse_operands (default_instruction\<lparr>opcode := alu_code f\<rparr>) (Some (reg_name r)) (Some (src_text s)) = Inr w"
    "opcode w = alu_code f" "two_operands (Alu f) w = Some (Alu f r s)"
    using parse_two_operands [of "default_instruction\<lparr>opcode := alu_code f\<rparr>" r s] two_operands_parsed [of _ r s "Alu f"]
    by (auto simp: default_instruction_def)
  show ?thesis
    by (rule reads_asI [of _ w]) (use w in \<open>cases f; simp add: parse_parts_def Let_def decode_def\<close>)+
qed

lemma reads_mov:
  "reads_as (parse_parts lookup (Some ''MOV'') (Some (reg_name r)) (Some (src_text s))) (Move r s)"
proof -
  obtain w where w: "parse_operands (default_instruction\<lparr>opcode := MOV_OP\<rparr>) (Some (reg_name r)) (Some (src_text s)) = Inr w"
    "opcode w = MOV_OP" "src_of (mode w) (operand2 w) = Some s" "two_operands Move w = Some (Move r s)"
    using parse_two_operands [of "default_instruction\<lparr>opcode := MOV_OP\<rparr>" r s] two_operands_parsed [of _ r s Move]
    by (auto simp: default_instruction_def)
  show ?thesis
  proof (rule reads_asI)
    show "parse_parts lookup (Some ''MOV'') (Some (reg_name r)) (Some (src_text s)) = Inr w"
      using w(1) by (simp add: parse_parts_def Let_def)
    show "decode w = Some (Move r s)"
      using w(2-4) by (auto simp: decode_def decode_mov_def src_of_def split: if_splits)
  qed
qed

lemma reads_cmp:
  "reads_as (parse_parts lookup (Some ''CMP'') (Some (reg_name r)) (Some (src_text s))) (Compare r s)"
proof -
  obtain w where w: "parse_operands (default_instruction\<lparr>opcode := CMP_OP\<rparr>) (Some (reg_name r)) (Some (src_text s)) = Inr w"
    "opcode w = CMP_OP" "two_operands Compare w = Some (Compare r s)"
    using parse_two_operands [of "default_instruction\<lparr>opcode := CMP_OP\<rparr>" r s] two_operands_parsed [of _ r s Compare]
    by (auto simp: default_instruction_def)
  show ?thesis
    by (rule reads_asI [of _ w]) (use w in \<open>simp_all add: parse_parts_def Let_def decode_def\<close>)
qed

lemma reads_not:
  "reads_as (parse_parts lookup (Some ''NOT'') None (Some (reg_name r))) (Invert r)"
  "reads_as (parse_parts lookup (Some ''NOT'') (Some (reg_name r)) None) (Invert r)"
  by (simp_all add: reads_as_def parse_parts_def parse_operands_def Let_def default_instruction_def
      operand2_reg operand1_reg decode_def reg_of_reg_num)

lemma reads_jump:
  assumes "lookup k = Some n"
  shows "reads_as (parse_parts lookup (Some (jump_name c)) None (Some k)) (Jump c n)"
    "reads_as (parse_parts lookup (Some (jump_name c)) (Some k) None) (Jump c n)"
  using assms by (cases c; simp add: reads_as_def parse_parts_def parse_jump_def Let_def decode_def
      default_instruction_def)+

lemma parsed_load:
  "parse_parts lookup (Some ''MOV'') (Some (reg_name r)) (Some (address_text a)) =
    Inr \<lparr>operand2 = a, operand1 = ucast (reg_num r), opcode = MOV_OP, mode = DIRECT_LOAD\<rparr>"
  by (simp add: parse_parts_def parse_operands_def Let_def default_instruction_def operand2_address operand1_reg)

lemma parsed_store:
  "parse_parts lookup (Some ''MOV'') (Some (address_text a)) (Some (reg_name r)) =
    Inr \<lparr>operand2 = a, operand1 = ucast (reg_num r), opcode = MOV_OP, mode = DIRECT_STORE\<rparr>"
  by (simp add: parse_parts_def parse_operands_def Let_def default_instruction_def operand2_reg operand1_address)

lemma ucast_reg_num: "ucast (ucast (reg_num r) :: u8) = reg_num r"
  by (cases r) simp_all

lemma reg_of_ucast: "reg_of (ucast (k :: u8)) = Some r \<Longrightarrow> ucast (reg_num r) = k"
proof -
  assume "reg_of (ucast k) = Some r"
  then have "(ucast k :: u64) = reg_num r" by (simp add: reg_of_Some)
  moreover have "ucast (ucast k :: u64) = k" by (rule bit_word_eqI) (simp add: bit_ucast_iff)
  ultimately show ?thesis by simp
qed

lemma reads_written:
  assumes "writable a" "line_end t" "\<And>n. word (lab n) \<and> lookup (lab n) = Some n"
  shows "reads_as (parse_line_with lookup (write_isa l lab a @ t)) a"
proof (cases a)
  case (Alu f r s)
  then show ?thesis by (simp add: parse_write2 words word_src assms(2) reads_alu)
next
  case (Invert r)
  then show ?thesis
    using parse_write1 [OF words(4) words(1) assms(2), of lookup l r] reads_not [of lookup r] by auto
next
  case (Move r s)
  then show ?thesis by (simp add: parse_write2 words word_src assms(2) reads_mov)
next
  case (Input r)
  then show ?thesis
    by (simp add: parse_write2 words word_address assms(2) parsed_load reads_as_def decode_def decode_mov_def
        ucast_reg_num reg_of_reg_num)
next
  case (Output r)
  then show ?thesis
    by (simp add: parse_write2 words word_address assms(2) parsed_store reads_as_def decode_def decode_mov_def
        ucast_reg_num reg_of_reg_num)
next
  case Halt
  show ?thesis
    unfolding Halt write_isa.simps parse_write2 [OF words(5) word_address words(1) assms(2)] parsed_store
    by (rule reads_asI [OF refl]) (simp add: decode_def decode_mov_def)
next
  case (Load k x)
  with assms(1) obtain r where r: "reg_of (ucast k) = Some r" by auto
  then show ?thesis
    using assms(1) Load reg_of_ucast [OF r]
    by (simp add: parse_write2 words word_address assms(2) parsed_load reads_as_def decode_def decode_mov_def)
next
  case (Store k x)
  with assms(1) obtain r where r: "reg_of (ucast k) = Some r" by auto
  then show ?thesis
    using assms(1) Store reg_of_ucast [OF r]
    by (simp add: parse_write2 words word_address assms(2) parsed_store reads_as_def decode_def decode_mov_def)
next
  case (Compare r s)
  then show ?thesis by (simp add: parse_write2 words word_src assms(2) reads_cmp)
next
  case (Jump c n)
  then show ?thesis
    using parse_write1 [OF words(3) _ assms(2), of "lab n" lookup l c] assms(3) [of n]
      reads_jump [of lookup "lab n" n c] by auto
qed

text \<open>
  C7.  An instruction of the abstract set, written as assembly with any spacing, is parsed into a
  word that the CPU decodes to it: parsing and decoding undo writing.
\<close>

theorem assembler_roundtrip:
  assumes "writable a" "line_end t" "\<And>n. word (lab n) \<and> lookup (lab n) = Some n"
  shows "\<exists>w. parse_line_with lookup (write_isa l lab a @ t) = Inr w \<and> decode w = Some a"
  using reads_written [OF assms] by (simp add: reads_as_def)

theorem assembler_roundtrip_witness:
  "\<exists>w. parse_line_with parse_int
      (write_isa (4, 0, 1) (\<lambda>n. print_nat 10 (unat n)) (Store 2 0x500) @ spaces 3 @ [NEWLINE]) = Inr w \<and>
     decode w = Some (Store 2 0x500)"
proof (rule assembler_roundtrip)
  show "writable (Store 2 0x500)" by (simp add: reg_of_def)
  show "line_end (spaces 3 @ [NEWLINE])" unfolding line_end_def by blast
  show "word (print_nat 10 (unat n)) \<and> parse_int (print_nat 10 (unat n)) = Some n" for n
    using word_print_nat [of 10 "unat n"] by (simp add: parse_int_print)
qed

end
