(* ===== verification/Merge_Runs.thy ===== *)
theory Merge_Runs
  imports "HOL-Library.Multiset"
begin

text \<open>
  A merge sort in passes over a list, as \<open>Uthash_Sort\<close> finds it in \<open>HASH_SRT\<close>: a pass merges neighbouring
  runs of \<open>n\<close> elements; it keeps the elements, doubles the length of the sorted runs and is stable.
\<close>

subsection \<open>Merging on lists\<close>

fun merge_runs :: "('a \<Rightarrow> 'k::linorder) \<Rightarrow> 'a list \<Rightarrow> 'a list \<Rightarrow> 'a list" where
  "merge_runs key [] ys = ys"
| "merge_runs key (x # xs) [] = x # xs"
| "merge_runs key (x # xs) (y # ys) =
     (if key x \<le> key y then x # merge_runs key xs (y # ys) else y # merge_runs key (x # xs) ys)"

function merge_pass :: "('a \<Rightarrow> 'k::linorder) \<Rightarrow> nat \<Rightarrow> 'a list \<Rightarrow> 'a list" where
  "merge_pass key n xs =
    (if xs = [] \<or> n = 0 then xs
     else merge_runs key (take n xs) (take n (drop n xs)) @ merge_pass key n (drop (2 * n) xs))"
  by pat_completeness auto
termination by (relation "measure (\<lambda>(key, n, xs). length xs)") auto

declare merge_pass.simps [simp del]

text \<open>Every stretch of \<open>n\<close> elements is sorted.\<close>

function runs_sorted :: "('a \<Rightarrow> 'k::linorder) \<Rightarrow> nat \<Rightarrow> 'a list \<Rightarrow> bool" where
  "runs_sorted key n xs = (if xs = [] \<or> n = 0 then xs = [] else sorted (map key (take n xs)) \<and> runs_sorted key n (drop n xs))"
  by pat_completeness auto
termination by (relation "measure (\<lambda>(key, n, xs). length xs)") auto

declare runs_sorted.simps [simp del]

lemma runs_sortedD:
  assumes "runs_sorted key n xs" "n > 0"
  shows "sorted (map key (take n xs))" "runs_sorted key n (drop n xs)"
  using assms runs_sorted.simps [of key n xs] by (cases "xs = []"; simp)+

lemma merge_runs_mset: "mset (merge_runs key xs ys) = mset xs + mset ys"
  by (induction key xs ys rule: merge_runs.induct) simp_all

lemma merge_runs_set: "set (merge_runs key xs ys) = set xs \<union> set ys"
  by (metis merge_runs_mset set_mset_mset set_mset_union)

lemma merge_runs_length: "length (merge_runs key xs ys) = length xs + length ys"
  by (metis merge_runs_mset size_mset size_union)

lemma merge_runs_sorted:
  "sorted (map key xs) \<Longrightarrow> sorted (map key ys) \<Longrightarrow> sorted (map key (merge_runs key xs ys))"
  by (induction key xs ys rule: merge_runs.induct) (auto simp: merge_runs_set)

lemma merge_runs_stable:
  "sorted (map key xs) \<Longrightarrow> sorted (map key ys) \<Longrightarrow>
     filter (\<lambda>x. key x = k) (merge_runs key xs ys) = filter (\<lambda>x. key x = k) xs @ filter (\<lambda>x. key x = k) ys"
proof (induction key xs ys rule: merge_runs.induct)
  case (3 key x xs y ys)
  show ?case
  proof (cases "key x \<le> key y")
    case True
    then show ?thesis using 3 by simp
  next
    case False
    then have "filter (\<lambda>x. key x = k) (x # xs) = []" if "key y = k"
      using 3 that by (auto simp: filter_empty_conv)
    then show ?thesis using False 3 by (cases "key y = k") simp_all
  qed
qed simp_all

lemma merge_pass_mset: "mset (merge_pass key n xs) = mset xs"
proof (induction key n xs rule: merge_pass.induct)
  case (1 key n xs)
  show ?case
  proof (cases "xs = [] \<or> n = 0")
    case False
    have "xs = take n xs @ take n (drop n xs) @ drop (2 * n) xs"
      by (metis append_take_drop_id drop_drop mult_2)
    then have "mset xs = mset (take n xs) + mset (take n (drop n xs)) + mset (drop (2 * n) xs)"
      by (metis mset_append add.assoc)
    then show ?thesis using 1 [OF False] False by (subst merge_pass.simps) (simp add: merge_runs_mset)
  qed (simp add: merge_pass.simps)
qed

lemma runs_sorted_stable:
  "runs_sorted key n xs \<Longrightarrow> filter (\<lambda>x. key x = k) (merge_pass key n xs) = filter (\<lambda>x. key x = k) xs"
proof (induction key n xs rule: merge_pass.induct)
  case (1 key n xs)
  show ?case
  proof (cases "xs = [] \<or> n = 0")
    case False
    have x: "xs = take n xs @ take n (drop n xs) @ drop (2 * n) xs"
      by (metis append_take_drop_id drop_drop mult_2)
    have n: "n > 0" using False by simp
    note s = runs_sortedD [OF 1(2) n]
    have t: "sorted (map key (take n (drop n xs)))" "runs_sorted key n (drop (2 * n) xs)"
      using runs_sortedD [OF s(2) n] by (simp_all add: mult_2)
    have "filter (\<lambda>x. key x = k) xs = filter (\<lambda>x. key x = k) (take n xs) @
        filter (\<lambda>x. key x = k) (take n (drop n xs)) @ filter (\<lambda>x. key x = k) (drop (2 * n) xs)"
      by (subst x) (simp only: filter_append)
    then show ?thesis
      using 1(1) [OF False t(2)] False merge_runs_stable [OF s(1) t(1)]
      by (subst merge_pass.simps) simp
  qed (simp add: merge_pass.simps)
qed

lemma merge_pass_runs: "runs_sorted key n xs \<Longrightarrow> runs_sorted key (2 * n) (merge_pass key n xs)"
proof (induction key n xs rule: merge_pass.induct)
  case (1 key n xs)
  show ?case
  proof (cases "xs = [] \<or> n = 0")
    case True
    then show ?thesis using 1(2) by (auto simp: merge_pass.simps runs_sorted.simps [of key n] runs_sorted.simps [of key "2 * n" "[]"])
  next
    case False
    let ?m = "merge_runs key (take n xs) (take n (drop n xs))"
    have n: "n > 0" using False by simp
    note s = runs_sortedD [OF 1(2) n]
    have t: "sorted (map key (take n (drop n xs)))" "runs_sorted key n (drop (2 * n) xs)"
      using runs_sortedD [OF s(2) n] by (simp_all add: mult_2)
    have r: "runs_sorted key (2 * n) (merge_pass key n (drop (2 * n) xs))" by (rule 1(1) [OF False t(2)])
    have m: "sorted (map key ?m)" by (rule merge_runs_sorted [OF s(1) t(1)])
    have e: "merge_pass key n xs = ?m @ merge_pass key n (drop (2 * n) xs)" using False by (subst merge_pass.simps) simp
    have len: "length ?m = 2 * n \<or> merge_pass key n (drop (2 * n) xs) = []" "length ?m \<le> 2 * n"
      by (cases "length xs \<le> 2 * n"; simp add: merge_runs_length merge_pass.simps [of key n "[]"])+
    have ne: "merge_pass key n xs \<noteq> []"
      using False merge_pass_mset [of key n xs] by (metis mset_zero_iff)
    show ?thesis
    proof (cases "length ?m = 2 * n")
      case True
      then show ?thesis using m r ne False e by (subst runs_sorted.simps) simp
    next
      case F2: False
      then show ?thesis using m ne False e len by (subst runs_sorted.simps) (simp add: runs_sorted.simps [of key "2 * n" "[]"])
    qed
  qed
qed

lemma runs_sorted_one: "runs_sorted key 1 xs"
  by (induction xs) (subst runs_sorted.simps, simp)+

lemma runs_sorted_all: "runs_sorted key n xs \<Longrightarrow> length xs \<le> n \<Longrightarrow> sorted (map key xs)"
  by (subst (asm) runs_sorted.simps) (auto split: if_splits)

text \<open>The number of merges of a pass.\<close>

function merges :: "nat \<Rightarrow> 'a list \<Rightarrow> nat" where
  "merges n xs = (if xs = [] \<or> n = 0 then 0 else Suc (merges n (drop (2 * n) xs)))"
  by pat_completeness auto
termination by (relation "measure (\<lambda>(n, xs). length xs)") auto

declare merges.simps [simp del]

lemma merges_bound: "merges n xs \<le> length xs"
proof (induction n xs rule: merges.induct)
  case (1 n xs)
  show ?case
  proof (cases "xs = [] \<or> n = 0")
    case False
    then show ?thesis using 1 [OF False] by (subst merges.simps) (cases xs; simp; fastforce)
  qed (simp add: merges.simps)
qed

lemma merges_one: "n > 0 \<Longrightarrow> merges n xs \<le> 1 \<longleftrightarrow> length xs \<le> 2 * n"
  by (subst merges.simps) (auto simp: merges.simps [of n "drop (2 * n) xs"])

end
