(* ===== verification/Linked_Lists.thy ===== *)
theory Linked_Lists
  imports Main
begin

text \<open>
  Doubly linked lists in memory, with one function for each pointer field: the nodes of a segment in
  order, what its first node points back to and what its last node points on to.
\<close>

definition first_of :: "'a list \<Rightarrow> 'a option \<Rightarrow> 'a option" where
  "first_of xs q = (case xs of [] \<Rightarrow> q | x # _ \<Rightarrow> Some x)"

definition last_of :: "'a option \<Rightarrow> 'a list \<Rightarrow> 'a option" where
  "last_of p xs = (if xs = [] then p else Some (last xs))"

lemma first_of_simps [simp]: "first_of [] q = q" "first_of (x # xs) q = Some x"
  by (simp_all add: first_of_def)

lemma last_of_simps [simp]: "last_of p [] = p" "last_of p (x # xs) = last_of (Some x) xs"
  by (simp_all add: last_of_def)

lemma first_of_append [simp]: "first_of (xs @ ys) q = first_of xs (first_of ys q)"
  by (cases xs) simp_all

lemma last_of_append [simp]: "last_of p (xs @ ys) = last_of (last_of p xs) ys"
  by (induction xs arbitrary: p) simp_all

lemma last_of_nonempty: "xs \<noteq> [] \<Longrightarrow> last_of p xs = Some (last xs)"
  by (simp add: last_of_def)

lemma first_of_nonempty: "xs \<noteq> [] \<Longrightarrow> first_of xs q = Some (hd xs)"
  by (cases xs) simp_all

fun dseg :: "('a \<Rightarrow> 'a option) \<Rightarrow> ('a \<Rightarrow> 'a option) \<Rightarrow> 'a option \<Rightarrow> 'a list \<Rightarrow> 'a option \<Rightarrow> bool" where
  "dseg nx pv p [] q = True"
| "dseg nx pv p (x # xs) q = (pv x = p \<and> nx x = first_of xs q \<and> dseg nx pv (Some x) xs q)"

text \<open>Following only the forward pointers.\<close>

fun path :: "('a \<Rightarrow> 'a option) \<Rightarrow> 'a list \<Rightarrow> bool" where
  "path nx [] = True"
| "path nx (x # xs) = (nx x = first_of xs None \<and> path nx xs)"

lemma dseg_path: "dseg nx pv p xs None \<Longrightarrow> path nx xs"
  by (induction xs arbitrary: p) auto

lemma dseg_unique:
  "dseg nx pv p xs None \<Longrightarrow> dseg nx pv q ys None \<Longrightarrow> first_of xs None = first_of ys None \<Longrightarrow> xs = ys"
proof (induction xs arbitrary: p q ys)
  case Nil
  then show ?case by (cases ys) simp_all
next
  case (Cons x xs)
  then obtain ys' where ys: "ys = x # ys'" by (cases ys) auto
  then show ?case using Cons.prems Cons.IH [of "Some x" "Some x" ys'] by simp
qed

lemma path_frame: "(\<And>x. x \<in> set xs \<Longrightarrow> nx' x = nx x) \<Longrightarrow> path nx' xs = path nx xs"
  by (induction xs) simp_all

lemma dseg_frame:
  "(\<And>x. x \<in> set xs \<Longrightarrow> nx' x = nx x \<and> pv' x = pv x) \<Longrightarrow> dseg nx' pv' p xs q = dseg nx pv p xs q"
  by (induction xs arbitrary: p) simp_all

lemma dseg_append:
  "dseg nx pv p (xs @ ys) q \<longleftrightarrow> dseg nx pv p xs (first_of ys q) \<and> dseg nx pv (last_of p xs) ys q"
  by (induction xs arbitrary: p) auto

text \<open>Redirecting the last node forwards, and the first node backwards.\<close>

lemma dseg_set_last:
  assumes "dseg nx pv p xs q" "distinct xs" "xs \<noteq> []"
  shows "dseg (nx(last xs := q')) pv p xs q'"
proof -
  obtain ys z where xs: "xs = ys @ [z]" using assms(3) by (metis append_butlast_last_id)
  with assms have "dseg nx pv p ys (Some z)" "z \<notin> set ys" "pv z = last_of p ys" by (simp_all add: dseg_append)
  then have "dseg (nx(z := q')) pv p ys (Some z)" by (subst dseg_frame) auto
  then show ?thesis using \<open>pv z = last_of p ys\<close> by (simp add: xs dseg_append)
qed

lemma dseg_set_first:
  assumes "dseg nx pv p ys q" "distinct ys" "ys \<noteq> []"
  shows "dseg nx (pv(hd ys := p')) p' ys q"
proof -
  obtain y zs where ys: "ys = y # zs" using assms(3) by (cases ys) auto
  with assms have "dseg nx pv (Some y) zs q" "y \<notin> set zs" by simp_all
  then have "dseg nx (pv(y := p')) (Some y) zs q" by (subst dseg_frame) auto
  then show ?thesis using assms(1) by (simp add: ys)
qed

subsection \<open>Linking at the front, appending, unlinking\<close>

definition set_at :: "'a option \<Rightarrow> 'b \<Rightarrow> ('a \<Rightarrow> 'b) \<Rightarrow> 'a \<Rightarrow> 'b" where
  "set_at p v f = (case p of None \<Rightarrow> f | Some a \<Rightarrow> f(a := v))"

lemma set_at_simps [simp]: "set_at None v f = f" "set_at (Some a) v f = f(a := v)"
  by (simp_all add: set_at_def)

lemma set_at_other: "p \<noteq> Some x \<Longrightarrow> set_at p v f x = f x"
  by (cases p) auto

lemma dseg_push:
  assumes "dseg nx pv None xs None" "distinct xs" "a \<notin> set xs"
  shows "dseg (nx(a := first_of xs None)) (set_at (first_of xs None) (Some a) (pv(a := None))) None (a # xs) None"
proof (cases xs)
  case Nil
  then show ?thesis by simp
next
  case (Cons y ys)
  have "dseg (nx(a := first_of xs None)) (pv(a := None)) None xs None"
    using assms by (subst dseg_frame) auto
  from dseg_set_first [OF this assms(2), of "Some a"] Cons assms(3)
  show ?thesis by auto
qed

lemma dseg_snoc:
  assumes "dseg nx pv p xs None" "distinct xs" "a \<notin> set xs" "xs \<noteq> []"
  shows "dseg ((nx(a := None))(last xs := Some a)) (pv(a := Some (last xs))) p (xs @ [a]) None"
proof -
  have "dseg (nx(a := None)) (pv(a := Some (last xs))) p xs None"
    using assms(1,3) by (subst dseg_frame) auto
  from dseg_set_last [OF this assms(2,4), of "Some a"]
  have "dseg ((nx(a := None))(last xs := Some a)) (pv(a := Some (last xs))) p xs (Some a)" .
  moreover have "last xs \<noteq> a" using assms(3,4) by auto
  ultimately show ?thesis using assms(4) by (simp add: dseg_append last_of_nonempty)
qed

lemma dseg_unlink:
  assumes "dseg nx pv None (xs @ a # ys) None" "distinct (xs @ a # ys)"
  shows "dseg (set_at (pv a) (nx a) nx) (set_at (nx a) (pv a) pv) None (xs @ ys) None"
    "pv a = last_of None xs" "nx a = first_of ys None"
proof -
  from assms(1) show p: "pv a = last_of None xs" and n: "nx a = first_of ys None"
    by (simp_all add: dseg_append)
  let ?nx = "set_at (pv a) (nx a) nx" and ?pv = "set_at (nx a) (pv a) pv"
  have l: "dseg ?nx ?pv None xs (first_of ys None)"
  proof (cases "xs = []")
    case False
    have "dseg nx pv None xs (Some a)" using assms(1) by (simp add: dseg_append)
    then have "dseg nx ?pv None xs (Some a)"
      using assms(2) n by (subst dseg_frame) (auto simp: set_at_def split: option.splits list.splits, cases ys, auto)
    from dseg_set_last [OF this _ False] assms(2) show ?thesis
      using False by (simp add: p n last_of_nonempty)
  qed simp
  have lx: "last_of None xs \<noteq> Some y" if "y \<in> set ys" for y
  proof (cases "xs = []")
    case True
    then show ?thesis by simp
  next
    case False
    from last_in_set [OF this] assms(2) that show ?thesis by (auto simp: last_of_nonempty [OF False])
  qed
  have r: "dseg ?nx ?pv (last_of None xs) ys None"
  proof (cases "ys = []")
    case False
    have "dseg nx pv (Some a) ys None" using assms(1) by (simp add: dseg_append)
    then have "dseg ?nx pv (Some a) ys None"
      by (subst dseg_frame) (simp_all add: p set_at_other lx)
    from dseg_set_first [OF this _ False] assms(2) show ?thesis
      using False by (simp add: p n first_of_nonempty)
  qed simp
  from l r show "dseg ?nx ?pv None (xs @ ys) None" by (simp add: dseg_append)
qed

lemma dseg_unlink_other:
  assumes "dseg nx pv None zs None" "\<And>p. pv a = Some p \<Longrightarrow> p \<notin> set zs" "\<And>q. nx a = Some q \<Longrightarrow> q \<notin> set zs"
  shows "dseg (set_at (pv a) (nx a) nx) (set_at (nx a) (pv a) pv) None zs None"
  using assms by (subst dseg_frame) (auto simp: set_at_def split: option.splits)

end
