(* ===== verification/Uthash_Heap.thy ===== *)
theory Uthash_Heap
  imports Assembler Linked_Lists "HOL-Library.Monad_Syntax"
begin

text \<open>
  The label table in memory (\<open>userspace/inc/uthash.h\<close> with the \<open>put\<close>, \<open>get\<close> and the clean-up of
  \<open>userspace/src/assembler.c\<close>): entries at addresses, linked into the list in application order and
  into the chain of their bucket by the pointers of their handles, the bucket array and the table.
  \<open>None\<close> as a result is an access to memory that is not allocated (a null or dangling pointer, an index
  outside the bucket array, freeing what is not there).  \<open>Uthash\<close> has the same macros on lists; here
  are the pointers it leaves out, with deletion and iteration.
\<close>

subsection \<open>Memory\<close>

type_synonym addr = nat

record ptr_bucket =
  hh_head :: "addr option"
  ptr_count :: u32
  ptr_mult :: u32

record ptr_table =
  ptr_buckets :: "ptr_bucket list"
  ptr_num_buckets :: u32
  ptr_log2 :: u32
  ptr_num_items :: u32
  ptr_tail :: "addr option"
  ptr_ideal :: u32
  ptr_nonideal :: u32
  ptr_ineff :: u32
  ptr_noexpand :: u32

text \<open>
  \<open>live\<close> are the allocated entries, \<open>cell\<close> the key, hash and value of each, and the next four fields the
  pointers of its handle.  All handles point to the one table.  \<open>labels_head\<close> is the assembler's variable.
\<close>

record 'v uheap =
  live :: "addr set"
  cell :: "addr \<Rightarrow> 'v item"
  app_next :: "addr \<Rightarrow> addr option"
  app_prev :: "addr \<Rightarrow> addr option"
  chain_next :: "addr \<Rightarrow> addr option"
  chain_prev :: "addr \<Rightarrow> addr option"
  tbl :: "ptr_table option"
  labels_head :: "addr option"

definition allocated :: "addr option \<Rightarrow> 'v uheap \<Rightarrow> addr option" where
  "allocated p h = (case p of None \<Rightarrow> None | Some a \<Rightarrow> if a \<in> live h then Some a else None)"

text \<open>\<open>(head)->hh.tbl\<close>, and an element of its bucket array.\<close>

definition table_of :: "'v uheap \<Rightarrow> ptr_table option" where
  "table_of h = do { a \<leftarrow> allocated (labels_head h) h; tbl h }"

definition nth_bucket :: "ptr_bucket list \<Rightarrow> nat \<Rightarrow> ptr_bucket option" where
  "nth_bucket bs i = (if i < length bs then Some (bs ! i) else None)"

text \<open>A store through a pointer that is only followed when it is not null.\<close>

definition may_follow :: "addr option \<Rightarrow> 'v uheap \<Rightarrow> bool" where
  "may_follow p h \<longleftrightarrow> (case p of None \<Rightarrow> True | Some a \<Rightarrow> a \<in> live h)"

subsection \<open>Finding\<close>

partial_function (option) find_in_chain_ptr ::
    "'v uheap \<Rightarrow> string \<Rightarrow> u32 \<Rightarrow> addr option \<Rightarrow> addr option option" where
  "find_in_chain_ptr h key hv out =
    (case out of
       None \<Rightarrow> Some None
     | Some a \<Rightarrow>
         (if a \<notin> live h then None
          else if hashv (cell h a) = hv \<and> length (hh_key (cell h a)) = length key \<and> hh_key (cell h a) = key
               then Some (Some a)
          else find_in_chain_ptr h key hv (chain_next h a)))"

definition find_ptr :: "'v uheap \<Rightarrow> string \<Rightarrow> addr option option" where
  "find_ptr h key =
    (case labels_head h of
       None \<Rightarrow> Some None
     | Some a \<Rightarrow>
         do { t \<leftarrow> table_of h;
              let hv = HASH_JEN key;
              b \<leftarrow> nth_bucket (ptr_buckets t) (unat (HASH_TO_BKT hv (ptr_num_buckets t)));
              find_in_chain_ptr h key hv (hh_head b) })"

definition get_ptr :: "'v uheap \<Rightarrow> string \<Rightarrow> 'v option option" where
  "get_ptr h key = do { entry \<leftarrow> find_ptr h key; Some (map_option (\<lambda>a. item_value (cell h a)) entry) }"

subsection \<open>Adding\<close>

text \<open>Linking a handle in front of the chain whose first handle is \<open>first\<close>.\<close>

definition link_front :: "addr \<Rightarrow> addr option \<Rightarrow> 'v uheap \<Rightarrow> 'v uheap option" where
  "link_front a first h =
    (if a \<in> live h \<and> may_follow first h
     then Some (h\<lparr>chain_next := (chain_next h)(a := first),
                  chain_prev := set_at first (Some a) ((chain_prev h)(a := None))\<rparr>)
     else None)"

text \<open>The body of the expansion's inner loop: one handle moves to its new bucket.\<close>

definition move_ptr :: "u32 \<Rightarrow> u32 \<Rightarrow> addr \<Rightarrow> 'v uheap \<times> ptr_bucket list \<times> u32 \<Rightarrow>
    ('v uheap \<times> ptr_bucket list \<times> u32) option" where
  "move_ptr n ideal a st =
    (case st of (h, bs, nonideal) \<Rightarrow>
      do { let i = unat (HASH_TO_BKT (hashv (cell h a)) n);
           b \<leftarrow> nth_bucket bs i;
           let c = ptr_count b + 1;
           let over = c > ideal;
           let mult = (if over \<and> c > ptr_mult b * ideal then ptr_mult b + 1 else ptr_mult b);
           h' \<leftarrow> link_front a (hh_head b) h;
           Some (h', bs[i := \<lparr>hh_head = Some a, ptr_count = c, ptr_mult = mult\<rparr>],
                 if over then nonideal + 1 else nonideal) })"

partial_function (option) move_chain :: "u32 \<Rightarrow> u32 \<Rightarrow> addr option \<Rightarrow> 'v uheap \<times> ptr_bucket list \<times> u32 \<Rightarrow>
    ('v uheap \<times> ptr_bucket list \<times> u32) option" where
  "move_chain n ideal thh st =
    (case thh of
       None \<Rightarrow> Some st
     | Some a \<Rightarrow>
         (if a \<notin> live (fst st) then None
          else do { let hh_nxt = chain_next (fst st) a;
                    st' \<leftarrow> move_ptr n ideal a st;
                    move_chain n ideal hh_nxt st' }))"

fun move_buckets :: "u32 \<Rightarrow> u32 \<Rightarrow> ptr_bucket list \<Rightarrow> 'v uheap \<times> ptr_bucket list \<times> u32 \<Rightarrow>
    ('v uheap \<times> ptr_bucket list \<times> u32) option" where
  "move_buckets n ideal [] st = Some st"
| "move_buckets n ideal (b # bs) st =
    do { st' \<leftarrow> move_chain n ideal (hh_head b) st; move_buckets n ideal bs st' }"

definition empty_ptr_bucket :: ptr_bucket where
  "empty_ptr_bucket = \<lparr>hh_head = None, ptr_count = 0, ptr_mult = 0\<rparr>"

definition expand_ptr :: "ptr_table \<Rightarrow> 'v uheap \<Rightarrow> 'v uheap option" where
  "expand_ptr t h =
    (let n = ptr_num_buckets t * 2;
         ideal = drop_bit (unat (ptr_log2 t + 1)) (ptr_num_items t) +
           (if ptr_num_items t AND (n - 1) \<noteq> 0 then 1 else 0)
     in do { (h', bs, nonideal) \<leftarrow> move_buckets n ideal (ptr_buckets t)
                (h, replicate (unat n) empty_ptr_bucket, 0);
             let ineff = (if nonideal > drop_bit 1 (ptr_num_items t) then ptr_ineff t + 1 else 0);
             Some (h'\<lparr>tbl := Some (t\<lparr>ptr_buckets := bs, ptr_num_buckets := n, ptr_log2 := ptr_log2 t + 1,
               ptr_ideal := ideal, ptr_nonideal := nonideal, ptr_ineff := ineff,
               ptr_noexpand := (if ineff > 1 then 1 else ptr_noexpand t)\<rparr>)\<rparr>) })"

definition add_to_bkt_ptr :: "nat \<Rightarrow> addr \<Rightarrow> 'v uheap \<Rightarrow> 'v uheap option" where
  "add_to_bkt_ptr i a h =
    do { t \<leftarrow> table_of h;
         b \<leftarrow> nth_bucket (ptr_buckets t) i;
         h' \<leftarrow> link_front a (hh_head b) h;
         let b' = b\<lparr>ptr_count := ptr_count b + 1, hh_head := Some a\<rparr>;
         let t' = t\<lparr>ptr_buckets := (ptr_buckets t)[i := b']\<rparr>;
         if ptr_count b' \<ge> (ptr_mult b' + 1) * HASH_BKT_CAPACITY_THRESH \<and> ptr_noexpand t' = 0
         then expand_ptr t' h' else Some (h'\<lparr>tbl := Some t'\<rparr>) }"

definition make_table_ptr :: "addr \<Rightarrow> ptr_table" where
  "make_table_ptr a = \<lparr>ptr_buckets = replicate (unat HASH_INITIAL_NUM_BUCKETS) empty_ptr_bucket,
     ptr_num_buckets = HASH_INITIAL_NUM_BUCKETS, ptr_log2 = HASH_INITIAL_NUM_BUCKETS_LOG2,
     ptr_num_items = 0, ptr_tail = Some a, ptr_ideal = 0, ptr_nonideal = 0, ptr_ineff = 0, ptr_noexpand = 0\<rparr>"

definition append_list_ptr :: "addr \<Rightarrow> 'v uheap \<Rightarrow> 'v uheap option" where
  "append_list_ptr a h =
    do { t \<leftarrow> table_of h;
         l \<leftarrow> allocated (ptr_tail t) h;
         Some (h\<lparr>app_next := (app_next h)(a := None, l := Some a),
                 app_prev := (app_prev h)(a := Some l),
                 tbl := Some (t\<lparr>ptr_tail := Some a\<rparr>)\<rparr>) }"

text \<open>The first handle makes the table; a later one is appended.\<close>

definition enter_list_ptr :: "addr \<Rightarrow> 'v uheap \<Rightarrow> 'v uheap option" where
  "enter_list_ptr a h =
    (case labels_head h of
       None \<Rightarrow> Some (h\<lparr>app_next := (app_next h)(a := None), app_prev := (app_prev h)(a := None),
                      tbl := Some (make_table_ptr a), labels_head := Some a\<rparr>)
     | Some f \<Rightarrow> append_list_ptr a h)"

definition add_to_table_ptr :: "u32 \<Rightarrow> addr \<Rightarrow> 'v uheap \<Rightarrow> 'v uheap option" where
  "add_to_table_ptr hv a h =
    do { t \<leftarrow> table_of h;
         let h' = h\<lparr>tbl := Some (t\<lparr>ptr_num_items := ptr_num_items t + 1\<rparr>)\<rparr>;
         add_to_bkt_ptr (unat (HASH_TO_BKT hv (ptr_num_buckets t))) a h' }"

text \<open>\<open>HASH_ADD_STR\<close> on the entry at \<open>a\<close>, whose key is filled in.\<close>

definition add_ptr :: "addr \<Rightarrow> 'v uheap \<Rightarrow> 'v uheap option" where
  "add_ptr a h =
    do { let hv = HASH_JEN (hh_key (cell h a));
         let h1 = h\<lparr>cell := (cell h)(a := (cell h a)\<lparr>hashv := hv\<rparr>)\<rparr>;
         h2 \<leftarrow> enter_list_ptr a h1;
         add_to_table_ptr hv a h2 }"

text \<open>\<open>put\<close>, where \<open>malloc\<close> returns the address \<open>a\<close> if it is called.\<close>

definition put_ptr :: "addr \<Rightarrow> string \<Rightarrow> 'v \<Rightarrow> 'v uheap \<Rightarrow> 'v uheap option" where
  "put_ptr a key v h =
    do { entry \<leftarrow> find_ptr h key;
         case entry of
           None \<Rightarrow> add_ptr a (h\<lparr>live := insert a (live h),
                     cell := (cell h)(a := \<lparr>hh_key = take 63 key, hashv = 0, item_value = v\<rparr>)\<rparr>)
         | Some e \<Rightarrow> Some (h\<lparr>cell := (cell h)(e := (cell h e)\<lparr>item_value := v\<rparr>)\<rparr>) }"

subsection \<open>Deleting\<close>

definition del_in_bkt_ptr :: "nat \<Rightarrow> addr \<Rightarrow> 'v uheap \<Rightarrow> 'v uheap option" where
  "del_in_bkt_ptr i a h =
    do { t \<leftarrow> table_of h;
         b \<leftarrow> nth_bucket (ptr_buckets t) i;
         let b' = b\<lparr>ptr_count := ptr_count b - 1,
                    hh_head := (if hh_head b = Some a then chain_next h a else hh_head b)\<rparr>;
         if may_follow (chain_prev h a) h \<and> may_follow (chain_next h a) h
         then Some (h\<lparr>tbl := Some (t\<lparr>ptr_buckets := (ptr_buckets t)[i := b']\<rparr>),
                      chain_next := set_at (chain_prev h a) (chain_next h a) (chain_next h),
                      chain_prev := set_at (chain_next h a) (chain_prev h a) (chain_prev h)\<rparr>)
         else None }"

text \<open>
  \<open>HASH_DELETE_HH\<close>: the last handle takes the table with it; otherwise the tail, the list in application
  order, the head and the bucket are repaired, the table being reached through the new head.
\<close>

definition delete_ptr :: "addr \<Rightarrow> 'v uheap \<Rightarrow> 'v uheap option" where
  "delete_ptr a h =
    do { d \<leftarrow> allocated (Some a) h;
         t \<leftarrow> table_of h;
         if app_prev h a = None \<and> app_next h a = None then Some (h\<lparr>tbl := None, labels_head := None\<rparr>)
         else if \<not> (may_follow (app_prev h a) h \<and> may_follow (app_next h a) h) then None
         else
           do { let h1 = h\<lparr>tbl := Some (t\<lparr>ptr_tail :=
                             (if ptr_tail t = Some a then app_prev h a else ptr_tail t)\<rparr>),
                          app_next := set_at (app_prev h a) (app_next h a) (app_next h),
                          app_prev := set_at (app_next h a) (app_prev h a) (app_prev h),
                          labels_head := (if app_prev h a = None then app_next h a else labels_head h)\<rparr>;
                t1 \<leftarrow> table_of h1;
                h2 \<leftarrow> del_in_bkt_ptr (unat (HASH_TO_BKT (hashv (cell h1 a)) (ptr_num_buckets t1))) a h1;
                t2 \<leftarrow> table_of h2;
                Some (h2\<lparr>tbl := Some (t2\<lparr>ptr_num_items := ptr_num_items t2 - 1\<rparr>)\<rparr>) } }"

definition free_ptr :: "addr \<Rightarrow> 'v uheap \<Rightarrow> 'v uheap option" where
  "free_ptr a h = (if a \<in> live h then Some (h\<lparr>live := live h - {a}\<rparr>) else None)"

subsection \<open>The clean-up\<close>

text \<open>The next element of an iterator that may be null.\<close>

definition iter_next :: "addr option \<Rightarrow> 'v uheap \<Rightarrow> addr option option" where
  "iter_next p h =
    (case p of None \<Rightarrow> Some None | Some a \<Rightarrow> if a \<in> live h then Some (app_next h a) else None)"

text \<open>\<open>HASH_ITER\<close> with the body that deletes and frees the current entry.\<close>

partial_function (option) free_labels :: "addr option \<Rightarrow> addr option \<Rightarrow> 'v uheap \<Rightarrow> 'v uheap option" where
  "free_labels current_label tmp h =
    (case current_label of
       None \<Rightarrow> Some h
     | Some a \<Rightarrow>
         do { h1 \<leftarrow> delete_ptr a h;
              h2 \<leftarrow> free_ptr a h1;
              tmp' \<leftarrow> iter_next tmp h2;
              free_labels tmp tmp' h2 })"

definition clean_up :: "'v uheap \<Rightarrow> 'v uheap option" where
  "clean_up h = do { tmp \<leftarrow> iter_next (labels_head h) h; free_labels (labels_head h) tmp h }"

text \<open>Before the first label, and after a sequence of \<open>put\<close>s; \<open>malloc\<close> chooses an address for the entries in use.\<close>

definition no_labels :: "'v \<Rightarrow> 'v uheap" where
  "no_labels v = \<lparr>live = {}, cell = (\<lambda>_. \<lparr>hh_key = [], hashv = 0, item_value = v\<rparr>), app_next = (\<lambda>_. None),
     app_prev = (\<lambda>_. None), chain_next = (\<lambda>_. None), chain_prev = (\<lambda>_. None), tbl = None, labels_head = None\<rparr>"

fun puts_ptr :: "(addr set \<Rightarrow> addr) \<Rightarrow> (string \<times> 'v) list \<Rightarrow> 'v uheap \<Rightarrow> 'v uheap option" where
  "puts_ptr malloc [] h = Some h"
| "puts_ptr malloc ((key, v) # kvs) h =
    do { h' \<leftarrow> put_ptr (malloc (live h)) key v h; puts_ptr malloc kvs h' }"

end
