(* ===== verification/Uthash_Memory.thy ===== *)
theory Uthash_Memory
  imports Uthash_Heap
begin

text \<open>
  The label table in memory implements the one on lists: chains of addresses link the entries of a
  bucket, the list in application order links all of them, and reading the cells along the chains
  gives the table of \<open>Uthash\<close>.
\<close>

subsection \<open>Chains\<close>

definition linked :: "'v uheap \<Rightarrow> ptr_bucket list \<Rightarrow> addr list list \<Rightarrow> bool" where
  "linked h bs C \<longleftrightarrow> length bs = length C \<and>
     (\<forall>i<length C. hh_head (bs ! i) = first_of (C ! i) None \<and>
        dseg (chain_next h) (chain_prev h) None (C ! i) None)"

definition abs_bucket :: "'v uheap \<Rightarrow> ptr_bucket \<Rightarrow> addr list \<Rightarrow> 'v hash_bucket" where
  "abs_bucket h b c = \<lparr>hh_chain = map (cell h) c, bkt_count = ptr_count b, expand_mult = ptr_mult b\<rparr>"

definition abs_buckets :: "'v uheap \<Rightarrow> ptr_bucket list \<Rightarrow> addr list list \<Rightarrow> 'v hash_bucket list" where
  "abs_buckets h bs C = map2 (abs_bucket h) bs C"

definition abs_table :: "'v uheap \<Rightarrow> ptr_table \<Rightarrow> addr list list \<Rightarrow> 'v hash_table" where
  "abs_table h t C = \<lparr>buckets = abs_buckets h (ptr_buckets t) C, num_buckets = ptr_num_buckets t,
     log2_num_buckets = ptr_log2 t, num_items = ptr_num_items t, ideal_chain_maxlen = ptr_ideal t,
     nonideal_items = ptr_nonideal t, ineff_expands = ptr_ineff t, noexpand = ptr_noexpand t\<rparr>"

text \<open>What linking and unlinking in a chain leaves alone.\<close>

definition same_but_chains :: "'v uheap \<Rightarrow> 'v uheap \<Rightarrow> bool" where
  "same_but_chains h h' \<longleftrightarrow> live h' = live h \<and> cell h' = cell h \<and> app_next h' = app_next h \<and>
     app_prev h' = app_prev h \<and> labels_head h' = labels_head h \<and> tbl h' = tbl h"

lemma same_but_chains_refl [simp]: "same_but_chains h h"
  by (simp add: same_but_chains_def)

lemma same_but_chains_trans: "same_but_chains h h1 \<Longrightarrow> same_but_chains h1 h2 \<Longrightarrow> same_but_chains h h2"
  by (simp add: same_but_chains_def)

lemma linkedD:
  "linked h bs C \<Longrightarrow> length bs = length C"
  "linked h bs C \<Longrightarrow> i < length C \<Longrightarrow> hh_head (bs ! i) = first_of (C ! i) None"
  "linked h bs C \<Longrightarrow> i < length C \<Longrightarrow> dseg (chain_next h) (chain_prev h) None (C ! i) None"
  by (simp_all add: linked_def)

lemma distinct_concat_nth:
  "distinct (concat C) \<Longrightarrow> i < length C \<Longrightarrow> j < length C \<Longrightarrow> i \<noteq> j \<Longrightarrow> set (C ! i) \<inter> set (C ! j) = {}"
proof (induction C arbitrary: i j)
  case Nil
  then show ?case by simp
next
  case (Cons c C)
  have c: "set c \<inter> set (C ! k) = {}" if "k < length C" for k
    using Cons.prems(1) nth_mem [OF that] by auto
  show ?case
    using Cons.prems Cons.IH c by (cases i; cases j) (simp_all add: Int_commute)
qed

lemma concat_nth_subset: "i < length C \<Longrightarrow> set (C ! i) \<subseteq> set (concat C)"
  using nth_mem [of i C] by (simp only: set_concat) blast

lemma concat_push_mset:
  "i < length C \<Longrightarrow> mset (concat (C[i := a # C ! i])) = add_mset a (mset (concat C))"
  using concat_update [of i C id] concat_split [of i C id] by simp

lemma distinct_mset: "mset xs = mset ys \<Longrightarrow> distinct xs = distinct ys"
  by (rule mset_eq_imp_distinct_iff)

lemma map2_update: "map2 f (xs[i := x]) (ys[i := y]) = (map2 f xs ys)[i := f x y]"
  by (simp add: zip_update map_update)

lemma abs_buckets_cong: "cell h' = cell h \<Longrightarrow> abs_buckets h' bs C = abs_buckets h bs C"
  by (simp add: abs_buckets_def abs_bucket_def)

lemma abs_buckets_nth:
  "length bs = length C \<Longrightarrow> i < length C \<Longrightarrow> abs_buckets h bs C ! i = abs_bucket h (bs ! i) (C ! i)"
  by (simp add: abs_buckets_def)

lemma abs_buckets_length: "length bs = length C \<Longrightarrow> length (abs_buckets h bs C) = length C"
  by (simp add: abs_buckets_def)

lemma concat_abs_buckets:
  "length bs = length C \<Longrightarrow> concat (map hh_chain (abs_buckets h bs C)) = map (cell h) (concat C)"
proof (induction bs C rule: list_induct2)
  case Nil
  then show ?case by (simp add: abs_buckets_def)
next
  case (Cons b bs c C)
  then show ?case by (simp add: abs_buckets_def abs_bucket_def)
qed

text \<open>A handle that is in no chain is linked in front of one.\<close>

lemma link_front_linked:
  assumes l: "linked h bs C" "i < length C" "distinct (concat C)" "a \<notin> set (concat C)"
    and live: "a \<in> live h" "set (concat C) \<subseteq> live h" and b': "hh_head b' = Some a"
  obtains h' where "link_front a (hh_head (bs ! i)) h = Some h'" "linked h' (bs[i := b']) (C[i := a # C ! i])"
    "same_but_chains h h'" "\<forall>x. x \<noteq> a \<longrightarrow> chain_next h' x = chain_next h x"
proof -
  let ?f = "first_of (C ! i) None"
  define h' where "h' = h\<lparr>chain_next := (chain_next h)(a := ?f),
    chain_prev := set_at ?f (Some a) ((chain_prev h)(a := None))\<rparr>"
  have f_in: "x \<in> set (C ! i)" if "?f = Some x" for x using that by (cases "C ! i") auto
  have "may_follow ?f h"
    using f_in concat_nth_subset [OF l(2)] live(2) by (cases ?f) (auto simp: may_follow_def)
  then have "link_front a (hh_head (bs ! i)) h = Some h'"
    using live(1) linkedD(2) [OF l(1,2)] by (simp add: link_front_def h'_def)
  moreover have "linked h' (bs[i := b']) (C[i := a # C ! i])"
    unfolding linked_def
  proof (intro conjI allI impI)
    show "length (bs[i := b']) = length (C[i := a # C ! i])" using linkedD(1) [OF l(1)] by simp
    fix j assume "j < length (C[i := a # C ! i])"
    then have j: "j < length C" by simp
    show "hh_head (bs[i := b'] ! j) = first_of (C[i := a # C ! i] ! j) None"
      using linkedD(1) [OF l(1)] linkedD(2) [OF l(1) j] j b' by (cases "j = i") simp_all
    have d: "distinct (C ! j)" using l(3) nth_mem [OF j] by (simp add: distinct_concat_iff)
    have na: "a \<notin> set (C ! j)" using l(4) concat_nth_subset [OF j] by blast
    show "dseg (chain_next h') (chain_prev h') None (C[i := a # C ! i] ! j) None"
    proof (cases "j = i")
      case True
      then show ?thesis using dseg_push [OF linkedD(3) [OF l(1) j] d na] j by (simp add: h'_def)
    next
      case False
      have "?f \<noteq> Some x" if "x \<in> set (C ! j)" for x
        using distinct_concat_nth [OF l(3) l(2) j] False f_in that by blast
      then have "dseg (chain_next h') (chain_prev h') None (C ! j) None"
        using linkedD(3) [OF l(1) j] na by (subst dseg_frame) (auto simp: h'_def set_at_other)
      then show ?thesis using False by simp
    qed
  qed
  moreover have "same_but_chains h h'" by (simp add: same_but_chains_def h'_def)
  ultimately show thesis by (rule that) (simp add: h'_def)
qed

subsection \<open>The expansion\<close>

text \<open>
  \<open>moved h C h' C' xs\<close>: the handles \<open>xs\<close> have been moved into the chains, and nothing else has changed.
\<close>

definition moved :: "'v uheap \<Rightarrow> addr list list \<Rightarrow> 'v uheap \<Rightarrow> addr list list \<Rightarrow> addr list \<Rightarrow> bool" where
  "moved h C h' C' xs \<longleftrightarrow> same_but_chains h h' \<and> mset (concat C') = mset (xs @ concat C) \<and> length C' = length C \<and>
     (\<forall>x. x \<notin> set xs \<longrightarrow> chain_next h' x = chain_next h x)"

lemma moved_set: "moved h C h' C' xs \<Longrightarrow> set (concat C') = set xs \<union> set (concat C)"
  unfolding moved_def by (metis set_append set_mset_mset)

lemma moved_distinct: "moved h C h' C' xs \<Longrightarrow> distinct (xs @ concat C) \<Longrightarrow> distinct (concat C')"
  unfolding moved_def using distinct_mset by metis

lemma moved_trans:
  assumes "moved h C h1 C1 xs" "moved h1 C1 h2 C2 ys"
  shows "moved h C h2 C2 (xs @ ys)"
  using assms same_but_chains_trans unfolding moved_def by (auto simp: ac_simps)

lemma move_ptr_moves:
  assumes "linked h bs C" "length C = 2 ^ k" "k < 32" "distinct (a # concat C)" "set (a # concat C) \<subseteq> live h"
  shows "\<exists>h' bs' ni' C'. move_ptr (2 ^ k) ideal a (h, bs, ni) = Some (h', bs', ni') \<and>
    move_item (2 ^ k) ideal (cell h a) (abs_buckets h bs C, ni) = (abs_buckets h' bs' C', ni') \<and>
    linked h' bs' C' \<and> moved h C h' C' [a]"
proof -
  let ?i = "unat (HASH_TO_BKT (hashv (cell h a)) (2 ^ k))"
  let ?b = "bs ! ?i"
  let ?c = "ptr_count ?b + 1"
  let ?mult = "if ?c > ideal \<and> ?c > ptr_mult ?b * ideal then ptr_mult ?b + 1 else ptr_mult ?b"
  let ?b' = "\<lparr>hh_head = Some a, ptr_count = ?c, ptr_mult = ?mult\<rparr>"
  have i: "?i < length C" using bucket_bound [OF assms(3)] assms(2) by simp
  have len: "length bs = length C" by (rule linkedD(1) [OF assms(1)])
  obtain h' where h': "link_front a (hh_head ?b) h = Some h'" "linked h' (bs[?i := ?b']) (C[?i := a # C ! ?i])"
    "same_but_chains h h'" "\<forall>x. x \<noteq> a \<longrightarrow> chain_next h' x = chain_next h x"
    using link_front_linked [OF assms(1) i, of a ?b'] assms(4,5) by auto
  let ?ni = "if ?c > ideal then ni + 1 else ni"
  have cell: "cell h' = cell h" using h'(3) by (simp add: same_but_chains_def)
  have "move_ptr (2 ^ k) ideal a (h, bs, ni) = Some (h', bs[?i := ?b'], ?ni)"
    using i len h'(1) by (simp add: move_ptr_def nth_bucket_def Let_def)
  moreover have "move_item (2 ^ k) ideal (cell h a) (abs_buckets h bs C, ni) =
      (abs_buckets h' (bs[?i := ?b']) (C[?i := a # C ! ?i]), ?ni)"
    unfolding abs_buckets_cong [OF cell] unfolding abs_buckets_def map2_update
    using i len by (simp add: move_item_def Let_def abs_bucket_def)
  moreover have "moved h C h' (C[?i := a # C ! ?i]) [a]"
    using h'(3,4) concat_push_mset [OF i] by (simp add: moved_def)
  ultimately show ?thesis using h'(2) by blast
qed

text \<open>Moving the handles of a chain, and of all chains, is the fold of \<open>move_item\<close> over their items.\<close>

lemma move_chain_moves:
  assumes "linked h bs C" "length C = 2 ^ k" "k < 32" "distinct (xs @ concat C)" "set (xs @ concat C) \<subseteq> live h"
    and "path (chain_next h) xs"
  shows "\<exists>h' bs' ni' C'. move_chain (2 ^ k) ideal (first_of xs None) (h, bs, ni) = Some (h', bs', ni') \<and>
    fold (move_item (2 ^ k) ideal) (map (cell h) xs) (abs_buckets h bs C, ni) = (abs_buckets h' bs' C', ni') \<and>
    linked h' bs' C' \<and> moved h C h' C' xs"
  using assms(1,2,4-6)
proof (induction xs arbitrary: h bs C ni)
  case Nil
  then show ?case by (intro exI) (auto simp: move_chain.simps moved_def)
next
  case (Cons a xs)
  have d: "distinct (a # concat C)" "set (a # concat C) \<subseteq> live h" using Cons.prems(3,4) by auto
  obtain h1 bs1 ni1 C1 where m: "move_ptr (2 ^ k) ideal a (h, bs, ni) = Some (h1, bs1, ni1)"
    "move_item (2 ^ k) ideal (cell h a) (abs_buckets h bs C, ni) = (abs_buckets h1 bs1 C1, ni1)"
    "linked h1 bs1 C1" "moved h C h1 C1 [a]"
    using move_ptr_moves [OF Cons.prems(1,2) assms(3) d, of ideal ni] by blast
  have s: "set (concat C1) = insert a (set (concat C))" using moved_set [OF m(4)] by simp
  have keep: "same_but_chains h h1" "length C1 = length C" "\<And>x. x \<noteq> a \<Longrightarrow> chain_next h1 x = chain_next h x"
    using m(4) by (simp_all add: moved_def)
  have "distinct (concat C1)" using moved_distinct [OF m(4)] d(1) by simp
  then have d1: "distinct (xs @ concat C1)" using Cons.prems(3) s by auto
  have l1: "set (xs @ concat C1) \<subseteq> live h1"
    using Cons.prems(4) s keep(1) by (auto simp: same_but_chains_def)
  have "path (chain_next h1) xs \<longleftrightarrow> path (chain_next h) xs"
  proof (rule path_frame)
    fix x assume "x \<in> set xs"
    then have "x \<noteq> a" using Cons.prems(3) by auto
    then show "chain_next h1 x = chain_next h x" by (rule keep(3))
  qed
  then have "path (chain_next h1) xs" using Cons.prems(5) by simp
  from Cons.IH [OF m(3) _ d1 l1 this, of ni1] keep(2) Cons.prems(2) obtain h2 bs2 ni2 C2 where
    i: "move_chain (2 ^ k) ideal (first_of xs None) (h1, bs1, ni1) = Some (h2, bs2, ni2)"
      "fold (move_item (2 ^ k) ideal) (map (cell h1) xs) (abs_buckets h1 bs1 C1, ni1) = (abs_buckets h2 bs2 C2, ni2)"
      "linked h2 bs2 C2" "moved h1 C1 h2 C2 xs" by auto
  have "move_chain (2 ^ k) ideal (first_of (a # xs) None) (h, bs, ni) = Some (h2, bs2, ni2)"
    using m(1) i(1) d(2) Cons.prems(5) by (subst move_chain.simps) (simp add: Let_def)
  moreover have "cell h1 = cell h" using keep(1) by (simp add: same_but_chains_def)
  moreover have "moved h C h2 C2 (a # xs)" using moved_trans [OF m(4) i(4)] by simp
  ultimately show ?case using i(2,3) m(2) by (intro exI [of _ h2] exI [of _ bs2] exI [of _ ni2] exI [of _ C2]) simp
qed

lemma move_buckets_moves:
  assumes "linked h bs C" "length C = 2 ^ k" "k < 32" "distinct (concat D @ concat C)"
    and "set (concat D @ concat C) \<subseteq> live h"
    and "list_all2 (\<lambda>b c. hh_head b = first_of c None \<and> path (chain_next h) c) old D"
  shows "\<exists>h' bs' ni' C'. move_buckets (2 ^ k) ideal old (h, bs, ni) = Some (h', bs', ni') \<and>
    fold (move_item (2 ^ k) ideal) (map (cell h) (concat D)) (abs_buckets h bs C, ni) = (abs_buckets h' bs' C', ni') \<and>
    linked h' bs' C' \<and> moved h C h' C' (concat D)"
  using assms(1,2,4-6)
proof (induction old arbitrary: D h bs C ni)
  case Nil
  then show ?case by (intro exI) (auto simp: moved_def)
next
  case (Cons b old)
  then obtain xs D' where D: "D = xs # D'" "hh_head b = first_of xs None" "path (chain_next h) xs"
    "list_all2 (\<lambda>b c. hh_head b = first_of c None \<and> path (chain_next h) c) old D'"
    by (cases D) auto
  have d: "distinct (xs @ concat C)" "set (xs @ concat C) \<subseteq> live h" using Cons.prems(3,4) D(1) by auto
  obtain h1 bs1 ni1 C1 where m: "move_chain (2 ^ k) ideal (first_of xs None) (h, bs, ni) = Some (h1, bs1, ni1)"
    "fold (move_item (2 ^ k) ideal) (map (cell h) xs) (abs_buckets h bs C, ni) = (abs_buckets h1 bs1 C1, ni1)"
    "linked h1 bs1 C1" "moved h C h1 C1 xs"
    using move_chain_moves [OF Cons.prems(1,2) assms(3) d D(3), of ideal ni] by blast
  have s: "set (concat C1) = set xs \<union> set (concat C)" by (rule moved_set [OF m(4)])
  have keep: "same_but_chains h h1" "length C1 = length C" "\<And>x. x \<notin> set xs \<Longrightarrow> chain_next h1 x = chain_next h x"
    using m(4) by (simp_all add: moved_def)
  have "distinct (concat C1)" by (rule moved_distinct [OF m(4) d(1)])
  then have d1: "distinct (concat D' @ concat C1)" using Cons.prems(3) s D(1) by auto
  have l1: "set (concat D' @ concat C1) \<subseteq> live h1"
    using Cons.prems(4) s keep(1) D(1) by (auto simp: same_but_chains_def)
  have "path (chain_next h1) c" if "c \<in> set D'" "path (chain_next h) c" for c
  proof -
    have "x \<notin> set xs" if "x \<in> set c" for x using Cons.prems(3) D(1) that \<open>c \<in> set D'\<close> by auto
    with keep(3) have "path (chain_next h1) c \<longleftrightarrow> path (chain_next h) c" by (intro path_frame) blast
    with that(2) show ?thesis by simp
  qed
  then have "list_all2 (\<lambda>b c. hh_head b = first_of c None \<and> path (chain_next h1) c) old D'"
    using D(4) by (auto simp: list_all2_conv_all_nth)
  from Cons.IH [OF m(3) _ d1 l1 this, of ni1] keep(2) Cons.prems(2) obtain h2 bs2 ni2 C2 where
    i: "move_buckets (2 ^ k) ideal old (h1, bs1, ni1) = Some (h2, bs2, ni2)"
      "fold (move_item (2 ^ k) ideal) (map (cell h1) (concat D')) (abs_buckets h1 bs1 C1, ni1) = (abs_buckets h2 bs2 C2, ni2)"
      "linked h2 bs2 C2" "moved h1 C1 h2 C2 (concat D')" by auto
  have "cell h1 = cell h" using keep(1) by (simp add: same_but_chains_def)
  then show ?case
    using i m(1,2) D(1,2) moved_trans [OF m(4) i(4)]
    by (intro exI [of _ h2] exI [of _ bs2] exI [of _ ni2] exI [of _ C2]) simp
qed

lemma linked_empty:
  "linked h (replicate n empty_ptr_bucket) (replicate n [])"
  "abs_buckets h (replicate n empty_ptr_bucket) (replicate n []) = replicate n empty_bucket"
proof -
  show "linked h (replicate n empty_ptr_bucket) (replicate n [])"
    by (simp add: linked_def empty_ptr_bucket_def)
  show "abs_buckets h (replicate n empty_ptr_bucket) (replicate n []) = replicate n empty_bucket"
    by (simp add: abs_buckets_def zip_replicate abs_bucket_def empty_ptr_bucket_def empty_bucket_def)
qed

lemma expand_ptr_expands:
  assumes l: "linked h (ptr_buckets t) C" and d: "distinct (concat C)" "set (concat C) \<subseteq> live h"
    and n: "ptr_num_buckets t * 2 = 2 ^ k" "k < 32"
  shows "\<exists>h' t' C'. expand_ptr t h = Some (h'\<lparr>tbl := Some t'\<rparr>) \<and> same_but_chains h h' \<and>
    linked h' (ptr_buckets t') C' \<and> mset (concat C') = mset (concat C) \<and> ptr_tail t' = ptr_tail t \<and>
    abs_table h' t' C' = HASH_EXPAND_BUCKETS (abs_table h t C)"
proof -
  let ?ideal = "drop_bit (unat (ptr_log2 t + 1)) (ptr_num_items t) +
           (if ptr_num_items t AND (2 ^ k - 1) \<noteq> 0 then 1 else 0)"
  have old: "list_all2 (\<lambda>b c. hh_head b = first_of c None \<and> path (chain_next h) c) (ptr_buckets t) C"
    unfolding list_all2_conv_all_nth using linkedD [OF l] dseg_path by metis
  have u: "unat (2 ^ k :: u32) = 2 ^ k" by (rule two_power_u32 [OF n(2)])
  have none: "concat (replicate m []) = ([] :: addr list)" for m by (induction m) simp_all
  obtain h' bs' ni' C' where m:
    "move_buckets (2 ^ k) ?ideal (ptr_buckets t) (h, replicate (2 ^ k) empty_ptr_bucket, 0) = Some (h', bs', ni')"
    "fold (move_item (2 ^ k) ?ideal) (map (cell h) (concat C)) (replicate (2 ^ k) empty_bucket, 0) =
       (abs_buckets h' bs' C', ni')"
    "linked h' bs' C'" "moved h (replicate (2 ^ k) []) h' C' (concat C)"
    using move_buckets_moves [OF linked_empty(1), of "2 ^ k" k C h "ptr_buckets t" ?ideal 0] n(2) d old
    by (auto simp: none linked_empty(2))
  let ?ineff = "if ni' > drop_bit 1 (ptr_num_items t) then ptr_ineff t + 1 else 0"
  let ?t' = "t\<lparr>ptr_buckets := bs', ptr_num_buckets := 2 ^ k, ptr_log2 := ptr_log2 t + 1,
    ptr_ideal := ?ideal, ptr_nonideal := ni', ptr_ineff := ?ineff,
    ptr_noexpand := (if ?ineff > 1 then 1 else ptr_noexpand t)\<rparr>"
  have "expand_ptr t h = Some (h'\<lparr>tbl := Some ?t'\<rparr>)"
    using m(1) by (simp add: expand_ptr_def n(1) u Let_def)
  moreover have "abs_table h' ?t' C' = HASH_EXPAND_BUCKETS (abs_table h t C)"
    using m(2) by (simp add: HASH_EXPAND_BUCKETS_def abs_table_def n(1) u Let_def
        concat_abs_buckets [OF linkedD(1) [OF l]])
  moreover have "mset (concat C') = mset (concat C)" "same_but_chains h h'"
    using m(4) by (simp_all add: moved_def none)
  ultimately show ?thesis using m(3) by (intro exI [of _ h'] exI [of _ ?t'] exI [of _ C']) simp
qed

subsection \<open>Finding and assigning\<close>

text \<open>
  \<open>in_memory h ord C\<close>: the entries in use, in application order \<open>ord\<close> and in the chains \<open>C\<close>.  The memory
  stands for the table \<open>abs_head h C\<close>.
\<close>

definition in_memory :: "'v uheap \<Rightarrow> addr list \<Rightarrow> addr list list \<Rightarrow> bool" where
  "in_memory h ord C \<longleftrightarrow> set ord = live h \<and> distinct ord \<and> dseg (app_next h) (app_prev h) None ord None \<and>
     labels_head h = first_of ord None \<and> mset (concat C) = mset ord \<and>
     (case tbl h of None \<Rightarrow> ord = []
      | Some t \<Rightarrow> ord \<noteq> [] \<and> ptr_tail t = Some (last ord) \<and> linked h (ptr_buckets t) C)"

definition abs_head :: "'v uheap \<Rightarrow> addr list list \<Rightarrow> 'v hash_table option" where
  "abs_head h C = map_option (\<lambda>t. abs_table h t C) (tbl h)"

lemma in_memoryD:
  assumes "in_memory h ord C"
  shows "set ord = live h" "distinct ord" "dseg (app_next h) (app_prev h) None ord None"
    "labels_head h = first_of ord None" "mset (concat C) = mset ord" "distinct (concat C)"
    "set (concat C) = live h" "tbl h = None \<longleftrightarrow> ord = []"
    "tbl h = Some t \<Longrightarrow> ord \<noteq> [] \<and> ptr_tail t = Some (last ord) \<and> linked h (ptr_buckets t) C"
proof -
  show "set ord = live h" "distinct ord" "dseg (app_next h) (app_prev h) None ord None"
    "labels_head h = first_of ord None" "mset (concat C) = mset ord" "tbl h = None \<longleftrightarrow> ord = []"
    "tbl h = Some t \<Longrightarrow> ord \<noteq> [] \<and> ptr_tail t = Some (last ord) \<and> linked h (ptr_buckets t) C"
    using assms by (simp_all add: in_memory_def split: option.splits)
  then show "distinct (concat C)" "set (concat C) = live h"
    using distinct_mset [of "concat C" ord] by (simp, metis set_mset_mset)
qed

lemma in_memory_head:
  assumes "in_memory h ord C" "tbl h = Some t"
  shows "labels_head h = Some (hd ord)" "hd ord \<in> live h" "table_of h = Some t"
proof -
  have "ord \<noteq> []" using in_memoryD(9) [OF assms] by simp
  then show "labels_head h = Some (hd ord)" "hd ord \<in> live h"
    using in_memoryD(1,4) [OF assms(1)] by (simp_all add: first_of_nonempty flip: in_memoryD(1) [OF assms(1)])
  then show "table_of h = Some t" using assms(2) by (simp add: table_of_def allocated_def)
qed

lemma find_map: "find P (map f xs) = map_option f (find (\<lambda>x. P (f x)) xs)"
  by (induction xs) simp_all

lemma find_in_chain_path:
  "path (chain_next h) c \<Longrightarrow> set c \<subseteq> live h \<Longrightarrow>
     find_in_chain_ptr h key hv (first_of c None) =
     Some (find (\<lambda>a. hashv (cell h a) = hv \<and> length (hh_key (cell h a)) = length key \<and> hh_key (cell h a) = key) c)"
  by (induction c) (subst find_in_chain_ptr.simps, simp)+

lemma abs_table_simps [simp]:
  "num_buckets (abs_table h t C) = ptr_num_buckets t" "log2_num_buckets (abs_table h t C) = ptr_log2 t"
  "num_items (abs_table h t C) = ptr_num_items t" "buckets (abs_table h t C) = abs_buckets h (ptr_buckets t) C"
  "noexpand (abs_table h t C) = ptr_noexpand t"
  by (simp_all add: abs_table_def)

text \<open>The bucket of a key, and its chain.\<close>

definition home :: "ptr_table \<Rightarrow> string \<Rightarrow> nat" where
  "home t key = unat (HASH_TO_BKT (HASH_JEN key) (ptr_num_buckets t))"

lemma home_bound:
  assumes "in_memory h ord C" "tbl h = Some t"
  shows "head_ok (abs_head h C) \<Longrightarrow> home t key < length C" "length (ptr_buckets t) = length C"
proof -
  show l: "length (ptr_buckets t) = length C" using in_memoryD(9) [OF assms(1,2)] linkedD(1) by blast
  assume "head_ok (abs_head h C)"
  then have "table_ok (abs_table h t C)" using assms(2) by (simp add: head_ok_def abs_head_def)
  from table_ok_bucket [OF this, of "HASH_JEN key"] show "home t key < length C"
    using l by (simp add: home_def abs_buckets_length)
qed

text \<open>A search needs the bucket chains only.\<close>

lemma find_ptr_linked:
  assumes f: "labels_head h = Some f" "table_of h = Some t" and l: "linked h (ptr_buckets t) C"
    and lv: "set (concat C) \<subseteq> live h" and ok: "table_ok (abs_table h t C)"
  shows "home t key < length C"
    "find_ptr h key = Some (find (\<lambda>a. is_match key (cell h a)) (C ! home t key))"
    "map_option (map_option (cell h)) (find_ptr h key) = Some (HASH_FIND_STR (Some (abs_table h t C)) key)"
proof -
  have len: "length (ptr_buckets t) = length C" by (rule linkedD(1) [OF l])
  show b: "home t key < length C"
    using table_ok_bucket [OF ok, of "HASH_JEN key"] len by (simp add: home_def abs_buckets_length)
  have "path (chain_next h) (C ! home t key)" by (rule dseg_path [OF linkedD(3) [OF l b]])
  moreover have "set (C ! home t key) \<subseteq> live h" using concat_nth_subset [OF b] lv by simp
  ultimately have "find_in_chain_ptr h key (HASH_JEN key) (hh_head (ptr_buckets t ! home t key)) =
      Some (find (\<lambda>a. is_match key (cell h a)) (C ! home t key))"
    unfolding linkedD(2) [OF l b] by (rule find_in_chain_path)
  then show *: "find_ptr h key = Some (find (\<lambda>a. is_match key (cell h a)) (C ! home t key))"
    using f b len by (simp add: find_ptr_def Let_def nth_bucket_def home_def)
  have "hh_chain (abs_buckets h (ptr_buckets t) C ! home t key) = map (cell h) (C ! home t key)"
    using b len by (simp add: abs_buckets_nth abs_bucket_def)
  then show "map_option (map_option (cell h)) (find_ptr h key) = Some (HASH_FIND_STR (Some (abs_table h t C)) key)"
    by (simp add: * HASH_FIND_STR_def HASH_FIND_IN_BKT_def Let_def find_map home_def)
qed

lemma get_ptr_linked:
  assumes "labels_head h = Some f" "table_of h = Some t" "linked h (ptr_buckets t) C" "set (concat C) \<subseteq> live h"
    and ok: "table_ok (abs_table h t C)"
  shows "get_ptr h key = Some (table_map (Some (abs_table h t C)) key)"
proof -
  have ok': "head_ok (Some (abs_table h t C))" using ok by (simp add: head_ok_def)
  obtain p where p: "find_ptr h key = Some p" using find_ptr_linked(2) [OF assms, of key] by blast
  then have q: "map_option (cell h) p = HASH_FIND_STR (Some (abs_table h t C)) key"
    using find_ptr_linked(3) [OF assms, of key] by simp
  have "get_ptr h key = Some (map_option item_value (map_option (cell h) p))"
    using p by (simp add: get_ptr_def option.map_comp o_def)
  then show ?thesis unfolding q using find_is_map [OF ok', of key] by simp
qed

lemma find_ptr_finds:
  assumes m: "in_memory h ord C" and ok: "head_ok (abs_head h C)"
  shows "find_ptr h key = Some (case tbl h of None \<Rightarrow> None | Some t \<Rightarrow>
      find (\<lambda>a. is_match key (cell h a)) (C ! home t key))"
    "map_option (map_option (cell h)) (find_ptr h key) = Some (HASH_FIND_STR (abs_head h C) key)"
proof -
  have "find_ptr h key = Some (case tbl h of None \<Rightarrow> None | Some t \<Rightarrow>
      find (\<lambda>a. is_match key (cell h a)) (C ! home t key)) \<and>
    map_option (map_option (cell h)) (find_ptr h key) = Some (HASH_FIND_STR (abs_head h C) key)"
  proof (cases "tbl h")
    case None
    then have "labels_head h = None" using in_memoryD(4,8) [OF m] by simp
    then show ?thesis using None by (simp add: find_ptr_def abs_head_def HASH_FIND_STR_def)
  next
    case (Some t)
    have l: "linked h (ptr_buckets t) C" "set (concat C) \<subseteq> live h" "table_ok (abs_table h t C)"
      using in_memoryD(9) [OF m Some] in_memoryD(7) [OF m] ok Some by (simp_all add: head_ok_def abs_head_def)
    from find_ptr_linked(2,3) [OF in_memory_head(1,3) [OF m Some] l] Some show ?thesis by (simp add: abs_head_def)
  qed
  then show "find_ptr h key = Some (case tbl h of None \<Rightarrow> None | Some t \<Rightarrow>
      find (\<lambda>a. is_match key (cell h a)) (C ! home t key))"
    "map_option (map_option (cell h)) (find_ptr h key) = Some (HASH_FIND_STR (abs_head h C) key)" by blast+
qed

lemma get_ptr_gets:
  assumes "in_memory h ord C" "head_ok (abs_head h C)"
  shows "get_ptr h key = Some (table_map (abs_head h C) key)"
proof -
  obtain p where p: "find_ptr h key = Some p" using find_ptr_finds(1) [OF assms] by blast
  then have q: "map_option (cell h) p = HASH_FIND_STR (abs_head h C) key"
    using find_ptr_finds(2) [OF assms, of key] by simp
  have "get_ptr h key = Some (map_option item_value (map_option (cell h) p))"
    using p by (simp add: get_ptr_def option.map_comp o_def)
  then show ?thesis unfolding q using find_is_map [OF assms(2), of key] by simp
qed

lemma set_first_map:
  "find (\<lambda>a. P (c a)) xs = Some x \<Longrightarrow> distinct xs \<Longrightarrow>
     set_first P f (map c xs) = map (c(x := f (c x))) xs"
  by (induction xs) (auto split: if_splits simp: find_Some_iff)

lemma find_in_set: "find P xs = Some x \<Longrightarrow> x \<in> set xs"
  by (auto simp: find_Some_iff)

lemma assign_ptr_assigns:
  fixes v :: 'v
  assumes m: "in_memory h ord C" and ok: "head_ok (abs_head h C)" and e: "find_ptr h key = Some (Some e)"
    and h': "h' = h\<lparr>cell := (cell h)(e := (cell h e)\<lparr>item_value := v\<rparr>)\<rparr>"
  shows "in_memory h' ord C" "abs_head h' C = map_option (\<lambda>t. assign_found t key v) (abs_head h C)"
proof -
  show "in_memory h' ord C" using m by (simp add: in_memory_def h' linked_def cong: option.case_cong)
  obtain t where t: "tbl h = Some t" "find (\<lambda>a. is_match key (cell h a)) (C ! home t key) = Some e"
    using e find_ptr_finds(1) [OF m ok, of key] by (auto split: option.splits)
  note b = home_bound(1) [OF m t(1) ok, of key] home_bound(2) [OF m t(1)]
  have dj: "distinct (C ! home t key)" using in_memoryD(6) [OF m] nth_mem [OF b(1)] by (simp add: distinct_concat_iff)
  have ein: "e \<in> set (C ! home t key)" by (rule find_in_set [OF t(2)])
  have "abs_buckets h' (ptr_buckets t) C =
      (abs_buckets h (ptr_buckets t) C)[home t key := (abs_buckets h (ptr_buckets t) C ! home t key)
        \<lparr>hh_chain := set_first (is_match key) (\<lambda>x. x\<lparr>item_value := v\<rparr>)
           (hh_chain (abs_buckets h (ptr_buckets t) C ! home t key))\<rparr>]"
  proof (rule nth_equalityI)
    fix j assume "j < length (abs_buckets h' (ptr_buckets t) C)"
    then have j: "j < length C" using b(2) by (simp add: abs_buckets_length)
    show "abs_buckets h' (ptr_buckets t) C ! j =
      (abs_buckets h (ptr_buckets t) C)[home t key := (abs_buckets h (ptr_buckets t) C ! home t key)
        \<lparr>hh_chain := set_first (is_match key) (\<lambda>x. x\<lparr>item_value := v\<rparr>)
           (hh_chain (abs_buckets h (ptr_buckets t) C ! home t key))\<rparr>] ! j"
    proof (cases "j = home t key")
      case True
      then show ?thesis
        using b j set_first_map [where P = "is_match key" and c = "cell h", OF t(2) dj]
        by (simp add: abs_buckets_nth abs_buckets_length abs_bucket_def h')
    next
      case False
      then have "e \<notin> set (C ! j)"
        using distinct_concat_nth [OF in_memoryD(6) [OF m] b(1) j] ein by blast
      then show ?thesis
        using False b j by (simp add: abs_buckets_nth abs_bucket_def h')
    qed
  qed (simp add: b abs_buckets_length)
  then have "abs_table h' t C = assign_found (abs_table h t C) key v"
    by (simp add: abs_table_def assign_found_def Let_def home_def)
  then show "abs_head h' C = map_option (\<lambda>t. assign_found t key v) (abs_head h C)"
    using t(1) by (simp add: abs_head_def h')
qed

subsection \<open>Adding\<close>

lemma linked_frame [simp]:
  "linked (h\<lparr>tbl := x\<rparr>) bs C = linked h bs C" "linked (h\<lparr>cell := c\<rparr>) bs C = linked h bs C"
  "linked (h\<lparr>live := l\<rparr>) bs C = linked h bs C" "linked (h\<lparr>labels_head := q\<rparr>) bs C = linked h bs C"
  "linked (h\<lparr>app_next := nx\<rparr>) bs C = linked h bs C" "linked (h\<lparr>app_prev := pv\<rparr>) bs C = linked h bs C"
  by (simp_all add: linked_def)

lemma abs_table_frame [simp]:
  "abs_table (h\<lparr>tbl := x\<rparr>) t C = abs_table h t C" "abs_table (h\<lparr>live := l\<rparr>) t C = abs_table h t C"
  "abs_table (h\<lparr>labels_head := q\<rparr>) t C = abs_table h t C"
  "abs_table (h\<lparr>app_next := nx\<rparr>) t C = abs_table h t C" "abs_table (h\<lparr>app_prev := pv\<rparr>) t C = abs_table h t C"
  "abs_table h (t\<lparr>ptr_tail := p\<rparr>) C = abs_table h t C"
  by (simp_all add: abs_table_def abs_buckets_def abs_bucket_def)

lemma abs_buckets_frame:
  assumes "length bs = length C" "\<And>x. x \<in> set (concat C) \<Longrightarrow> cell h' x = cell h x"
  shows "abs_buckets h' bs C = abs_buckets h bs C"
proof (rule nth_equalityI)
  fix j assume "j < length (abs_buckets h' bs C)"
  then have j: "j < length C" using assms(1) by (simp add: abs_buckets_length)
  have "map (cell h') (C ! j) = map (cell h) (C ! j)"
  proof (rule map_cong [OF refl])
    fix x assume "x \<in> set (C ! j)"
    with concat_nth_subset [OF j] show "cell h' x = cell h x" by (intro assms(2)) blast
  qed
  then show "abs_buckets h' bs C ! j = abs_buckets h bs C ! j"
    using assms(1) j by (simp add: abs_buckets_nth abs_bucket_def)
qed (simp add: assms(1) abs_buckets_length)

lemma add_to_bkt_ptr_adds:
  assumes t: "table_of h = Some t" and l: "linked h (ptr_buckets t) C" and i: "i < length C"
    and a: "distinct (a # concat C)" "set (a # concat C) \<subseteq> live h"
    and n: "ptr_num_buckets t = 2 ^ k"
    and room: "ptr_count (ptr_buckets t ! i) + 1 \<ge> (ptr_mult (ptr_buckets t ! i) + 1) * 10 \<Longrightarrow> k + 1 < 32"
  shows "\<exists>h' t' C'. add_to_bkt_ptr i a h = Some (h'\<lparr>tbl := Some t'\<rparr>) \<and> same_but_chains h h' \<and>
    linked h' (ptr_buckets t') C' \<and> mset (concat C') = add_mset a (mset (concat C)) \<and>
    ptr_tail t' = ptr_tail t \<and> abs_table h' t' C' = HASH_ADD_TO_BKT i (cell h a) (abs_table h t C)"
proof -
  let ?b = "ptr_buckets t ! i"
  let ?b' = "?b\<lparr>ptr_count := ptr_count ?b + 1, hh_head := Some a\<rparr>"
  let ?t = "t\<lparr>ptr_buckets := (ptr_buckets t)[i := ?b']\<rparr>"
  let ?C = "C[i := a # C ! i]"
  let ?grow = "ptr_count ?b + 1 \<ge> (ptr_mult ?b + 1) * 10 \<and> ptr_noexpand t = 0"
  have len: "length (ptr_buckets t) = length C" by (rule linkedD(1) [OF l])
  have d: "distinct (concat C)" "a \<notin> set (concat C)" and lv: "a \<in> live h" "set (concat C) \<subseteq> live h"
    using a unfolding distinct.simps list.simps insert_subset by blast+
  have hb: "hh_head ?b' = Some a" by simp
  obtain h1 where "link_front a (hh_head ?b) h = Some h1" "linked h1 ((ptr_buckets t)[i := ?b']) ?C"
    "same_but_chains h h1"
    using link_front_linked [OF l i d lv hb] by blast
  then have h1: "link_front a (hh_head ?b) h = Some h1" "linked h1 (ptr_buckets ?t) ?C" "same_but_chains h h1"
    by simp_all
  have c: "cell h1 = cell h" using h1(3) by (simp add: same_but_chains_def)
  have run: "add_to_bkt_ptr i a h = (if ?grow then expand_ptr ?t h1 else Some (h1\<lparr>tbl := Some ?t\<rparr>))"
    using t i len h1(1) by (simp add: add_to_bkt_ptr_def nth_bucket_def Let_def)
  have abs1: "abs_table h1 ?t ?C = chain_add i (cell h a) (abs_table h t C)"
    using i len by (simp add: chain_add_def abs_table_def abs_buckets_nth abs_buckets_cong [OF c])
      (simp add: abs_buckets_def map2_update abs_bucket_def)
  have spec: "HASH_ADD_TO_BKT i (cell h a) (abs_table h t C) =
      (if ?grow then HASH_EXPAND_BUCKETS (abs_table h1 ?t ?C) else abs_table h1 ?t ?C)"
    using i len by (simp add: abs1) (simp add: HASH_ADD_TO_BKT_def chain_add_def Let_def abs_buckets_nth abs_bucket_def)
  have ms: "mset (concat ?C) = add_mset a (mset (concat C))" by (rule concat_push_mset [OF i])
  show ?thesis
  proof (cases ?grow)
    case False
    then show ?thesis
      unfolding run spec if_not_P [OF False] using h1(2,3) ms by (intro exI [of _ h1] exI [of _ ?t] exI [of _ ?C]) simp
  next
    case True
    have d: "distinct (concat ?C)" using distinct_mset [of "concat ?C" "a # concat C"] ms a(1) by simp
    have "set (concat ?C) = set (a # concat C)" using ms by (metis mset.simps(2) set_mset_mset)
    then have lv: "set (concat ?C) \<subseteq> live h1" using a(2) h1(3) by (simp add: same_but_chains_def)
    have "ptr_num_buckets ?t * 2 = 2 ^ (k + 1)" using n by simp
    from expand_ptr_expands [OF h1(2) d lv this] room True obtain h2 t2 C2 where
      x: "expand_ptr ?t h1 = Some (h2\<lparr>tbl := Some t2\<rparr>)" "same_but_chains h1 h2" "linked h2 (ptr_buckets t2) C2"
        "mset (concat C2) = mset (concat ?C)" "ptr_tail t2 = ptr_tail ?t"
        "abs_table h2 t2 C2 = HASH_EXPAND_BUCKETS (abs_table h1 ?t ?C)" by blast
    then show ?thesis
      unfolding run spec if_P [OF True] using ms same_but_chains_trans [OF h1(3) x(2)]
      by (intro exI [of _ h2] exI [of _ t2] exI [of _ C2]) simp
  qed
qed

text \<open>The expansion's room, from the bound on how often a table grows.\<close>

lemma growth_room:
  assumes "table_ok t" "grown t a" "a < 188" "i < length (buckets t)"
    and "bkt_count (buckets t ! i) + 1 \<ge> (expand_mult (buckets t ! i) + 1) * 10"
  shows "unat (log2_num_buckets t) + 1 < 32"
proof -
  obtain s where s: "counted (buckets t) s a" "7 * (unat (log2_num_buckets t) - 5) + s \<le> a"
    using grownD(5) [OF assms(2)] by auto
  from chain_add_counted(2) [OF s(1) assms(4) _ assms(5)] s(2) assms(3) show ?thesis by linarith
qed

text \<open>
  \<open>entered h C a e ord' h2\<close>: the handle at \<open>a\<close> with cell \<open>e\<close> is in the list in application order, now \<open>ord'\<close>,
  and in no bucket yet; the first one has made an empty table.
\<close>

definition entered :: "'v uheap \<Rightarrow> addr list list \<Rightarrow> addr \<Rightarrow> 'v item \<Rightarrow> addr list \<Rightarrow> 'v uheap \<Rightarrow> bool" where
  "entered h C a e ord' h2 \<longleftrightarrow>
     live h2 = insert a (live h) \<and> cell h2 = (cell h)(a := e) \<and> labels_head h2 = first_of ord' None \<and>
     dseg (app_next h2) (app_prev h2) None ord' None \<and>
     (\<exists>t C2. tbl h2 = Some t \<and> table_of h2 = Some t \<and> ptr_tail t = Some (last ord') \<and>
        linked h2 (ptr_buckets t) C2 \<and> mset (concat C2) = mset (concat C) \<and>
        abs_table h2 t C2 = (case abs_head h C of None \<Rightarrow> HASH_MAKE_TABLE | Some u \<Rightarrow> u))"

text \<open>The new handle at the end of the list in application order, or alone in a new table.\<close>

lemma append_ptr_appends:
  assumes m: "in_memory h ord C" and a: "a \<notin> live h"
    and h1_def: "h1 = h\<lparr>live := insert a (live h), cell := (cell h)(a := e)\<rparr>"
  shows "\<exists>h2. enter_list_ptr a h1 = Some h2 \<and> entered h C a e (ord @ [a]) h2"
proof (cases "tbl h")
  case None
  let ?t = "make_table_ptr a"
  let ?h2 = "h1\<lparr>app_next := (app_next h1)(a := None), app_prev := (app_prev h1)(a := None),
                       tbl := Some ?t, labels_head := Some a\<rparr>"
  have ord: "ord = []" using None in_memoryD(8) [OF m] by simp
  have lh: "labels_head h1 = None" using ord in_memoryD(4) [OF m] by (simp add: h1_def)
  have C: "concat C = []" using in_memoryD(5) [OF m] ord by simp
  have "linked ?h2 (ptr_buckets ?t) (replicate 32 [])"
    by (simp add: make_table_ptr_def linked_empty(1))
  moreover have "abs_table ?h2 ?t (replicate 32 []) = HASH_MAKE_TABLE"
    by (simp add: abs_table_def make_table_ptr_def HASH_MAKE_TABLE_def linked_empty(2))
  moreover have "concat (replicate 32 []) = ([] :: addr list)" by simp
  moreover have "table_of ?h2 = Some ?t" by (simp add: table_of_def allocated_def h1_def)
  moreover have "abs_head h C = None" using None by (simp add: abs_head_def)
  ultimately show ?thesis
    unfolding entered_def
    by (intro exI [of _ ?h2] exI [of _ ?t] exI [of _ "replicate 32 []"] conjI)
      (simp add: enter_list_ptr_def lh ord C, simp_all add: h1_def make_table_ptr_def ord C)
next
  case (Some t)
  note tt = in_memoryD(9) [OF m Some] and hd = in_memory_head [OF m Some]
  let ?t = "t\<lparr>ptr_tail := Some a\<rparr>"
  let ?h2 = "h1\<lparr>app_next := (app_next h1)(a := None, last ord := Some a),
                 app_prev := (app_prev h1)(a := Some (last ord)), tbl := Some ?t\<rparr>"
  have lst: "last ord \<in> live h" using tt in_memoryD(1) [OF m] last_in_set by blast
  have na: "a \<notin> set ord" "a \<notin> set (concat C)" using a in_memoryD(1,7) [OF m] by simp_all
  have "table_of h1 = Some t" using hd(1,2) Some by (simp add: table_of_def allocated_def h1_def)
  then have run: "append_list_ptr a h1 = Some ?h2"
    using tt lst by (simp add: append_list_ptr_def allocated_def h1_def)
  have "dseg (app_next ?h2) (app_prev ?h2) None (ord @ [a]) None"
    using dseg_snoc [OF in_memoryD(3) [OF m] in_memoryD(2) [OF m] na(1)] tt by (simp add: h1_def)
  moreover have "table_of ?h2 = Some ?t" using hd(1,2) by (simp add: table_of_def allocated_def h1_def)
  moreover have "abs_buckets ?h2 (ptr_buckets t) C = abs_buckets h (ptr_buckets t) C"
    using tt na(2) linkedD(1) by (intro abs_buckets_frame) (blast, auto simp: h1_def)
  then have "abs_table ?h2 ?t C = abs_table h t C" by (simp add: abs_table_def)
  moreover have "abs_head h C = Some (abs_table h t C)" using Some by (simp add: abs_head_def)
  moreover have "labels_head h1 = Some (hd ord)" "first_of (ord @ [a]) None = Some (hd ord)"
    using hd(1) tt by (simp_all add: h1_def first_of_nonempty)
  ultimately show ?thesis
    using run tt unfolding entered_def
    by (intro exI [of _ ?h2] exI [of _ ?t] exI [of _ C] conjI) (simp add: enter_list_ptr_def, simp_all add: h1_def)
qed

end
