(* ===== verification/Label_Memory.thy ===== *)
theory Label_Memory
  imports Uthash_Memory Assembler_Spec
begin

text \<open>
  The assembler's labels in memory: \<open>put\<close> and \<open>get\<close> on pointers do what they do on the lists of
  \<open>Assembler\<close>, any handle can be deleted and freed, and the clean-up leaves no memory allocated.
\<close>

subsection \<open>Inserting\<close>

text \<open>A handle that is in the list in application order goes into its bucket.\<close>

lemma add_to_table_adds:
  assumes m: "in_memory h ord C" and a: "a \<notin> live h" and t: "table_holds (abs_head h C) n" "n < 188"
    and en: "entered h C a \<lparr>hh_key = key, hashv = HASH_JEN key, item_value = v\<rparr> ord' h2"
    and ord': "mset ord' = add_mset a (mset ord)"
  shows "\<exists>h' C'. add_to_table_ptr (HASH_JEN key) a h2 = Some h' \<and> in_memory h' ord' C' \<and>
    cell h' = (cell h)(a := \<lparr>hh_key = key, hashv = HASH_JEN key, item_value = v\<rparr>) \<and>
    abs_head h' C' = Some (HASH_ADD_STR (abs_head h C) key v)"
proof -
  let ?hv = "HASH_JEN key"
  let ?e = "\<lparr>hh_key = key, hashv = ?hv, item_value = v\<rparr>"
  define u where "u = (case abs_head h C of None \<Rightarrow> HASH_MAKE_TABLE | Some u \<Rightarrow> u)"
  have u: "table_ok u" "grown u n"
    using t(1) make_table_ok by (auto simp: u_def table_holds_def head_ok_def split: option.splits)
  obtain s C2 where ap: "live h2 = insert a (live h)" "cell h2 = (cell h)(a := ?e)" "labels_head h2 = first_of ord' None"
    "dseg (app_next h2) (app_prev h2) None ord' None" "tbl h2 = Some s" "table_of h2 = Some s"
    "ptr_tail s = Some (last ord')" "linked h2 (ptr_buckets s) C2" "mset (concat C2) = mset (concat C)"
    "abs_table h2 s C2 = u"
    using en unfolding entered_def u_def [symmetric] by blast
  let ?s = "s\<lparr>ptr_num_items := ptr_num_items s + 1\<rparr>"
  let ?h3 = "h2\<lparr>tbl := Some ?s\<rparr>"
  let ?i = "unat (HASH_TO_BKT ?hv (ptr_num_buckets s))"
  have len: "length (ptr_buckets s) = length C2" by (rule linkedD(1) [OF ap(8)])
  have bk: "buckets u = abs_buckets h2 (ptr_buckets s) C2" "num_buckets u = ptr_num_buckets s"
    "log2_num_buckets u = ptr_log2 s" using ap(10) by auto
  have i: "?i < length C2"
    using table_ok_bucket [OF u(1), of ?hv] len by (simp add: bk abs_buckets_length)
  have set2: "set (concat C2) = live h" using ap(9) in_memoryD(7) [OF m] by (metis set_mset_mset)
  have d: "distinct (a # concat C2)" "set (a # concat C2) \<subseteq> live ?h3"
    using distinct_mset [OF ap(9)] in_memoryD(6) [OF m] set2 a ap(1) by auto
  have "table_of ?h3 = Some ?s" using ap(5,6) by (auto simp: table_of_def allocated_def split: option.splits if_splits)
  moreover have "linked ?h3 (ptr_buckets ?s) C2" using ap(8) by simp
  moreover have "ptr_num_buckets ?s = 2 ^ unat (ptr_log2 s)" using table_okD(2) [OF u(1)] by (simp add: bk)
  moreover have "unat (ptr_log2 s) + 1 < 32"
    if "ptr_count (ptr_buckets ?s ! ?i) + 1 \<ge> (ptr_mult (ptr_buckets ?s ! ?i) + 1) * 10"
    using growth_room [OF u t(2), of ?i] that i len by (simp add: bk abs_buckets_nth abs_buckets_length abs_bucket_def)
  ultimately obtain h' s' C' where ad: "add_to_bkt_ptr ?i a ?h3 = Some (h'\<lparr>tbl := Some s'\<rparr>)"
    "same_but_chains ?h3 h'" "linked h' (ptr_buckets s') C'" "mset (concat C') = add_mset a (mset (concat C2))"
    "ptr_tail s' = ptr_tail ?s" "abs_table h' s' C' = HASH_ADD_TO_BKT ?i (cell ?h3 a) (abs_table ?h3 ?s C2)"
    using add_to_bkt_ptr_adds [of ?h3 ?s C2 ?i a "unat (ptr_log2 s)"] i d by blast
  have run: "add_to_table_ptr ?hv a h2 = Some (h'\<lparr>tbl := Some s'\<rparr>)"
    using ap(6) ad(1) by (simp add: add_to_table_ptr_def Let_def)
  have so: "set ord' = insert a (live h)" "distinct ord'" "ord' \<noteq> []"
    using ord' in_memoryD(1,2) [OF m] a distinct_mset [of ord' "a # ord"] by (metis set_mset_mset set_mset_add_mset_insert, auto)
  have mem: "in_memory (h'\<lparr>tbl := Some s'\<rparr>) ord' C'"
    using ad(2-5) ap(1,3,4,7,9) in_memoryD(5) [OF m] ord' so by (simp add: in_memory_def same_but_chains_def)
  have abs: "abs_table h' s' C' = HASH_ADD_STR (abs_head h C) key v"
  proof -
    have "abs_table ?h3 ?s C2 = u\<lparr>num_items := num_items u + 1\<rparr>"
      unfolding ap(10) [symmetric] by (simp add: abs_table_def abs_buckets_def abs_bucket_def)
    then show ?thesis
      unfolding ad(6) HASH_ADD_STR_def Let_def u_def [symmetric] by (simp add: ap(2) bk)
  qed
  show ?thesis
    using run mem abs ad(2) ap(2)
    by (intro exI [of _ "h'\<lparr>tbl := Some s'\<rparr>"] exI [of _ C']) (simp add: abs_head_def same_but_chains_def)
qed

lemma add_ptr_adds:
  assumes m: "in_memory h ord C" and a: "a \<notin> live h"
    and t: "table_holds (abs_head h C) n" "n < 188"
  shows "\<exists>h' C'. add_ptr a (h\<lparr>live := insert a (live h),
        cell := (cell h)(a := \<lparr>hh_key = key, hashv = 0, item_value = v\<rparr>)\<rparr>) = Some h' \<and>
    in_memory h' (ord @ [a]) C' \<and> abs_head h' C' = Some (HASH_ADD_STR (abs_head h C) key v)"
proof -
  obtain h2 where e: "enter_list_ptr a (h\<lparr>live := insert a (live h),
      cell := (cell h)(a := \<lparr>hh_key = key, hashv = HASH_JEN key, item_value = v\<rparr>)\<rparr>) = Some h2"
    "entered h C a \<lparr>hh_key = key, hashv = HASH_JEN key, item_value = v\<rparr> (ord @ [a]) h2"
    using append_ptr_appends [OF m a refl] by blast
  from add_to_table_adds [OF m a t e(2)] e(1) show ?thesis by (auto simp: add_ptr_def Let_def)
qed

lemma put_ptr_puts:
  assumes m: "in_memory h ord C" and a: "a \<notin> live h" and t: "table_holds (abs_head h C) n" "n < 188"
  shows "\<exists>h' ord' C'. put_ptr a key v h = Some h' \<and> in_memory h' ord' C' \<and>
    abs_head h' C' = put (abs_head h C) key v"
proof -
  have ok: "head_ok (abs_head h C)" using t(1) by (simp add: table_holds_def)
  obtain p where p: "find_ptr h key = Some p" using find_ptr_finds(1) [OF m ok] by blast
  then have f: "map_option (cell h) p = HASH_FIND_STR (abs_head h C) key"
    using find_ptr_finds(2) [OF m ok, of key] by simp
  show ?thesis
  proof (cases p)
    case None
    with f have "HASH_FIND_STR (abs_head h C) key = None" by simp
    with None p add_ptr_adds [OF m a t, of "take 63 key" v] show ?thesis
      by (auto simp: put_ptr_def put_def)
  next
    case (Some e)
    with f have "HASH_FIND_STR (abs_head h C) key = Some (cell h e)" by simp
    with Some p assign_ptr_assigns [OF m ok _ refl, of key e v] show ?thesis
      by (intro exI) (auto simp: put_ptr_def put_def)
  qed
qed

lemma put_keeps:
  assumes "table_holds labels n" "n < 188" "length key \<le> 63"
  shows "\<exists>n'\<le>n + 1. table_holds (put labels key v) n'"
proof -
  have "put labels key v = (if map_option item_value (HASH_FIND_STR labels key) = None
      then Some (HASH_ADD_STR labels key v) else map_option (\<lambda>t. assign_found t key v) labels)"
    using assms(3) by (simp add: put_def split: option.splits)
  then show ?thesis using uthash.put_law [OF assms(1,2), of key v] by auto
qed

lemma puts_ptr_puts:
  assumes "\<And>L. finite L \<Longrightarrow> malloc L \<notin> L" and "in_memory h ord C" "table_holds (abs_head h C) n"
    and "n + length kvs \<le> 188" "\<forall>(k, v)\<in>set kvs. length k \<le> 63"
  shows "\<exists>h' ord' C' n'. puts_ptr malloc kvs h = Some h' \<and> in_memory h' ord' C' \<and>
    table_holds (abs_head h' C') n' \<and> abs_head h' C' = fold (\<lambda>(k, v) t. put t k v) kvs (abs_head h C)"
  using assms(2-5)
proof (induction kvs arbitrary: h ord C n)
  case Nil
  then show ?case by auto
next
  case (Cons kv kvs)
  obtain k v where kv: "kv = (k, v)" by (cases kv)
  have "finite (live h)" using in_memoryD(1) [OF Cons.prems(1)] by (metis List.finite_set)
  from assms(1) [OF this] Cons.prems(3) obtain h1 ord1 C1 where
    p: "put_ptr (malloc (live h)) k v h = Some h1" "in_memory h1 ord1 C1"
      "abs_head h1 C1 = put (abs_head h C) k v"
    using put_ptr_puts [OF Cons.prems(1) _ Cons.prems(2), of "malloc (live h)" k v] by auto
  obtain n1 where n1: "n1 \<le> n + 1" "table_holds (abs_head h1 C1) n1"
    using put_keeps [OF Cons.prems(2), of k v] Cons.prems(3,4) p(3) kv by auto
  have "n1 + length kvs \<le> 188" "\<forall>(k, v)\<in>set kvs. length k \<le> 63" using n1(1) Cons.prems(3,4) by auto
  from Cons.IH [OF p(2) n1(2) this] p(1,3) kv show ?case by auto
qed

subsection \<open>Deleting\<close>

text \<open>Every handle is in the chain that its stored hash selects, which is where a deletion looks for it.\<close>

definition homed :: "'v uheap \<Rightarrow> addr list list \<Rightarrow> bool" where
  "homed h C \<longleftrightarrow> (case tbl h of None \<Rightarrow> True
     | Some t \<Rightarrow> \<forall>i<length C. \<forall>x\<in>set (C ! i). unat (HASH_TO_BKT (hashv (cell h x)) (ptr_num_buckets t)) = i)"

lemma homed_table:
  assumes "in_memory h ord C" "head_ok (abs_head h C)"
  shows "homed h C"
proof (cases "tbl h")
  case None
  then show ?thesis by (simp add: homed_def)
next
  case (Some t)
  have l: "length (ptr_buckets t) = length C" by (rule home_bound(2) [OF assms(1) Some])
  have "table_ok (abs_table h t C)" using assms(2) Some by (simp add: head_ok_def abs_head_def)
  then have p: "placed (abs_buckets h (ptr_buckets t) C) (ptr_num_buckets t)" using table_okD(1) by fastforce
  have "unat (HASH_TO_BKT (hashv (cell h x)) (ptr_num_buckets t)) = i" if "i < length C" "x \<in> set (C ! i)" for i x
  proof (rule conjunct2 [OF placedD [OF p]])
    show "i < length (abs_buckets h (ptr_buckets t) C)" using that(1) l by (simp add: abs_buckets_length)
    show "cell h x \<in> set (hh_chain (abs_buckets h (ptr_buckets t) C ! i))"
      using that l by (simp add: abs_buckets_nth abs_bucket_def)
  qed
  then show ?thesis using Some by (simp add: homed_def)
qed

lemma unlink_linked:
  assumes l: "linked h bs C" and i: "i < length C" and d: "distinct (concat C)" and c: "C ! i = us @ a # vs"
    and b': "hh_head b' = (if hh_head (bs ! i) = Some a then chain_next h a else hh_head (bs ! i))"
  shows "linked (h\<lparr>chain_next := set_at (chain_prev h a) (chain_next h a) (chain_next h),
      chain_prev := set_at (chain_next h a) (chain_prev h a) (chain_prev h)\<rparr>) (bs[i := b']) (C[i := us @ vs])"
    "chain_prev h a = last_of None us" "chain_next h a = first_of vs None"
proof -
  have "distinct (C ! i)" using d nth_mem [OF i] by (simp add: distinct_concat_iff)
  then have di: "distinct (us @ a # vs)" by (simp only: c)
  note u = dseg_unlink [OF linkedD(3) [OF l i, unfolded c] di]
  show p: "chain_prev h a = last_of None us" and n: "chain_next h a = first_of vs None" by (fact u)+
  let ?nx = "set_at (chain_prev h a) (chain_next h a) (chain_next h)"
  let ?pv = "set_at (chain_next h a) (chain_prev h a) (chain_prev h)"
  have "hh_head ((bs[i := b']) ! j) = first_of ((C[i := us @ vs]) ! j) None \<and>
      dseg ?nx ?pv None ((C[i := us @ vs]) ! j) None" if j: "j < length C" for j
  proof (cases "j = i")
    case True
    have "hh_head (bs ! i) = first_of (us @ a # vs) None" using linkedD(2) [OF l i] c by simp
    then have "hh_head b' = first_of (us @ vs) None" using di b' n by (cases us) auto
    then show ?thesis using True u(1) j linkedD(1) [OF l] by simp
  next
    case False
    have dj: "set (C ! j) \<inter> set (C ! i) = {}" using distinct_concat_nth [OF d j i False] .
    have "x \<notin> set (C ! j)" if "chain_prev h a = Some x" for x
      using that p dj c last_in_set [of us] by (auto simp: last_of_def split: if_splits)
    moreover have "x \<notin> set (C ! j)" if "chain_next h a = Some x" for x
      using that n dj c by (cases vs) auto
    ultimately have "dseg ?nx ?pv None (C ! j) None" by (intro dseg_unlink_other [OF linkedD(3) [OF l j]])
    then show ?thesis using False linkedD(2) [OF l j] by simp
  qed
  then show "linked (h\<lparr>chain_next := ?nx, chain_prev := ?pv\<rparr>) (bs[i := b']) (C[i := us @ vs])"
    using linkedD(1) [OF l] by (simp add: linked_def)
qed

lemma concat_drop_mset:
  assumes "i < length C" "C ! i = us @ a # vs"
  shows "add_mset a (mset (concat (C[i := us @ vs]))) = mset (concat C)"
  using concat_update [OF assms(1), of id "us @ vs"] concat_split [OF assms(1), of id] assms(2) by simp

lemma del_in_bkt_ptr_unlinks:
  assumes t: "table_of h = Some t" and l: "linked h (ptr_buckets t) C" and i: "i < length C"
    and d: "distinct (concat C)" "set (concat C) \<subseteq> live h" and c: "C ! i = us @ a # vs"
  shows "\<exists>bs nx pv. del_in_bkt_ptr i a h =
      Some (h\<lparr>tbl := Some (t\<lparr>ptr_buckets := bs\<rparr>), chain_next := nx, chain_prev := pv\<rparr>) \<and>
    linked (h\<lparr>chain_next := nx, chain_prev := pv\<rparr>) bs (C[i := us @ vs]) \<and>
    map ptr_count bs = (map ptr_count (ptr_buckets t))[i := ptr_count (ptr_buckets t ! i) - 1] \<and>
    map ptr_mult bs = map ptr_mult (ptr_buckets t)"
proof -
  let ?b = "ptr_buckets t ! i"
  let ?b' = "?b\<lparr>ptr_count := ptr_count ?b - 1, hh_head := (if hh_head ?b = Some a then chain_next h a else hh_head ?b)\<rparr>"
  have "hh_head ?b' = (if hh_head ?b = Some a then chain_next h a else hh_head ?b)" by simp
  note ul = unlink_linked [OF l i d(1) c this]
  have cs: "set (C ! i) \<subseteq> live h" using concat_nth_subset [OF i] d(2) by blast
  have "may_follow (chain_prev h a) h" "may_follow (chain_next h a) h"
    using cs c last_in_set [of us] by (auto simp: ul(2,3) may_follow_def last_of_def) (cases vs; simp)
  then have "del_in_bkt_ptr i a h = Some (h\<lparr>tbl := Some (t\<lparr>ptr_buckets := (ptr_buckets t)[i := ?b']\<rparr>),
      chain_next := set_at (chain_prev h a) (chain_next h a) (chain_next h),
      chain_prev := set_at (chain_next h a) (chain_prev h a) (chain_prev h)\<rparr>)"
    using t i linkedD(1) [OF l] by (simp add: del_in_bkt_ptr_def nth_bucket_def Let_def)
  moreover have "map ptr_count ((ptr_buckets t)[i := ?b']) = (map ptr_count (ptr_buckets t))[i := ptr_count ?b - 1]"
    by (simp add: map_update)
  moreover have "map ptr_mult ((ptr_buckets t)[i := ?b']) = map ptr_mult (ptr_buckets t)"
    using map_update [of ptr_mult "ptr_buckets t" i ?b'] i linkedD(1) [OF l] by (simp add: list_update_same_conv)
  ultimately show ?thesis using ul(1) by blast
qed

text \<open>The first half of a deletion that leaves something: the tail, the list in application order and the head.\<close>

definition unlink_app :: "addr \<Rightarrow> ptr_table \<Rightarrow> 'v uheap \<Rightarrow> 'v uheap" where
  "unlink_app a t h = h\<lparr>tbl := Some (t\<lparr>ptr_tail := (if ptr_tail t = Some a then app_prev h a else ptr_tail t)\<rparr>),
     app_next := set_at (app_prev h a) (app_next h a) (app_next h),
     app_prev := set_at (app_next h a) (app_prev h a) (app_prev h),
     labels_head := (if app_prev h a = None then app_next h a else labels_head h)\<rparr>"

lemma unlink_app_same:
  "live (unlink_app a t h) = live h" "cell (unlink_app a t h) = cell h"
  "linked (unlink_app a t h) bs C = linked h bs C"
  by (simp_all add: unlink_app_def linked_def)

lemma unlink_app_unlinks:
  assumes m: "in_memory h (xs @ a # ys) C" and t: "tbl h = Some t" and ne: "xs @ ys \<noteq> []"
  defines "h1 \<equiv> unlink_app a t h"
  obtains t1 where "tbl h1 = Some t1" "table_of h1 = Some t1" "ptr_tail t1 = Some (last (xs @ ys))"
    "ptr_buckets t1 = ptr_buckets t" "ptr_num_buckets t1 = ptr_num_buckets t"
    "ptr_log2 t1 = ptr_log2 t" "ptr_num_items t1 = ptr_num_items t"
    "labels_head h1 = first_of (xs @ ys) None" "dseg (app_next h1) (app_prev h1) None (xs @ ys) None"
    "may_follow (app_prev h a) h" "may_follow (app_next h a) h" "\<not> (app_prev h a = None \<and> app_next h a = None)"
proof -
  note d = in_memoryD(2) [OF m] and live = in_memoryD(1) [OF m, symmetric]
  note u = dseg_unlink [OF in_memoryD(3) [OF m] d]
  let ?t1 = "t\<lparr>ptr_tail := (if ptr_tail t = Some a then app_prev h a else ptr_tail t)\<rparr>"
  have pn: "app_prev h a = None \<longleftrightarrow> xs = []" "app_next h a = None \<longleftrightarrow> ys = []"
    using u(2,3) by (cases xs; simp add: last_of_def) (cases ys; simp add: u(3))
  have hd1: "labels_head h1 = first_of (xs @ ys) None"
    using in_memoryD(4) [OF m] unfolding h1_def unlink_app_def
    by (cases "xs = []") (simp_all add: pn(1) u(3) first_of_nonempty)
  have "hd (xs @ ys) \<in> live h" using hd_in_set [OF ne] by (auto simp: live)
  then have "table_of h1 = Some ?t1"
    using hd1 ne by (simp add: table_of_def allocated_def first_of_nonempty del: first_of_append)
      (simp add: h1_def unlink_app_def)
  moreover have "ptr_tail ?t1 = Some (last (xs @ ys))"
    using in_memoryD(9) [OF m t] ne d u(2) by (cases "ys = []") (auto simp: last_of_def)
  moreover have "dseg (app_next h1) (app_prev h1) None (xs @ ys) None"
    using u(1) by (simp add: h1_def unlink_app_def)
  moreover have "may_follow (app_prev h a) h" "may_follow (app_next h a) h"
    using last_in_set [of xs] by (auto simp: u(2,3) may_follow_def last_of_def live) (cases ys; simp add: live)
  ultimately show thesis using hd1 pn ne by (intro that [of ?t1]) (simp_all add: h1_def unlink_app_def)
qed

text \<open>Deleting and freeing any handle leaves a table of the others; its chain and the two counts lose it.\<close>

definition removed_from :: "addr \<Rightarrow> 'v uheap \<Rightarrow> addr list list \<Rightarrow> 'v uheap \<Rightarrow> addr list list \<Rightarrow> bool" where
  "removed_from a h C h' C' \<longleftrightarrow> cell h' = cell h \<and> (case tbl h' of None \<Rightarrow> True
     | Some t' \<Rightarrow> \<exists>t i us vs. tbl h = Some t \<and> i < length C \<and> C ! i = us @ a # vs \<and> C' = C[i := us @ vs] \<and>
         ptr_num_buckets t' = ptr_num_buckets t \<and> ptr_log2 t' = ptr_log2 t \<and>
         ptr_num_items t' = ptr_num_items t - 1 \<and>
         map ptr_mult (ptr_buckets t') = map ptr_mult (ptr_buckets t) \<and>
         map ptr_count (ptr_buckets t') = (map ptr_count (ptr_buckets t))[i := ptr_count (ptr_buckets t ! i) - 1])"

lemma delete_ptr_deletes:
  assumes m: "in_memory h (xs @ a # ys) C" and hm: "homed h C"
  shows "\<exists>h1 h2 C'. delete_ptr a h = Some h1 \<and> free_ptr a h1 = Some h2 \<and> in_memory h2 (xs @ ys) C' \<and>
    homed h2 C' \<and> removed_from a h C h2 C'"
proof -
  obtain t where t: "tbl h = Some t" using in_memoryD(8) [OF m] by auto
  have l: "linked h (ptr_buckets t) C" using in_memoryD(9) [OF m t] by simp
  have tof: "table_of h = Some t" by (rule in_memory_head(3) [OF m t])
  note d = in_memoryD(2) [OF m] and live = in_memoryD(1) [OF m, symmetric]
  have al: "a \<in> live h" by (simp add: live)
  show ?thesis
  proof (cases "xs @ ys = []")
    case True
    let ?h1 = "h\<lparr>tbl := None, labels_head := None\<rparr>"
    have "app_prev h a = None" "app_next h a = None" using in_memoryD(3) [OF m] True by simp_all
    then have "delete_ptr a h = Some ?h1" using al tof by (simp add: delete_ptr_def allocated_def)
    moreover have "free_ptr a ?h1 = Some (?h1\<lparr>live := {}\<rparr>)" using al live True by (simp add: free_ptr_def)
    moreover have "in_memory (?h1\<lparr>live := {}\<rparr>) (xs @ ys) []" using True by (simp add: in_memory_def)
    moreover have "homed (?h1\<lparr>live := {}\<rparr>) []" "removed_from a h C (?h1\<lparr>live := {}\<rparr>) []"
      by (simp_all add: homed_def removed_from_def)
    ultimately show ?thesis by blast
  next
    case False
    let ?h1 = "unlink_app a t h"
    obtain t1 where t1: "tbl ?h1 = Some t1" "table_of ?h1 = Some t1" "ptr_tail t1 = Some (last (xs @ ys))"
      "ptr_buckets t1 = ptr_buckets t" "ptr_num_buckets t1 = ptr_num_buckets t"
      "ptr_log2 t1 = ptr_log2 t" "ptr_num_items t1 = ptr_num_items t"
      "labels_head ?h1 = first_of (xs @ ys) None" "dseg (app_next ?h1) (app_prev ?h1) None (xs @ ys) None"
      "may_follow (app_prev h a) h" "may_follow (app_next h a) h" "\<not> (app_prev h a = None \<and> app_next h a = None)"
      by (rule unlink_app_unlinks [OF m t False]) blast
    have "a \<in> set (concat C)" using in_memoryD(7) [OF m] al by simp
    then obtain i where i: "i < length C" "a \<in> set (C ! i)" by (auto simp: in_set_conv_nth) (metis nth_mem in_set_conv_nth)
    then obtain us vs where c: "C ! i = us @ a # vs" by (meson split_list)
    have hi: "unat (HASH_TO_BKT (hashv (cell h a)) (ptr_num_buckets t)) = i" using hm t i by (simp add: homed_def)
    have sub: "set (concat C) \<subseteq> live ?h1" using in_memoryD(7) [OF m] by (simp add: unlink_app_same)
    have "linked ?h1 (ptr_buckets t1) C" using l t1(4) by (simp add: unlink_app_same)
    from del_in_bkt_ptr_unlinks [OF t1(2) this i(1) in_memoryD(6) [OF m] sub c] obtain bs nx pv where
      db: "del_in_bkt_ptr i a ?h1 = Some (?h1\<lparr>tbl := Some (t1\<lparr>ptr_buckets := bs\<rparr>), chain_next := nx, chain_prev := pv\<rparr>)"
        "linked (?h1\<lparr>chain_next := nx, chain_prev := pv\<rparr>) bs (C[i := us @ vs])"
        "map ptr_count bs = (map ptr_count (ptr_buckets t1))[i := ptr_count (ptr_buckets t1 ! i) - 1]"
        "map ptr_mult bs = map ptr_mult (ptr_buckets t1)" by blast
    let ?t2 = "t1\<lparr>ptr_buckets := bs, ptr_num_items := ptr_num_items t1 - 1\<rparr>"
    let ?h3 = "?h1\<lparr>tbl := Some ?t2, chain_next := nx, chain_prev := pv\<rparr>"
    have "table_of (?h1\<lparr>tbl := Some (t1\<lparr>ptr_buckets := bs\<rparr>), chain_next := nx, chain_prev := pv\<rparr>) =
        Some (t1\<lparr>ptr_buckets := bs\<rparr>)"
      using t1(2) by (auto simp: table_of_def allocated_def split: option.splits if_splits)
    then have "delete_ptr a h = Some ?h3"
      using al tof t1(2,5,10-12) hi db(1)
      by (simp add: delete_ptr_def allocated_def Let_def unlink_app_same flip: unlink_app_def) auto
    moreover have "free_ptr a ?h3 = Some (?h3\<lparr>live := live h - {a}\<rparr>)"
      using al by (simp add: free_ptr_def unlink_app_same)
    moreover have "in_memory (?h3\<lparr>live := live h - {a}\<rparr>) (xs @ ys) (C[i := us @ vs])"
    proof -
      have "mset (concat (C[i := us @ vs])) = mset (xs @ ys)"
        using concat_drop_mset [OF i(1) c] in_memoryD(5) [OF m] by simp
      then show ?thesis
        using False t1(3,8,9) db(2) d by (auto simp: in_memory_def live linked_def)
    qed
    moreover have "homed (?h3\<lparr>live := live h - {a}\<rparr>) (C[i := us @ vs])"
      using hm t t1(5) i(1) c by (auto simp: homed_def nth_list_update unlink_app_same)
    moreover have "removed_from a h C (?h3\<lparr>live := live h - {a}\<rparr>) (C[i := us @ vs])"
      unfolding removed_from_def using t i(1) c db(3,4) t1(4-7) by (simp add: unlink_app_same) blast
    ultimately show ?thesis by blast
  qed
qed

subsection \<open>The clean-up\<close>

lemma free_labels_frees:
  "in_memory h ord C \<Longrightarrow> homed h C \<Longrightarrow>
     \<exists>h'. free_labels (first_of ord None) (first_of (tl ord) None) h = Some h' \<and> in_memory h' [] []"
proof (induction ord arbitrary: h C)
  case Nil
  then have "in_memory h [] []" by (simp add: in_memory_def split: option.splits)
  then show ?case by (subst free_labels.simps) simp
next
  case (Cons a ord)
  from delete_ptr_deletes [of h "[]" a ord C] Cons.prems obtain h1 h2 C' where
    r: "delete_ptr a h = Some h1" "free_ptr a h1 = Some h2" "in_memory h2 ord C'" "homed h2 C'" by auto
  have "iter_next (first_of ord None) h2 = Some (first_of (tl ord) None)"
    using in_memoryD(1,3) [OF r(3)] by (cases ord) (auto simp: iter_next_def)
  then show ?case
    using Cons.IH [OF r(3,4)] r(1,2) by (subst free_labels.simps) simp
qed

lemma clean_up_frees:
  assumes "in_memory h ord C" "homed h C"
  shows "\<exists>h'. clean_up h = Some h' \<and> live h' = {} \<and> tbl h' = None \<and> labels_head h' = None"
proof -
  have "iter_next (labels_head h) h = Some (first_of (tl ord) None)"
    using in_memoryD(1,3,4) [OF assms(1)] by (cases ord) (auto simp: iter_next_def)
  moreover obtain h' where h': "free_labels (first_of ord None) (first_of (tl ord) None) h = Some h'" "in_memory h' [] []"
    using free_labels_frees [OF assms] by blast
  moreover have "live h' = {}" "tbl h' = None" "labels_head h' = None"
    using in_memoryD(1,4,8) [OF h'(2)] by simp_all
  ultimately show ?thesis using in_memoryD(4) [OF assms(1)] by (simp add: clean_up_def)
qed

subsection \<open>The assembler's labels\<close>

lemma no_labels_in_memory: "in_memory (no_labels v) [] []" "abs_head (no_labels v) [] = None"
  by (simp_all add: in_memory_def no_labels_def abs_head_def)

text \<open>
  C10. The label table in memory: for a program of at most 188 labels of at most 63 characters, the
  insertions of the first pass never touch memory outside the table and its entries, whatever
  addresses the allocator returns; every look-up then finds the last line of its label or nothing;
  and the clean-up frees every entry and the table, touching nothing already freed.
\<close>

theorem labels_in_memory:
  assumes "\<And>L. finite L \<Longrightarrow> malloc L \<notin> L" and "labels_fit (asm_lines src)"
  shows "\<exists>h h'. puts_ptr malloc (bindings 0 (asm_lines src)) (no_labels v) = Some h \<and>
    (\<forall>key. get_ptr h key = Some (label_map (asm_lines src) key)) \<and>
    clean_up h = Some h' \<and> live h' = {} \<and> tbl h' = None \<and> labels_head h' = None"
proof -
  let ?kvs = "bindings 0 (asm_lines src)"
  have fit: "length ?kvs \<le> 188" "\<forall>(k, v)\<in>set ?kvs. length k \<le> 63" using assms(2) by (simp_all add: labels_fit_def)
  have t0: "table_holds (abs_head (no_labels v) []) 0" by (simp add: no_labels_in_memory(2) empty_table(1))
  obtain h ord C n where p: "puts_ptr malloc ?kvs (no_labels v) = Some h" "in_memory h ord C"
    "table_holds (abs_head h C) n" "abs_head h C = fold (\<lambda>(k, v) t. put t k v) ?kvs None"
    using puts_ptr_puts [OF assms(1) no_labels_in_memory(1) t0 _ fit(2)] fit(1)
    unfolding no_labels_in_memory(2) by (metis add_0)
  have ok: "head_ok (abs_head h C)" using p(3) by (simp add: table_holds_def)
  have "get (abs_head h C) = label_map (asm_lines src)"
    unfolding p(4) puts_are_map [OF fit] by (simp add: label_map_def)
  then have "get_ptr h key = Some (label_map (asm_lines src) key)" for key
    using get_ptr_gets [OF p(2) ok, of key] find_is_map [OF ok, of key] by (simp add: get_def fun_eq_iff)
  then show ?thesis using p(1) clean_up_frees [OF p(2) homed_table [OF p(2) ok]] by blast
qed

definition lowest_malloc :: "addr set \<Rightarrow> addr" where
  "lowest_malloc L = Suc (Max (insert 0 L))"

lemma lowest_malloc_fresh: "finite L \<Longrightarrow> lowest_malloc L \<notin> L"
proof
  assume "finite L" "lowest_malloc L \<in> L"
  then have "lowest_malloc L \<le> Max (insert 0 L)" by (intro Max_ge) simp_all
  then show False by (simp only: lowest_malloc_def Suc_n_not_le_n)
qed

theorem labels_in_memory_witness:
  "\<exists>h h'. puts_ptr lowest_malloc (bindings 0 (asm_lines demo_src)) (no_labels 0) = Some h \<and>
    (\<forall>key. get_ptr h key = Some (label_map (asm_lines demo_src) key)) \<and>
    clean_up h = Some h' \<and> live h' = {} \<and> tbl h' = None \<and> labels_head h' = None"
  by (rule labels_in_memory [OF lowest_malloc_fresh demo_fits])

end
