(* ===== verification/Uthash_Check.thy ===== *)
theory Uthash_Check
  imports Label_Memory
begin

text \<open>
  The integrity check of uthash (\<open>HASH_FSCK\<close> of \<open>userspace/inc/uthash.h\<close>), which a build with
  \<open>HASH_DEBUG\<close> runs after every addition and deletion: what it accepts, that it accepts the tables of
  \<open>Label_Memory\<close>, and that deletions keep the counters right and the other keys findable.
\<close>

subsection \<open>The macro\<close>

text \<open>The messages after which \<open>HASH_OOPS\<close> exits.\<close>

datatype fsck_oops = Invalid_hh_prev | Invalid_bucket_count | Invalid_hh_item_count | Invalid_prev | Invalid_app_item_count

partial_function (option) fsck_chain ::
    "'v uheap \<Rightarrow> addr option \<Rightarrow> addr option \<Rightarrow> u32 \<Rightarrow> (fsck_oops + u32) option" where
  "fsck_chain h prev thh n =
    (case thh of
       None \<Rightarrow> Some (Inr n)
     | Some a \<Rightarrow>
         (if a \<notin> live h then None
          else if prev \<noteq> chain_prev h a then Some (Inl Invalid_hh_prev)
          else fsck_chain h (Some a) (chain_next h a) (n + 1)))"

fun fsck_buckets :: "'v uheap \<Rightarrow> ptr_table \<Rightarrow> nat list \<Rightarrow> u32 \<Rightarrow> (fsck_oops + u32) option" where
  "fsck_buckets h t [] n = Some (Inr n)"
| "fsck_buckets h t (i # js) n =
    do { b \<leftarrow> nth_bucket (ptr_buckets t) i;
         r \<leftarrow> fsck_chain h None (hh_head b) 0;
         case r of
           Inl e \<Rightarrow> Some (Inl e)
         | Inr m \<Rightarrow> if ptr_count b \<noteq> m then Some (Inl Invalid_bucket_count) else fsck_buckets h t js (n + m) }"

partial_function (option) fsck_app ::
    "'v uheap \<Rightarrow> addr option \<Rightarrow> addr option \<Rightarrow> u32 \<Rightarrow> (fsck_oops + u32) option" where
  "fsck_app h prev thh n =
    (case thh of
       None \<Rightarrow> Some (Inr n)
     | Some a \<Rightarrow>
         (if a \<notin> live h then None
          else if prev \<noteq> app_prev h a then Some (Inl Invalid_prev)
          else fsck_app h (Some a) (app_next h a) (n + 1)))"

definition HASH_FSCK :: "'v uheap \<Rightarrow> (fsck_oops + unit) option" where
  "HASH_FSCK h =
    (case labels_head h of
       None \<Rightarrow> Some (Inr ())
     | Some f \<Rightarrow>
         do { t \<leftarrow> table_of h;
              r \<leftarrow> fsck_buckets h t [0..<unat (ptr_num_buckets t)] 0;
              case r of
                Inl e \<Rightarrow> Some (Inl e)
              | Inr n \<Rightarrow>
                  if n \<noteq> ptr_num_items t then Some (Inl Invalid_hh_item_count)
                  else do { r' \<leftarrow> fsck_app h None (Some f) 0;
                            case r' of
                              Inl e \<Rightarrow> Some (Inl e)
                            | Inr m \<Rightarrow> Some (if m \<noteq> ptr_num_items t then Inl Invalid_app_item_count
                                             else Inr ()) } })"

text \<open>The number of items, as the table counts them.\<close>

definition HASH_CNT :: "'v uheap \<Rightarrow> u32 option" where
  "HASH_CNT h = (case labels_head h of None \<Rightarrow> Some 0 | Some f \<Rightarrow> do { t \<leftarrow> table_of h; Some (ptr_num_items t) })"

subsection \<open>What it accepts\<close>

text \<open>
  \<open>consistent h t ord C\<close>: from the head the forward pointers lead through \<open>ord\<close>, from the first bucket
  heads through the chains \<open>C\<close>, each pointer back agreeing, and the counters of the buckets and of the table
  are the lengths, up to the width of the counters.
\<close>

definition consistent :: "'v uheap \<Rightarrow> ptr_table \<Rightarrow> addr list \<Rightarrow> addr list list \<Rightarrow> bool" where
  "consistent h t ord C \<longleftrightarrow> labels_head h = first_of ord None \<and> set ord \<subseteq> live h \<and>
     dseg (app_next h) (app_prev h) None ord None \<and> ptr_num_items t = of_nat (length ord) \<and>
     length C = unat (ptr_num_buckets t) \<and> length C \<le> length (ptr_buckets t) \<and>
     linked h (take (length C) (ptr_buckets t)) C \<and> set (concat C) \<subseteq> live h \<and>
     (\<forall>i<length C. ptr_count (ptr_buckets t ! i) = of_nat (length (C ! i))) \<and>
     ptr_num_items t = of_nat (length (concat C))"

lemma fsck_chain_accepts:
  "dseg (chain_next h) (chain_prev h) p xs None \<Longrightarrow> set xs \<subseteq> live h \<Longrightarrow>
     fsck_chain h p (first_of xs None) n = Some (Inr (n + of_nat (length xs)))"
  by (induction xs arbitrary: p n; subst fsck_chain.simps) (simp_all add: add.assoc)

lemma fsck_app_accepts:
  "dseg (app_next h) (app_prev h) p xs None \<Longrightarrow> set xs \<subseteq> live h \<Longrightarrow>
     fsck_app h p (first_of xs None) n = Some (Inr (n + of_nat (length xs)))"
  by (induction xs arbitrary: p n; subst fsck_app.simps) (simp_all add: add.assoc)

lemma fsck_chain_sound:
  assumes "fsck_chain h p thh n = Some r" "r = Inr m"
  shows "\<exists>xs. first_of xs None = thh \<and> dseg (chain_next h) (chain_prev h) p xs None \<and> set xs \<subseteq> live h \<and>
    m = n + of_nat (length xs)"
proof -
  have "\<forall>m. r = Inr m \<longrightarrow> (\<exists>xs. first_of xs None = thh \<and> dseg (chain_next h) (chain_prev h) p xs None \<and>
      set xs \<subseteq> live h \<and> m = n + of_nat (length xs))"
  proof (rule fsck_chain.raw_induct [OF _ assms(1)], intro allI impI)
    fix walk h p thh n r m
    assume IH: "\<And>h p thh n r. walk h p thh n = Some r \<Longrightarrow> \<forall>m. r = Inr m \<longrightarrow> (\<exists>xs. first_of xs None = thh \<and>
        dseg (chain_next h) (chain_prev h) p xs None \<and> set xs \<subseteq> live h \<and> m = n + of_nat (length xs))"
      and step: "(case thh of None \<Rightarrow> Some (Inr n) | Some a \<Rightarrow> if a \<notin> live h then None
          else if p \<noteq> chain_prev h a then Some (Inl Invalid_hh_prev) else walk h (Some a) (chain_next h a) (n + 1)) = Some r"
      and r: "r = Inr m"
    show "\<exists>xs. first_of xs None = thh \<and> dseg (chain_next h) (chain_prev h) p xs None \<and> set xs \<subseteq> live h \<and>
        m = n + of_nat (length xs)"
    proof (cases thh)
      case None
      then show ?thesis using step r by (intro exI [of _ "[]"]) simp
    next
      case (Some a)
      then have w: "a \<in> live h" "p = chain_prev h a" "walk h (Some a) (chain_next h a) (n + 1) = Some r"
        using step r by (auto split: if_splits)
      from IH [OF w(3)] r obtain xs where "first_of xs None = chain_next h a"
        "dseg (chain_next h) (chain_prev h) (Some a) xs None" "set xs \<subseteq> live h" "m = n + 1 + of_nat (length xs)"
        by blast
      then show ?thesis using w(1,2) Some by (intro exI [of _ "a # xs"]) (simp add: add.assoc)
    qed
  qed
  then show ?thesis using assms(2) by blast
qed

lemma fsck_app_sound:
  assumes "fsck_app h p thh n = Some r" "r = Inr m"
  shows "\<exists>xs. first_of xs None = thh \<and> dseg (app_next h) (app_prev h) p xs None \<and> set xs \<subseteq> live h \<and>
    m = n + of_nat (length xs)"
proof -
  have "\<forall>m. r = Inr m \<longrightarrow> (\<exists>xs. first_of xs None = thh \<and> dseg (app_next h) (app_prev h) p xs None \<and>
      set xs \<subseteq> live h \<and> m = n + of_nat (length xs))"
  proof (rule fsck_app.raw_induct [OF _ assms(1)], intro allI impI)
    fix walk h p thh n r m
    assume IH: "\<And>h p thh n r. walk h p thh n = Some r \<Longrightarrow> \<forall>m. r = Inr m \<longrightarrow> (\<exists>xs. first_of xs None = thh \<and>
        dseg (app_next h) (app_prev h) p xs None \<and> set xs \<subseteq> live h \<and> m = n + of_nat (length xs))"
      and step: "(case thh of None \<Rightarrow> Some (Inr n) | Some a \<Rightarrow> if a \<notin> live h then None
          else if p \<noteq> app_prev h a then Some (Inl Invalid_prev) else walk h (Some a) (app_next h a) (n + 1)) = Some r"
      and r: "r = Inr m"
    show "\<exists>xs. first_of xs None = thh \<and> dseg (app_next h) (app_prev h) p xs None \<and> set xs \<subseteq> live h \<and>
        m = n + of_nat (length xs)"
    proof (cases thh)
      case None
      then show ?thesis using step r by (intro exI [of _ "[]"]) simp
    next
      case (Some a)
      then have w: "a \<in> live h" "p = app_prev h a" "walk h (Some a) (app_next h a) (n + 1) = Some r"
        using step r by (auto split: if_splits)
      from IH [OF w(3)] r obtain xs where "first_of xs None = app_next h a"
        "dseg (app_next h) (app_prev h) (Some a) xs None" "set xs \<subseteq> live h" "m = n + 1 + of_nat (length xs)"
        by blast
      then show ?thesis using w(1,2) Some by (intro exI [of _ "a # xs"]) (simp add: add.assoc)
    qed
  qed
  then show ?thesis using assms(2) by blast
qed

text \<open>The buckets, by their indices.\<close>

definition chain_at :: "'v uheap \<Rightarrow> ptr_table \<Rightarrow> nat \<Rightarrow> addr list \<Rightarrow> bool" where
  "chain_at h t i c \<longleftrightarrow> i < length (ptr_buckets t) \<and> hh_head (ptr_buckets t ! i) = first_of c None \<and>
     dseg (chain_next h) (chain_prev h) None c None \<and> set c \<subseteq> live h \<and> ptr_count (ptr_buckets t ! i) = of_nat (length c)"

lemma fsck_buckets_iff:
  "fsck_buckets h t js n = Some (Inr m) \<longleftrightarrow>
     (\<exists>C. list_all2 (chain_at h t) js C \<and> m = n + of_nat (length (concat C)))"
proof (induction js arbitrary: n)
  case (Cons i js)
  show ?case
  proof
    assume *: "fsck_buckets h t (i # js) n = Some (Inr m)"
    then obtain c where c: "i < length (ptr_buckets t)" "fsck_chain h None (hh_head (ptr_buckets t ! i)) 0 = Some (Inr c)"
      "ptr_count (ptr_buckets t ! i) = c" "fsck_buckets h t js (n + c) = Some (Inr m)"
      by (auto simp: nth_bucket_def split: if_splits bind_splits sum.splits)
    obtain xs where "first_of xs None = hh_head (ptr_buckets t ! i)" "dseg (chain_next h) (chain_prev h) None xs None"
      "set xs \<subseteq> live h" "c = of_nat (length xs)"
      using fsck_chain_sound [OF c(2) refl] by auto
    then have "chain_at h t i xs" "c = of_nat (length xs)" using c(1,3) by (simp_all add: chain_at_def)
    moreover obtain C where "list_all2 (chain_at h t) js C" "m = n + c + of_nat (length (concat C))"
      using Cons.IH [of "n + c"] c(4) by blast
    ultimately show "\<exists>C. list_all2 (chain_at h t) (i # js) C \<and> m = n + of_nat (length (concat C))"
      by (intro exI [of _ "xs # C"]) (simp add: add.assoc)
  next
    assume "\<exists>C. list_all2 (chain_at h t) (i # js) C \<and> m = n + of_nat (length (concat C))"
    then obtain c C where c: "chain_at h t i c" "list_all2 (chain_at h t) js C" "m = n + of_nat (length c) + of_nat (length (concat C))"
      by (auto simp: list_all2_Cons1 add.assoc)
    have "fsck_chain h None (hh_head (ptr_buckets t ! i)) 0 = Some (Inr (of_nat (length c)))"
      using fsck_chain_accepts [of h None c 0] c(1) by (simp add: chain_at_def)
    moreover have "fsck_buckets h t js (n + of_nat (length c)) = Some (Inr m)"
      using Cons.IH [of "n + of_nat (length c)"] c(2,3) by blast
    ultimately show "fsck_buckets h t (i # js) n = Some (Inr m)"
      using c(1) by (simp add: chain_at_def nth_bucket_def)
  qed
qed auto

lemma chains_at:
  "list_all2 (chain_at h t) [0..<k] C \<longleftrightarrow> length C = k \<and> length C \<le> length (ptr_buckets t) \<and>
     linked h (take (length C) (ptr_buckets t)) C \<and> set (concat C) \<subseteq> live h \<and>
     (\<forall>i<length C. ptr_count (ptr_buckets t ! i) = of_nat (length (C ! i)))"
proof (cases "length C = k")
  case True
  have l: "(\<forall>i<k. i < length (ptr_buckets t)) \<longleftrightarrow> k \<le> length (ptr_buckets t)" by presburger
  have s: "set (concat C) \<subseteq> live h \<longleftrightarrow> (\<forall>i<k. set (C ! i) \<subseteq> live h)"
    using True by (simp add: UN_subset_iff all_set_conv_all_nth)
  have lk: "linked h (take k (ptr_buckets t)) C \<longleftrightarrow> k \<le> length (ptr_buckets t) \<and>
     (\<forall>i<k. hh_head (ptr_buckets t ! i) = first_of (C ! i) None \<and> dseg (chain_next h) (chain_prev h) None (C ! i) None)"
    unfolding linked_def True by (cases "k \<le> length (ptr_buckets t)") simp_all
  have "list_all2 (chain_at h t) [0..<k] C \<longleftrightarrow> (\<forall>i<k. chain_at h t i (C ! i))"
    using True by (simp add: list_all2_conv_all_nth)
  also have "\<dots> \<longleftrightarrow> linked h (take k (ptr_buckets t)) C \<and> set (concat C) \<subseteq> live h \<and>
     (\<forall>i<k. ptr_count (ptr_buckets t ! i) = of_nat (length (C ! i)))"
    unfolding s lk l [symmetric] chain_at_def by blast
  finally show ?thesis using True lk by auto
next
  case False
  then show ?thesis by (auto dest: list_all2_lengthD)
qed

lemma fsck_app_iff:
  "fsck_app h None thh 0 = Some (Inr m) \<longleftrightarrow>
     (\<exists>xs. first_of xs None = thh \<and> dseg (app_next h) (app_prev h) None xs None \<and> set xs \<subseteq> live h \<and> m = of_nat (length xs))"
  (is "?l \<longleftrightarrow> ?r")
proof
  show "?l \<Longrightarrow> ?r" using fsck_app_sound [OF _ refl, of h None thh 0 m] by simp
  assume ?r
  then obtain xs where "first_of xs None = thh" "dseg (app_next h) (app_prev h) None xs None" "set xs \<subseteq> live h" "m = of_nat (length xs)"
    by blast
  then show ?l using fsck_app_accepts [of h None xs 0] by simp
qed

text \<open>
  The check accepts exactly the consistent memories: no table at all, or one whose list in application order
  and bucket chains are linked both ways through allocated entries and end, with the right counters.
\<close>

lemma HASH_FSCK_accepts:
  "HASH_FSCK h = Some (Inr ()) \<longleftrightarrow>
     labels_head h = None \<or> (\<exists>t ord C. table_of h = Some t \<and> consistent h t ord C)"
proof (cases "labels_head h")
  case None
  then show ?thesis by (simp add: HASH_FSCK_def)
next
  case (Some f)
  have "HASH_FSCK h = Some (Inr ()) \<longleftrightarrow> (\<exists>t. table_of h = Some t \<and>
      fsck_buckets h t [0..<unat (ptr_num_buckets t)] 0 = Some (Inr (ptr_num_items t)) \<and>
      fsck_app h None (Some f) 0 = Some (Inr (ptr_num_items t)))"
    using Some by (auto simp: HASH_FSCK_def split: bind_splits sum.splits if_splits)
  also have "\<dots> \<longleftrightarrow> (\<exists>t. table_of h = Some t \<and> (\<exists>ord C. consistent h t ord C))"
    unfolding fsck_buckets_iff chains_at fsck_app_iff consistent_def Some add_0
    by (intro arg_cong [where f = Ex] ext conj_cong refl iffI; elim conjE exE; intro exI conjI; assumption?) simp_all
  finally show ?thesis using Some by simp
qed

subsection \<open>The counters\<close>

definition counts_ok :: "'v uheap \<Rightarrow> addr list list \<Rightarrow> bool" where
  "counts_ok h C \<longleftrightarrow> (case tbl h of None \<Rightarrow> True
     | Some t \<Rightarrow> length C = unat (ptr_num_buckets t) \<and> ptr_num_items t = of_nat (length (concat C)) \<and>
         (\<forall>i<length C. ptr_count (ptr_buckets t ! i) = of_nat (length (C ! i))))"

text \<open>A table in memory with the right counters passes the check.\<close>

lemma check_passes:
  assumes m: "in_memory h ord C" and c: "counts_ok h C"
  shows "HASH_FSCK h = Some (Inr ())"
proof (cases "tbl h")
  case None
  then show ?thesis using in_memoryD(4,8) [OF m] by (simp add: HASH_FSCK_def)
next
  case (Some t)
  have l: "linked h (ptr_buckets t) C" using in_memoryD(9) [OF m Some] by simp
  have "length (concat C) = length ord" using in_memoryD(5) [OF m] by (metis size_mset)
  then have "consistent h t ord C"
    using c Some in_memoryD(1,3,4,7) [OF m] linkedD(1) [OF l] l
    by (simp add: counts_ok_def consistent_def del: length_concat)
  then show ?thesis using in_memory_head(3) [OF m Some] HASH_FSCK_accepts [of h] by blast
qed

lemma count_counts:
  assumes m: "in_memory h ord C" and c: "counts_ok h C"
  shows "HASH_CNT h = Some (of_nat (card (live h)))"
proof -
  have card: "card (live h) = length ord" "length (concat C) = length ord"
    using in_memoryD(1,2,5) [OF m] by (metis distinct_card, metis size_mset)
  show ?thesis
  proof (cases "tbl h")
    case None
    then show ?thesis using in_memoryD(4,8) [OF m] card by (simp add: HASH_CNT_def)
  next
    case (Some t)
    then show ?thesis
      using in_memory_head [OF m Some] c card by (simp add: HASH_CNT_def counts_ok_def del: length_concat)
  qed
qed

lemma of_nat_of_unat: "unat (w :: u32) = n \<Longrightarrow> w = of_nat n"
  by auto

text \<open>The tables that additions build have the right counters.\<close>

lemma grown_counts:
  assumes l: "length (ptr_buckets t) = length C" and g: "grown (abs_table h t C) n" "table_ok (abs_table h t C)"
  shows "length C = unat (ptr_num_buckets t)" "ptr_num_items t = of_nat (length (concat C))"
    "i < length C \<Longrightarrow> ptr_count (ptr_buckets t ! i) = of_nat (length (C ! i))" "length (concat C) < 2 ^ 32"
    "length (concat C) \<le> n"
proof -
  have n: "unat (ptr_num_items t) = length (concat C)"
    using grownD(2) [OF g(1)] concat_abs_buckets [OF l, of h] by (simp add: all_items_def flip: length_concat)
  then show "ptr_num_items t = of_nat (length (concat C))" by (rule of_nat_of_unat)
  show "length (concat C) < 2 ^ 32" unfolding n [symmetric] by (rule order_less_le_trans [OF unsigned_less]) simp
  show "length (concat C) \<le> n"
    using grownD(1) [OF g(1)] concat_abs_buckets [OF l, of h] by (simp add: all_items_def flip: length_concat)
  show "length C = unat (ptr_num_buckets t)"
    using table_okD(1) [OF g(2)] l by (simp add: placed_def abs_buckets_length)
  obtain k where k: "counted (abs_buckets h (ptr_buckets t) C) k n" using grownD(5) [OF g(1)] by auto
  show "ptr_count (ptr_buckets t ! i) = of_nat (length (C ! i))" if "i < length C"
    using countedD(1) [OF k, of i] that l
    by (intro of_nat_of_unat) (simp add: abs_buckets_length abs_buckets_nth abs_bucket_def)
qed

lemma table_holds_counts:
  assumes m: "in_memory h ord C" and t: "table_holds (abs_head h C) n"
  shows "counts_ok h C" "length ord < 2 ^ 32"
proof -
  have "counts_ok h C \<and> length ord < 2 ^ 32"
  proof (cases "tbl h")
    case None
    then show ?thesis using in_memoryD(8) [OF m] by (simp add: counts_ok_def)
  next
    case (Some s)
    have g: "grown (abs_table h s C) n" "table_ok (abs_table h s C)"
      using t Some by (simp_all add: abs_head_def table_holds_def head_ok_def)
    have "length (concat C) = length ord" using in_memoryD(5) [OF m] by (metis size_mset)
    then show ?thesis
      using grown_counts [OF home_bound(2) [OF m Some] g] Some by (simp add: counts_ok_def del: length_concat)
  qed
  then show "counts_ok h C" "length ord < 2 ^ 32" by simp_all
qed

lemma of_nat_pred: "n = Suc m \<Longrightarrow> (of_nat n :: u32) - 1 = of_nat m"
  by simp

lemma removed_counts:
  assumes m: "in_memory h (xs @ a # ys) C" and m2: "in_memory h2 (xs @ ys) C2"
    and r: "removed_from a h C h2 C2" and c: "counts_ok h C"
  shows "counts_ok h2 C2"
proof (cases "tbl h2")
  case None
  then show ?thesis by (simp add: counts_ok_def)
next
  case (Some t2)
  then obtain t i us vs where t: "tbl h = Some t" and i: "i < length C" "C ! i = us @ a # vs" "C2 = C[i := us @ vs]"
    and t2: "ptr_num_buckets t2 = ptr_num_buckets t" "ptr_num_items t2 = ptr_num_items t - 1"
    and cn: "map ptr_count (ptr_buckets t2) = (map ptr_count (ptr_buckets t))[i := ptr_count (ptr_buckets t ! i) - 1]"
    using r by (auto simp: removed_from_def)
  have c': "length C = unat (ptr_num_buckets t)" "ptr_num_items t = of_nat (length (concat C))"
    "\<And>j. j < length C \<Longrightarrow> ptr_count (ptr_buckets t ! j) = of_nat (length (C ! j))"
    using c t by (simp_all add: counts_ok_def del: length_concat)
  have l: "length (ptr_buckets t) = length C" "length (ptr_buckets t2) = length C"
    using home_bound(2) [OF m t] home_bound(2) [OF m2 Some] i(3) by simp_all
  have "length (concat C) = Suc (length (concat C2))"
    using in_memoryD(5) [OF m] in_memoryD(5) [OF m2] by (metis size_mset length_append length_Cons add_Suc_right)
  then have "ptr_num_items t2 = of_nat (length (concat C2))"
    using of_nat_pred t2(2) c'(2) by metis
  moreover have "ptr_count (ptr_buckets t2 ! j) = of_nat (length (C2 ! j))" if j: "j < length C" for j
  proof -
    have "ptr_count (ptr_buckets t2 ! j) = (map ptr_count (ptr_buckets t2)) ! j" using j l(2) by simp
    also have "\<dots> = of_nat (length (C2 ! j))"
      unfolding cn using j l(1) i c'(3) [OF j] by (cases "j = i") simp_all
    finally show ?thesis .
  qed
  ultimately show ?thesis using Some c'(1) i(3) t2(1) by (simp add: counts_ok_def del: length_concat)
qed

subsection \<open>The map without the deleted keys\<close>

lemma map_of_cells:
  assumes m: "in_memory h ord C"
  shows "table_map (abs_head h C) = map_of (map (\<lambda>x. pair_of (cell h x)) (concat C))"
proof (cases "tbl h")
  case None
  then have "concat C = []" using in_memoryD(5,8) [OF m] by simp
  then show ?thesis using None by (simp add: abs_head_def table_map_def)
next
  case (Some t)
  then show ?thesis
    using concat_abs_buckets [OF home_bound(2) [OF m Some], of h]
    by (simp add: abs_head_def table_map_def all_items_def o_def)
qed

definition distinct_keys :: "'v uheap \<Rightarrow> addr set \<Rightarrow> bool" where
  "distinct_keys h A \<longleftrightarrow> inj_on (\<lambda>x. hh_key (cell h x)) A"

lemma keys_distinct:
  assumes m: "in_memory h ord C" and ok: "head_ok (abs_head h C)"
  shows "distinct_keys h (live h)"
proof (cases "tbl h")
  case None
  then show ?thesis using in_memoryD(1,8) [OF m] by (simp add: distinct_keys_def)
next
  case (Some t)
  then have "distinct (map hh_key (map (cell h) (concat C)))"
    using ok concat_abs_buckets [OF home_bound(2) [OF m Some], of h] table_okD(4)
    by (fastforce simp: head_ok_def abs_head_def all_items_def)
  then show ?thesis
    using in_memoryD(7) [OF m] by (simp add: distinct_keys_def distinct_map o_def)
qed

lemma map_of_cell:
  assumes "inj_on (\<lambda>x. hh_key (c x)) (set xs)"
  shows "map_of (map (\<lambda>x. pair_of (c x)) xs) k = Some v \<longleftrightarrow> (\<exists>x\<in>set xs. hh_key (c x) = k \<and> item_value (c x) = v)"
  using assms
proof (induction xs)
  case (Cons y xs)
  then have "inj_on (\<lambda>x. hh_key (c x)) (set xs)" by (simp add: inj_on_insert)
  moreover have "\<forall>x\<in>set xs. hh_key (c x) = hh_key (c y) \<longrightarrow> c x = c y"
    using Cons.prems by (metis inj_onD list.set_intros)
  ultimately show ?case using Cons.IH by auto
qed simp

lemma removed_map:
  assumes m: "in_memory h (xs @ a # ys) C" and m2: "in_memory h2 (xs @ ys) C2"
    and r: "removed_from a h C h2 C2" and ok: "head_ok (abs_head h C)"
  shows "table_map (abs_head h2 C2) = (table_map (abs_head h C))(hh_key (cell h a) := None)"
proof -
  have d: "distinct_keys h (live h)" by (rule keys_distinct [OF m ok])
  have cell: "cell h2 = cell h" using r by (simp add: removed_from_def)
  have s: "set (concat C) = insert a (set (concat C2))" "a \<notin> set (concat C2)"
    using in_memoryD(1,2,7) [OF m] in_memoryD(1,7) [OF m2] by auto
  have i: "inj_on (\<lambda>x. hh_key (cell h x)) (set (concat C))" using d in_memoryD(7) [OF m] by (simp add: distinct_keys_def)
  have i2: "inj_on (\<lambda>x. hh_key (cell h x)) (set (concat C2))" using inj_on_subset [OF i] s(1) by blast
  have na: "hh_key (cell h x) \<noteq> hh_key (cell h a)" if "x \<in> set (concat C2)" for x
    using inj_onD [OF i, of x a] s that by auto
  have e: "table_map (abs_head h2 C2) k = Some v \<longleftrightarrow> ((table_map (abs_head h C))(hh_key (cell h a) := None)) k = Some v" for k v
    unfolding map_of_cells [OF m] map_of_cells [OF m2] cell fun_upd_apply
    using map_of_cell [OF i, of k v] map_of_cell [OF i2, of k v] s(1) na by (auto simp del: set_concat)
  show ?thesis
  proof
    fix k
    show "table_map (abs_head h2 C2) k = ((table_map (abs_head h C))(hh_key (cell h a) := None)) k"
      using e [of k] by (metis not_None_eq)
  qed
qed

lemma removed_ok:
  assumes m: "in_memory h (xs @ a # ys) C" and m2: "in_memory h2 (xs @ ys) C2"
    and r: "removed_from a h C h2 C2" and ok: "head_ok (abs_head h C)"
  shows "head_ok (abs_head h2 C2)"
proof (cases "tbl h2")
  case None
  then show ?thesis by (simp add: head_ok_def abs_head_def)
next
  case (Some t2)
  then obtain t i us vs where t: "tbl h = Some t" and i: "i < length C" "C ! i = us @ a # vs" "C2 = C[i := us @ vs]"
    and t2: "ptr_num_buckets t2 = ptr_num_buckets t" "ptr_log2 t2 = ptr_log2 t" and cell: "cell h2 = cell h"
    using r by (auto simp: removed_from_def)
  have l: "length (ptr_buckets t) = length C" "length (ptr_buckets t2) = length C2"
    using home_bound(2) [OF m t] home_bound(2) [OF m2 Some] by simp_all
  have o: "table_ok (abs_table h t C)" using ok t by (simp add: head_ok_def abs_head_def)
  note p = table_okD(1) [OF o, unfolded abs_table_simps]
  have sub: "set (C2 ! j) \<subseteq> set (C ! j)" if "j < length C" for j
    using that i by (cases "j = i") auto
  have "placed (abs_buckets h2 (ptr_buckets t2) C2) (ptr_num_buckets t2)"
    unfolding placed_def abs_buckets_length [OF l(2)] t2(1)
  proof (intro conjI allI impI ballI)
    show "length C2 = unat (ptr_num_buckets t)" using p l(1) i(3) by (simp add: placed_def abs_buckets_length)
    fix j e assume j: "j < length C2" and "e \<in> set (hh_chain (abs_buckets h2 (ptr_buckets t2) C2 ! j))"
    then have "e \<in> set (hh_chain (abs_buckets h (ptr_buckets t) C ! j))"
      using sub [of j] i(3) l by (auto simp: abs_buckets_nth abs_bucket_def cell)
    then have "hashv e = HASH_JEN (hh_key e) \<and> unat (HASH_TO_BKT (hashv e) (ptr_num_buckets t)) = j"
      using j i(3) l(1) by (intro placedD [OF p]) (simp_all add: abs_buckets_length)
    then show "hashv e = HASH_JEN (hh_key e)" "unat (HASH_TO_BKT (hashv e) (ptr_num_buckets t)) = j" by blast+
  qed
  moreover have "distinct (map hh_key (all_items (abs_table h2 t2 C2)))"
  proof -
    have "set (concat C2) \<subseteq> live h"
      unfolding in_memoryD(7) [OF m2] in_memoryD(1) [OF m2, symmetric] in_memoryD(1) [OF m, symmetric] by auto
    then have "inj_on (\<lambda>x. hh_key (cell h x)) (set (concat C2))"
      using keys_distinct [OF m ok] unfolding distinct_keys_def by (rule inj_on_subset [rotated])
    then show ?thesis
      using in_memoryD(6) [OF m2] by (simp add: all_items_def concat_abs_buckets [OF l(2)] distinct_map o_def cell)
  qed
  ultimately have "table_ok (abs_table h2 t2 C2)"
    using table_okD(2,3) [OF o] t2 by (simp add: table_ok_def)
  then show ?thesis using Some by (simp add: head_ok_def abs_head_def)
qed

lemma find_cell:
  assumes m: "in_memory h ord C" and ok: "head_ok (abs_head h C)" and f: "find_ptr h key = Some p"
  shows "p = None \<Longrightarrow> table_map (abs_head h C) key = None"
    "p = Some a \<Longrightarrow> a \<in> live h \<and> hh_key (cell h a) = key"
    "p = Some a \<Longrightarrow> table_map (abs_head h C) key \<noteq> None"
proof -
  have q: "map_option (cell h) p = HASH_FIND_STR (abs_head h C) key"
    using find_ptr_finds(2) [OF m ok, of key] f by simp
  show "table_map (abs_head h C) key = None" if "p = None"
    using find_is_map [OF ok, of key] q that by simp
  assume a: "p = Some a"
  show "table_map (abs_head h C) key \<noteq> None" using find_is_map [OF ok, of key] unfolding q [symmetric] a by (simp, metis option.distinct(1))
  have "find_ptr h key = Some (case tbl h of None \<Rightarrow> None | Some t \<Rightarrow> find (\<lambda>a. is_match key (cell h a)) (C ! home t key))"
    by (rule find_ptr_finds(1) [OF m ok])
  then obtain t where t: "tbl h = Some t" "find (\<lambda>a. is_match key (cell h a)) (C ! home t key) = Some a"
    using f a by (auto split: option.splits)
  have "a \<in> set (concat C)"
    using find_in_set [OF t(2)] concat_nth_subset [OF home_bound(1) [OF m t(1) ok, of key]] by blast
  then show "a \<in> live h \<and> hh_key (cell h a) = key"
    using t(2) in_memoryD(7) [OF m] by (auto simp: find_Some_iff)
qed

lemma table_holds_mono: "table_holds head n \<Longrightarrow> n \<le> n' \<Longrightarrow> table_holds head n'"
  unfolding table_holds_def grown_def by (cases head) (auto, meson counted_mono le_refl le_trans)

subsection \<open>Deletions and the growth of the table\<close>

lemma unat_minus1: "unat (w :: u32) = Suc n \<Longrightarrow> unat (w - 1) = n"
  by (metis unat_minus_one unat_eq_zero nat.simps(3) diff_Suc_1)

lemma expand_mults:
  assumes "length (ptr_buckets t) = length C" "i < length C"
  shows "expand_mult (abs_buckets h (ptr_buckets t) C ! i) = ptr_mult (ptr_buckets t ! i)"
  using assms by (simp add: abs_buckets_nth abs_bucket_def)

lemma removed_holds:
  assumes m: "in_memory h (xs @ a # ys) C" and m2: "in_memory h2 (xs @ ys) C2"
    and r: "removed_from a h C h2 C2" and t: "table_holds (abs_head h C) n"
  shows "table_holds (abs_head h2 C2) n"
proof (cases "tbl h2")
  case None
  then show ?thesis by (simp add: table_holds_def head_ok_def abs_head_def)
next
  case (Some t2)
  have ok: "head_ok (abs_head h C)" using t by (simp add: table_holds_def)
  obtain t1 i us vs where t1: "tbl h = Some t1" and i: "i < length C" "C ! i = us @ a # vs" "C2 = C[i := us @ vs]"
    and t2: "ptr_num_buckets t2 = ptr_num_buckets t1" "ptr_log2 t2 = ptr_log2 t1" "ptr_num_items t2 = ptr_num_items t1 - 1"
    and cn: "map ptr_count (ptr_buckets t2) = (map ptr_count (ptr_buckets t1))[i := ptr_count (ptr_buckets t1 ! i) - 1]"
    and mu: "map ptr_mult (ptr_buckets t2) = map ptr_mult (ptr_buckets t1)"
    using Some r by (auto simp: removed_from_def)
  have l: "length (ptr_buckets t1) = length C" "length (ptr_buckets t2) = length C2" "length C2 = length C"
    using home_bound(2) [OF m t1] home_bound(2) [OF m2 Some] i(3) by simp_all
  have g: "grown (abs_table h t1 C) n" using t t1 by (simp add: abs_head_def table_holds_def)
  obtain s where s: "counted (abs_buckets h (ptr_buckets t1) C) s n" "7 * (unat (ptr_log2 t1) - 5) + s \<le> n"
    using grownD(5) [OF g] by auto
  have items: "length (concat C) \<le> n" "unat (ptr_num_items t1) = length (concat C)"
    using grownD(1,2) [OF g] concat_abs_buckets [OF l(1), of h] by (simp_all add: all_items_def flip: length_concat)
  have lc: "length (concat C) = Suc (length (concat C2))"
    using in_memoryD(5) [OF m] in_memoryD(5) [OF m2] by (metis size_mset length_append length_Cons add_Suc_right)
  have "counted (abs_buckets h2 (ptr_buckets t2) C2) s n"
    unfolding counted_def
  proof
    fix b assume "b \<in> set (abs_buckets h2 (ptr_buckets t2) C2)"
    then obtain j where j: "j < length C" "b = abs_bucket h2 (ptr_buckets t2 ! j) (C2 ! j)"
      using l(2,3) by (auto simp: in_set_conv_nth abs_buckets_length abs_buckets_nth)
    let ?b = "ptr_buckets t1 ! j"
    have "j < length (abs_buckets h (ptr_buckets t1) C)" using j l(1) by (simp add: abs_buckets_length)
    note c = countedD [OF s(1) this]
    have c': "unat (ptr_count ?b) = length (C ! j)" "unat (ptr_mult ?b) \<le> n" "length (C ! j) \<le> n"
      "length (C ! j) \<le> 3 * (unat (ptr_mult ?b) + 1) + s"
      using c j(1) l(1) by (simp_all add: abs_buckets_nth abs_bucket_def)
    have mj: "ptr_mult (ptr_buckets t2 ! j) = ptr_mult ?b"
      using arg_cong [OF mu, of "\<lambda>xs. xs ! j"] j(1) l by simp
    have cj: "ptr_count (ptr_buckets t2 ! j) = (if j = i then ptr_count ?b - 1 else ptr_count ?b)"
      using arg_cong [OF cn, of "\<lambda>xs. xs ! j"] j(1) l by (cases "j = i") simp_all
    have "unat (ptr_count (ptr_buckets t2 ! j)) = length (C2 ! j)" "length (C2 ! j) \<le> length (C ! j)"
      using cj c'(1) i j(1) unat_minus1 [of "ptr_count ?b" "length us + length vs"] by (cases "j = i"; simp)+
    then show "unat (bkt_count b) = length (hh_chain b) \<and> unat (expand_mult b) \<le> n \<and> length (hh_chain b) \<le> n \<and>
        length (hh_chain b) \<le> 3 * (unat (expand_mult b) + 1) + s"
      using c' mj by (simp add: j(2) abs_bucket_def)
  qed
  moreover have "unat (ptr_num_items t2) = length (concat C2)" "length (concat C2) \<le> n"
    using unat_minus1 [of "ptr_num_items t1"] items lc t2(3) by simp_all
  ultimately have "grown (abs_table h2 t2 C2) n"
    using grownD(3,4) [OF g] s(2) t2(1,2)
    by (auto simp: grown_def all_items_def concat_abs_buckets [OF l(2)] simp del: length_concat)
  then show ?thesis
    using Some removed_ok [OF m m2 r ok] by (simp add: table_holds_def abs_head_def)
qed

end
