(* ===== verification/Uthash_Sort.thy ===== *)
theory Uthash_Sort
  imports Merge_Runs Uthash_Check
begin

text \<open>
  Sorting the list in application order (\<open>HASH_SRT\<close> of \<open>userspace/inc/uthash.h\<close>): a merge sort that
  merges neighbouring runs in passes, doubling the length of the runs, by redirecting the pointers of the
  list.  The bucket chains are left alone.  As in \<open>Uthash_Heap\<close>, \<open>None\<close> is an access to memory that is not
  allocated; handles and elements are the same addresses here, since every element has one handle.
\<close>

subsection \<open>The macro\<close>

text \<open>Following \<open>next\<close> from a pointer that must not be null.\<close>

definition follow_next :: "addr option \<Rightarrow> 'v uheap \<Rightarrow> addr option option" where
  "follow_next p h = do { a \<leftarrow> allocated p h; Some (app_next h a) }"

text \<open>The loop that counts off a first run of at most \<open>i\<close> elements: the run behind it and its length.\<close>

fun count_run :: "nat \<Rightarrow> addr option \<Rightarrow> u32 \<Rightarrow> 'v uheap \<Rightarrow> (addr option \<times> u32) option" where
  "count_run 0 q psize h = Some (q, psize)"
| "count_run (Suc i) q psize h =
    do { q' \<leftarrow> follow_next q h;
         if q' = None then Some (None, psize + 1) else count_run i q' (psize + 1) h }"

record merge_st =
  run_p :: "addr option"
  psize :: u32
  run_q :: "addr option"
  qsize :: u32
  out_list :: "addr option"
  out_tail :: "addr option"

text \<open>The element taken next, and the runs without it.\<close>

definition take_p :: "merge_st \<Rightarrow> 'v uheap \<Rightarrow> (addr option \<times> merge_st) option" where
  "take_p s h = do { p' \<leftarrow> iter_next (run_p s) h; Some (run_p s, s\<lparr>run_p := p', psize := psize s - 1\<rparr>) }"

definition take_q :: "merge_st \<Rightarrow> 'v uheap \<Rightarrow> (addr option \<times> merge_st) option" where
  "take_q s h = do { q' \<leftarrow> follow_next (run_q s) h; Some (run_q s, s\<lparr>run_q := q', qsize := qsize s - 1\<rparr>) }"

definition take_next ::
    "('v item \<Rightarrow> 'v item \<Rightarrow> int) \<Rightarrow> merge_st \<Rightarrow> 'v uheap \<Rightarrow> (addr option \<times> merge_st) option" where
  "take_next cmpfcn s h =
    (if psize s = 0 then take_q s h
     else if qsize s = 0 \<or> run_q s = None then take_p s h
     else do { a \<leftarrow> allocated (run_p s) h; b \<leftarrow> allocated (run_q s) h;
               if cmpfcn (cell h a) (cell h b) \<le> 0 then take_p s h else take_q s h })"

text \<open>The element goes behind the tail of the output, which is overwritten as it grows.\<close>

definition link_out :: "addr option \<Rightarrow> merge_st \<Rightarrow> 'v uheap \<Rightarrow> (merge_st \<times> 'v uheap) option" where
  "link_out e s h =
    (if may_follow (out_tail s) h \<and> may_follow e h
     then Some (s\<lparr>out_list := (if out_tail s = None then e else out_list s), out_tail := e\<rparr>,
                h\<lparr>app_next := set_at (out_tail s) e (app_next h), app_prev := set_at e (out_tail s) (app_prev h)\<rparr>)
     else None)"

partial_function (option) merge_loop ::
    "('v item \<Rightarrow> 'v item \<Rightarrow> int) \<Rightarrow> merge_st \<Rightarrow> 'v uheap \<Rightarrow> (merge_st \<times> 'v uheap) option" where
  "merge_loop cmpfcn s h =
    (if psize s \<noteq> 0 \<or> qsize s \<noteq> 0 \<and> run_q s \<noteq> None
     then do { (e, s1) \<leftarrow> take_next cmpfcn s h;
               (s2, h2) \<leftarrow> link_out e s1 h;
               merge_loop cmpfcn s2 h2 }
     else Some (s, h))"

text \<open>One pass, from the run \<open>p\<close> on; \<open>nmerges\<close> counts the merges.\<close>

partial_function (option) pass_loop ::
    "('v item \<Rightarrow> 'v item \<Rightarrow> int) \<Rightarrow> u32 \<Rightarrow> addr option \<Rightarrow> u32 \<Rightarrow> addr option \<Rightarrow> addr option \<Rightarrow> 'v uheap \<Rightarrow>
     (u32 \<times> addr option \<times> addr option \<times> 'v uheap) option" where
  "pass_loop cmpfcn insize p nmerges list tail h =
    (if p = None then Some (nmerges, list, tail, h)
     else do { (q, ps) \<leftarrow> count_run (unat insize) p 0 h;
               (s, h1) \<leftarrow> merge_loop cmpfcn \<lparr>run_p = p, psize = ps, run_q = q, qsize = insize,
                                          out_list = list, out_tail = tail\<rparr> h;
               pass_loop cmpfcn insize (run_q s) (nmerges + 1) (out_list s) (out_tail s) h1 })"

partial_function (option) sort_loop ::
    "('v item \<Rightarrow> 'v item \<Rightarrow> int) \<Rightarrow> u32 \<Rightarrow> addr option \<Rightarrow> 'v uheap \<Rightarrow> 'v uheap option" where
  "sort_loop cmpfcn insize list h =
    do { (nmerges, list', tail, h1) \<leftarrow> pass_loop cmpfcn insize list 0 None None h;
         h2 \<leftarrow> (if may_follow tail h1 then Some (h1\<lparr>app_next := set_at tail None (app_next h1)\<rparr>) else None);
         if nmerges \<le> 1
         then do { t \<leftarrow> table_of h2; Some (h2\<lparr>tbl := Some (t\<lparr>ptr_tail := tail\<rparr>), labels_head := list'\<rparr>) }
         else sort_loop cmpfcn (insize * 2) list' h2 }"

definition HASH_SRT :: "('v item \<Rightarrow> 'v item \<Rightarrow> int) \<Rightarrow> 'v uheap \<Rightarrow> 'v uheap option" where
  "HASH_SRT cmpfcn h = (if labels_head h = None then Some h else sort_loop cmpfcn 1 (labels_head h) h)"

subsection \<open>The merge of two runs\<close>

text \<open>What sorting changes of the memory: only the list in application order.\<close>

definition same_but_order :: "'v uheap \<Rightarrow> 'v uheap \<Rightarrow> bool" where
  "same_but_order h h' \<longleftrightarrow> live h' = live h \<and> cell h' = cell h \<and> chain_next h' = chain_next h \<and>
     chain_prev h' = chain_prev h \<and> tbl h' = tbl h \<and> labels_head h' = labels_head h"

lemma same_but_order_refl [simp]: "same_but_order h h"
  by (simp add: same_but_order_def)

lemma same_but_order_trans: "same_but_order h h1 \<Longrightarrow> same_but_order h1 h2 \<Longrightarrow> same_but_order h h2"
  by (simp add: same_but_order_def)

text \<open>Following the forward pointers of \<open>xs\<close> leads to \<open>q\<close>.\<close>

fun nseg :: "(addr \<Rightarrow> addr option) \<Rightarrow> addr list \<Rightarrow> addr option \<Rightarrow> bool" where
  "nseg nx [] q = True"
| "nseg nx (x # xs) q = (nx x = first_of xs q \<and> nseg nx xs q)"

lemma nseg_path: "nseg nx xs None = path nx xs"
  by (induction xs) simp_all

lemma nseg_append: "nseg nx (xs @ ys) q \<longleftrightarrow> nseg nx xs (first_of ys q) \<and> nseg nx ys q"
  by (induction xs) auto

lemma nseg_frame: "(\<And>x. x \<in> set xs \<Longrightarrow> nx' x = nx x) \<Longrightarrow> nseg nx' xs q = nseg nx xs q"
  by (induction xs) simp_all

text \<open>
  The state of a merge: \<open>D\<close> is the output so far (the pointer out of its last element is still the old
  one), \<open>xs\<close> and \<open>ys\<close> what is left of the two runs, \<open>R\<close> what follows.
\<close>

definition merging :: "merge_st \<Rightarrow> 'v uheap \<Rightarrow> addr list \<Rightarrow> addr list \<Rightarrow> addr list \<Rightarrow> addr list \<Rightarrow> bool" where
  "merging s h D xs ys R \<longleftrightarrow>
     distinct (D @ xs @ ys @ R) \<and> set (D @ xs @ ys @ R) \<subseteq> live h \<and>
     unat (psize s) = length xs \<and> (xs \<noteq> [] \<longrightarrow> run_p s = Some (hd xs)) \<and> (\<exists>z. nseg (app_next h) xs z) \<and>
     run_q s = first_of (ys @ R) None \<and> path (app_next h) (ys @ R) \<and>
     length ys \<le> unat (qsize s) \<and> (unat (qsize s) = length ys \<or> R = []) \<and>
     out_list s = first_of D None \<and> out_tail s = last_of None D \<and>
     (\<exists>z. dseg (app_next h) (app_prev h) None D z)"

lemma out_extend:
  assumes "dseg nx pv None D z" "distinct (D @ [e])"
  shows "dseg (set_at (last_of None D) (Some e) nx) (pv(e := last_of None D)) None (D @ [e])
    (set_at (last_of None D) (Some e) nx e)"
proof (cases "D = []")
  case False
  have "dseg (nx(last D := Some e)) pv None D (Some e)"
    using assms False by (intro dseg_set_last) auto
  then have "dseg (nx(last D := Some e)) (pv(e := last_of None D)) None D (Some e)"
    using assms(2) by (subst dseg_frame) auto
  then show ?thesis using False by (simp add: dseg_append last_of_nonempty)
qed simp

lemma last_of_notin: "distinct (D @ xs) \<Longrightarrow> last_of None D = Some a \<Longrightarrow> a \<notin> set xs"
  using last_in_set [of D] by (auto simp: last_of_def disjoint_iff split: if_splits)

lemma set_at_last_frame:
  assumes "distinct (D @ xs)" "x \<in> set xs"
  shows "set_at (last_of None D) v f x = f x"
  using last_of_notin [OF assms(1)] assms(2) by (intro set_at_other) auto

text \<open>Linking an element that has been taken.\<close>

lemma link_out_links:
  assumes D: "dseg (app_next h) (app_prev h) None D z" "out_list s = first_of D None" "out_tail s = last_of None D"
    and d: "distinct (D @ e # xs)" "set (D @ e # xs) \<subseteq> live h"
  shows "\<exists>s' h'. link_out (Some e) s h = Some (s', h') \<and> same_but_order h h' \<and>
    s' = s\<lparr>out_list := first_of (D @ [e]) None, out_tail := last_of None (D @ [e])\<rparr> \<and>
    (\<exists>z. dseg (app_next h') (app_prev h') None (D @ [e]) z) \<and> (\<forall>x\<in>set xs. app_next h' x = app_next h x)"
proof -
  let ?t = "last_of None D"
  let ?h = "h\<lparr>app_next := set_at ?t (Some e) (app_next h), app_prev := (app_prev h)(e := ?t)\<rparr>"
  have "may_follow ?t h" using d(2) last_in_set [of D] by (auto simp: may_follow_def last_of_def)
  then have "link_out (Some e) s h = Some (s\<lparr>out_list := first_of (D @ [e]) None, out_tail := last_of None (D @ [e])\<rparr>, ?h)"
    using d(2) D(2,3) by (cases "D = []") (auto simp: link_out_def may_follow_def last_of_nonempty first_of_nonempty)
  moreover have "dseg (app_next ?h) (app_prev ?h) None (D @ [e]) (app_next ?h e)"
    using out_extend [OF D(1), of e] d(1) by simp
  moreover have "app_next ?h x = app_next h x" if "x \<in> set xs" for x
    using set_at_last_frame [of D "e # xs" x] d(1) that by simp
  moreover have "same_but_order h ?h" by (simp add: same_but_order_def)
  ultimately show ?thesis by blast
qed

lemma mergingD:
  assumes "merging s h D xs ys R"
  shows "distinct (D @ xs @ ys @ R)" "set (D @ xs @ ys @ R) \<subseteq> live h" "unat (psize s) = length xs"
    "xs \<noteq> [] \<Longrightarrow> run_p s = Some (hd xs)" "\<exists>z. nseg (app_next h) xs z"
    "run_q s = first_of (ys @ R) None" "path (app_next h) (ys @ R)" "length ys \<le> unat (qsize s)"
    "unat (qsize s) = length ys \<or> R = []" "out_list s = first_of D None" "out_tail s = last_of None D"
    "\<exists>z. dseg (app_next h) (app_prev h) None D z"
  using assms unfolding merging_def by blast+

lemma unat_pred: "unat (w :: u32) = Suc n \<Longrightarrow> unat (w - 1) = n"
  by (metis unat_minus_one unat_eq_zero nat.simps(3) diff_Suc_1)

lemma merging_p:
  assumes m: "merging s h D (x # xs) ys R"
  shows "\<exists>s1 s2 h2. take_p s h = Some (Some x, s1) \<and> link_out (Some x) s1 h = Some (s2, h2) \<and>
    same_but_order h h2 \<and> merging s2 h2 (D @ [x]) xs ys R"
proof -
  note md = mergingD [OF m]
  obtain z where z: "app_next h x = first_of xs z" "nseg (app_next h) xs z" using md(5) by auto
  let ?s1 = "s\<lparr>run_p := first_of xs z, psize := psize s - 1\<rparr>"
  have t: "take_p s h = Some (Some x, ?s1)"
    using md(2,4) z(1) by (simp add: take_p_def iter_next_def)
  obtain w where w: "dseg (app_next h) (app_prev h) None D w" using md(12) by blast
  obtain s2 h2 where l: "link_out (Some x) ?s1 h = Some (s2, h2)" "same_but_order h h2"
    "s2 = ?s1\<lparr>out_list := first_of (D @ [x]) None, out_tail := last_of None (D @ [x])\<rparr>"
    "\<exists>z. dseg (app_next h2) (app_prev h2) None (D @ [x]) z"
    "\<forall>a\<in>set (xs @ ys @ R). app_next h2 a = app_next h a"
    using link_out_links [OF w, of ?s1 x "xs @ ys @ R"] md(1,2,10,11) by auto
  have "nseg (app_next h2) xs z" using z(2) l(5) by (subst nseg_frame) auto
  moreover have "path (app_next h2) (ys @ R)" using md(7) l(5) by (subst path_frame) auto
  moreover have "unat (psize s - 1) = length xs" using md(3) by (intro unat_pred) simp
  moreover have "live h2 = live h" using l(2) by (simp add: same_but_order_def)
  ultimately have "merging s2 h2 (D @ [x]) xs ys R"
    using md(1,2,6,8,9) l(3,4) by (auto simp: merging_def first_of_nonempty)
  then show ?thesis using t l(1,2) by blast
qed

lemma merging_q:
  assumes m: "merging s h D xs (y # ys) R"
  shows "\<exists>s1 s2 h2. take_q s h = Some (Some y, s1) \<and> link_out (Some y) s1 h = Some (s2, h2) \<and>
    same_but_order h h2 \<and> merging s2 h2 (D @ [y]) xs ys R"
proof -
  note md = mergingD [OF m]
  obtain z where z: "nseg (app_next h) xs z" using md(5) by auto
  have n: "app_next h y = first_of (ys @ R) None" "path (app_next h) (ys @ R)" using md(7) by simp_all
  let ?s1 = "s\<lparr>run_q := first_of (ys @ R) None, qsize := qsize s - 1\<rparr>"
  have t: "take_q s h = Some (Some y, ?s1)"
    using md(2,6) n(1) by (simp add: take_q_def follow_next_def allocated_def)
  obtain w where w: "dseg (app_next h) (app_prev h) None D w" using md(12) by blast
  have d: "distinct (D @ y # xs @ ys @ R)" "set (D @ y # xs @ ys @ R) \<subseteq> live h" using md(1,2) by auto
  obtain s2 h2 where l: "link_out (Some y) ?s1 h = Some (s2, h2)" "same_but_order h h2"
    "s2 = ?s1\<lparr>out_list := first_of (D @ [y]) None, out_tail := last_of None (D @ [y])\<rparr>"
    "\<exists>z. dseg (app_next h2) (app_prev h2) None (D @ [y]) z"
    "\<forall>a\<in>set (xs @ ys @ R). app_next h2 a = app_next h a"
    using link_out_links [OF w _ _ d, of ?s1] md(10,11) by auto
  have "nseg (app_next h2) xs z" using z l(5) by (subst nseg_frame) auto
  moreover have "path (app_next h2) (ys @ R)" using n(2) l(5) by (subst path_frame) auto
  moreover obtain m where m: "unat (qsize s) = Suc m" "length ys \<le> m" using md(8) by (cases "unat (qsize s)") auto
  then have "unat (qsize s - 1) = m" by (intro unat_pred)
  moreover have "live h2 = live h" using l(2) by (simp add: same_but_order_def)
  ultimately have "merging s2 h2 (D @ [y]) xs ys R"
    using md(1-4,9) m d l(3,4) by (auto simp: merging_def)
  then show ?thesis using t l(1,2) by blast
qed

text \<open>One turn of the loop, and the whole of it.\<close>

lemma merge_loop_p:
  assumes m: "merging s h D (x # xs) ys R" and le: "ys \<noteq> [] \<Longrightarrow> cmpfcn (cell h x) (cell h (hd ys)) \<le> 0"
  shows "\<exists>s2 h2. merge_loop cmpfcn s h = merge_loop cmpfcn s2 h2 \<and> same_but_order h h2 \<and>
    merging s2 h2 (D @ [x]) xs ys R"
proof -
  note md = mergingD [OF m]
  have c: "psize s \<noteq> 0" "run_p s = Some x" "x \<in> live h" using md(2,3,4) by (auto simp: unat_eq_0)
  obtain s1 s2 h2 where st: "take_p s h = Some (Some x, s1)" "link_out (Some x) s1 h = Some (s2, h2)"
    "same_but_order h h2" "merging s2 h2 (D @ [x]) xs ys R" using merging_p [OF m] by blast
  have "take_next cmpfcn s h = take_p s h"
  proof (cases ys)
    case Nil
    then have "qsize s = 0 \<or> run_q s = None" using md(6,9) by (auto simp: unat_eq_0)
    then show ?thesis using c(1) by (simp add: take_next_def)
  next
    case (Cons y zs)
    then have "run_q s = Some y" "y \<in> live h" using md(2,6) by auto
    then show ?thesis using c le Cons by (simp add: take_next_def allocated_def)
  qed
  then have "merge_loop cmpfcn s h = merge_loop cmpfcn s2 h2"
    using c(1) st(1,2) by (subst merge_loop.simps) simp
  then show ?thesis using st(3,4) by blast
qed

lemma merge_loop_q:
  assumes m: "merging s h D xs (y # ys) R" and gt: "xs \<noteq> [] \<Longrightarrow> \<not> cmpfcn (cell h (hd xs)) (cell h y) \<le> 0"
  shows "\<exists>s2 h2. merge_loop cmpfcn s h = merge_loop cmpfcn s2 h2 \<and> same_but_order h h2 \<and>
    merging s2 h2 (D @ [y]) xs ys R"
proof -
  note md = mergingD [OF m]
  have c: "qsize s \<noteq> 0" "run_q s = Some y" "y \<in> live h" using md(2,6,8) by (auto simp: unat_eq_0)
  obtain s1 s2 h2 where st: "take_q s h = Some (Some y, s1)" "link_out (Some y) s1 h = Some (s2, h2)"
    "same_but_order h h2" "merging s2 h2 (D @ [y]) xs ys R" using merging_q [OF m] by blast
  have "take_next cmpfcn s h = take_q s h"
  proof (cases xs)
    case Nil
    then show ?thesis using md(3) by (simp add: take_next_def unat_eq_0)
  next
    case (Cons x zs)
    then have "psize s \<noteq> 0" "run_p s = Some x" "x \<in> live h" using md(2,3,4) by (auto simp: unat_eq_0)
    then show ?thesis using c gt Cons by (simp add: take_next_def allocated_def)
  qed
  then have "merge_loop cmpfcn s h = merge_loop cmpfcn s2 h2"
    using c(1,2) st(1,2) by (subst merge_loop.simps) simp
  then show ?thesis using st(3,4) by blast
qed

lemma merge_runs_Nil2: "merge_runs key xs [] = xs"
  by (cases xs) simp_all

lemma merge_runs_step:
  assumes "xs \<noteq> [] \<or> ys \<noteq> []"
  obtains (p) x xs' where "xs = x # xs'" "ys \<noteq> [] \<longrightarrow> key x \<le> key (hd ys)"
      "merge_runs key xs ys = x # merge_runs key xs' ys"
    | (q) y ys' where "ys = y # ys'" "xs \<noteq> [] \<longrightarrow> \<not> key (hd xs) \<le> key y"
      "merge_runs key xs ys = y # merge_runs key xs ys'"
  using assms by (cases xs; cases ys; cases "key (hd xs) \<le> key (hd ys)") (auto simp: merge_runs_Nil2)

lemma merge_loop_merges:
  assumes cmp: "\<And>x y. cmpfcn x y \<le> 0 \<longleftrightarrow> key x \<le> key y" and "merging s h D xs ys R"
  shows "\<exists>s' h'. merge_loop cmpfcn s h = Some (s', h') \<and> same_but_order h h' \<and>
    merging s' h' (D @ merge_runs (\<lambda>a. key (cell h a)) xs ys) [] [] R"
  using assms(2)
proof (induction "length xs + length ys" arbitrary: xs ys s h D)
  case 0
  note md = mergingD [OF "0.prems"]
  have "psize s = 0" "qsize s = 0 \<or> run_q s = None" using 0 md(3,6,9) by (auto simp: unat_eq_0)
  then show ?case using 0 by (subst merge_loop.simps) auto
next
  case (Suc n)
  have on: "\<exists>s' h'. merge_loop cmpfcn s h = Some (s', h') \<and> same_but_order h h' \<and>
      merging s' h' (D @ merge_runs (\<lambda>a. key (cell h a)) xs ys) [] [] R"
    if st: "merge_loop cmpfcn s h = merge_loop cmpfcn s2 h2" "same_but_order h h2"
      "merging s2 h2 (D @ [e]) xs' ys' R" "n = length xs' + length ys'"
      "merge_runs (\<lambda>a. key (cell h a)) xs ys = e # merge_runs (\<lambda>a. key (cell h a)) xs' ys'"
    for s2 h2 e xs' ys'
  proof -
    have "cell h2 = cell h" using st(2) by (simp add: same_but_order_def)
    with Suc.hyps(1) [OF st(4,3)] obtain s' h' where i: "merge_loop cmpfcn s2 h2 = Some (s', h')" "same_but_order h2 h'"
      "merging s' h' ((D @ [e]) @ merge_runs (\<lambda>a. key (cell h a)) xs' ys') [] [] R" by auto
    show ?thesis using i(1,3) st(1,5) same_but_order_trans [OF st(2) i(2)] by auto
  qed
  have "xs \<noteq> [] \<or> ys \<noteq> []" using Suc.hyps(2) by auto
  then show ?case
  proof (cases rule: merge_runs_step [where key = "\<lambda>a. key (cell h a)"])
    case (p x xs')
    from merge_loop_p [of s h D x xs' ys R cmpfcn] Suc.prems p(1,2) cmp obtain s2 h2 where
      "merge_loop cmpfcn s h = merge_loop cmpfcn s2 h2" "same_but_order h h2" "merging s2 h2 (D @ [x]) xs' ys R" by auto
    then show ?thesis using Suc.hyps(2) p(1) by (intro on [OF _ _ _ _ p(3)]) simp_all
  next
    case (q y ys')
    from merge_loop_q [of s h D xs y ys' R cmpfcn] Suc.prems q(1,2) cmp obtain s2 h2 where
      "merge_loop cmpfcn s h = merge_loop cmpfcn s2 h2" "same_but_order h h2" "merging s2 h2 (D @ [y]) xs ys' R" by auto
    then show ?thesis using Suc.hyps(2) q(1) by (intro on [OF _ _ _ _ q(3)]) simp_all
  qed
qed

subsection \<open>A pass\<close>

lemma count_run_counts:
  "path (app_next h) xs \<Longrightarrow> set xs \<subseteq> live h \<Longrightarrow> xs \<noteq> [] \<Longrightarrow>
     count_run i (first_of xs None) ps h = Some (first_of (drop i xs) None, ps + of_nat (min i (length xs)))"
proof (induction i arbitrary: xs ps)
  case (Suc i)
  obtain x zs where xs: "xs = x # zs" using Suc.prems(3) by (cases xs) auto
  have n: "follow_next (Some x) h = Some (first_of zs None)"
    using Suc.prems(1,2) by (simp add: xs follow_next_def allocated_def)
  show ?case
  proof (cases zs)
    case Nil
    then show ?thesis using n by (simp add: xs)
  next
    case (Cons z ws)
    then show ?thesis using n Suc.IH [of zs "ps + 1"] Suc.prems by (simp add: xs min_def add.commute)
  qed
qed simp

lemma unat_of_nat_le: "m \<le> unat (w :: u32) \<Longrightarrow> unat (of_nat m :: u32) = m"
  by (metis le_unat_uoi)

lemma path_drop: "path nx xs \<Longrightarrow> path nx (drop n xs)"
  by (induction xs arbitrary: n) (auto simp: drop_Cons' split: if_splits)

lemma path_take: "path nx xs \<Longrightarrow> nseg nx (take n xs) (first_of (drop n xs) None)"
  by (metis append_take_drop_id nseg_append nseg_path)

lemma split_runs: "xs = take n xs @ take n (drop n xs) @ drop (2 * n) xs"
  by (metis append_take_drop_id drop_drop mult_2)

lemma merging_start:
  assumes "distinct (D @ xs)" "set (D @ xs) \<subseteq> live h" "path (app_next h) xs" "xs \<noteq> []"
    and "dseg (app_next h) (app_prev h) None D z" "n = unat insize" "n > 0"
  shows "merging \<lparr>run_p = first_of xs None, psize = of_nat (min n (length xs)), run_q = first_of (drop n xs) None,
      qsize = insize, out_list = first_of D None, out_tail = last_of None D\<rparr> h D
    (take n xs) (take n (drop n xs)) (drop (2 * n) xs)"
proof -
  have r: "take n (drop n xs) @ drop (2 * n) xs = drop n xs" by (metis append_take_drop_id drop_drop mult_2)
  have all: "D @ take n xs @ take n (drop n xs) @ drop (2 * n) xs = D @ xs" using split_runs [of xs n] by simp
  have "unat (of_nat (min n (length xs)) :: u32) = min n (length xs)"
    by (rule unat_of_nat_le [of _ insize]) (simp add: assms(6))
  moreover have "take n xs \<noteq> []" "hd (take n xs) = hd xs" using assms(4,7) by simp_all
  moreover have "unat insize = length (take n (drop n xs)) \<or> drop (2 * n) xs = []" using assms(6) by (auto simp: min_def)
  ultimately show ?thesis
    unfolding merging_def all r using assms(1-6) path_take [OF assms(3), of n] path_drop [OF assms(3), of n]
    by (auto simp: min.commute first_of_nonempty)
qed

lemma pass_loop_passes:
  assumes cmp: "\<And>x y. cmpfcn x y \<le> 0 \<longleftrightarrow> key x \<le> key y" and n: "n = unat insize" "n > 0"
    and "distinct (D @ xs)" "set (D @ xs) \<subseteq> live h" "path (app_next h) xs" "dseg (app_next h) (app_prev h) None D z"
  shows "\<exists>h' z'. pass_loop cmpfcn insize (first_of xs None) nm (first_of D None) (last_of None D) h =
      Some (nm + of_nat (merges n xs), first_of (D @ merge_pass (\<lambda>a. key (cell h a)) n xs) None,
        last_of None (D @ merge_pass (\<lambda>a. key (cell h a)) n xs), h') \<and> same_but_order h h' \<and>
    dseg (app_next h') (app_prev h') None (D @ merge_pass (\<lambda>a. key (cell h a)) n xs) z'"
  using n(1) assms(4-7)
proof (induction n xs arbitrary: h D nm z rule: merges.induct)
  case (1 n xs)
  show ?case
  proof (cases "xs = []")
    case True
    then show ?thesis
      using 1(6) by (subst pass_loop.simps) (auto simp: merge_pass.simps [of _ n "[]"] merges.simps [of n "[]"])
  next
    case False
    have n0: "n > 0" using 1(2) n by simp
    then have ne: "\<not> (xs = [] \<or> n = 0)" using False by simp
    let ?k = "\<lambda>a. key (cell h a)"
    let ?D = "D @ merge_runs ?k (take n xs) (take n (drop n xs))"
    let ?s = "\<lparr>run_p = first_of xs None, psize = of_nat (min n (length xs)), run_q = first_of (drop n xs) None,
      qsize = insize, out_list = first_of D None, out_tail = last_of None D\<rparr>"
    have c: "count_run (unat insize) (first_of xs None) 0 h = Some (first_of (drop n xs) None, of_nat (min n (length xs)))"
      using count_run_counts [OF 1(5) _ False, of n 0] 1(2,4) by simp
    obtain s' h1 where m: "merge_loop cmpfcn ?s h = Some (s', h1)" "same_but_order h h1" "merging s' h1 ?D [] [] (drop (2 * n) xs)"
      using merge_loop_merges [of cmpfcn key, OF cmp merging_start [OF 1(3,4,5) False 1(6,2) n0]] by blast
    note md = mergingD [OF m(3)]
    have k: "cell h1 = cell h" using m(2) by (simp add: same_but_order_def)
    obtain z1 where z1: "dseg (app_next h1) (app_prev h1) None ?D z1" using md(12) by blast
    have d: "distinct (?D @ drop (2 * n) xs)" "set (?D @ drop (2 * n) xs) \<subseteq> live h1" "path (app_next h1) (drop (2 * n) xs)"
      using md(1,2,7) by simp_all
    from 1(1) [OF ne 1(2) d z1, of "nm + 1"] obtain h' z' where
      i: "pass_loop cmpfcn insize (first_of (drop (2 * n) xs) None) (nm + 1) (first_of ?D None) (last_of None ?D) h1 =
        Some (nm + 1 + of_nat (merges n (drop (2 * n) xs)), first_of (?D @ merge_pass ?k n (drop (2 * n) xs)) None,
          last_of None (?D @ merge_pass ?k n (drop (2 * n) xs)), h')" "same_but_order h1 h'"
        "dseg (app_next h') (app_prev h') None (?D @ merge_pass ?k n (drop (2 * n) xs)) z'"
      unfolding k by blast
    have e: "?D @ merge_pass ?k n (drop (2 * n) xs) = D @ merge_pass ?k n xs" "merges n xs = Suc (merges n (drop (2 * n) xs))"
      using ne by (simp_all add: merge_pass.simps [of ?k n xs] merges.simps [of n xs])
    have "pass_loop cmpfcn insize (first_of xs None) nm (first_of D None) (last_of None D) h =
        pass_loop cmpfcn insize (run_q s') (nm + 1) (out_list s') (out_tail s') h1"
      using c m(1) False by (subst pass_loop.simps) (simp add: first_of_nonempty)
    also have "\<dots> = Some (nm + of_nat (merges n xs), first_of (D @ merge_pass ?k n xs) None,
          last_of None (D @ merge_pass ?k n xs), h')"
      using i(1) md(6,10,11) unfolding e by (simp add: add.assoc)
    finally show ?thesis using i(3) same_but_order_trans [OF m(2) i(2)] unfolding e(1) by blast
  qed
qed

subsection \<open>The whole sort\<close>

text \<open>
  A list that a further stable sort of its \<open>2 ^ k\<close>-runs would sort: the runs are sorted, and elements
  with equal keys are in their original order.
\<close>

definition sorting :: "('a \<Rightarrow> 'k::linorder) \<Rightarrow> nat \<Rightarrow> 'a list \<Rightarrow> 'a list \<Rightarrow> bool" where
  "sorting key n ord xs \<longleftrightarrow> mset xs = mset ord \<and> runs_sorted key n xs \<and>
     (\<forall>k. filter (\<lambda>x. key x = k) xs = filter (\<lambda>x. key x = k) ord)"

lemma sorting_pass: "sorting key n ord xs \<Longrightarrow> sorting key (2 * n) ord (merge_pass key n xs)"
  by (simp add: sorting_def merge_pass_mset merge_pass_runs runs_sorted_stable)

lemma sorting_done: "sorting key n ord xs \<Longrightarrow> length ord \<le> n \<Longrightarrow> xs = sort_key key ord"
proof -
  assume s: "sorting key n ord xs" and n: "length ord \<le> n"
  have "length xs = length ord" using s by (metis sorting_def size_mset)
  then have "sorted (map key xs)" using s n runs_sorted_all [of key n xs] by (simp add: sorting_def)
  moreover have "filter (\<lambda>x. key k = key x) xs = filter (\<lambda>x. key k = key x) ord" for k
    using s by (simp add: sorting_def eq_commute [of "key k"])
  ultimately show ?thesis using s by (intro properties_for_sort_key [symmetric]) (simp_all add: sorting_def)
qed

lemma table_of_frame:
  "live h' = live h \<Longrightarrow> labels_head h' = labels_head h \<Longrightarrow> tbl h' = tbl h \<Longrightarrow> table_of h' = table_of h"
  unfolding table_of_def allocated_def by (simp cong: option.case_cong)

lemma u32_le_one: "m < 2 ^ 32 \<Longrightarrow> (of_nat m :: u32) \<le> 1 \<longleftrightarrow> m \<le> 1"
  by (simp add: word_le_nat_alt unat_of_nat take_bit_nat_eq_self_iff)

lemma u32_power_less: "unat (w :: u32) = 2 ^ j \<Longrightarrow> j < 32"
proof -
  assume "unat w = 2 ^ j"
  moreover have "unat w < 2 ^ 32" by (rule order_less_le_trans [OF unsigned_less]) simp
  ultimately have "(2::nat) ^ j < 2 ^ 32" by simp
  then show "j < 32" by (rule power_less_imp_less_exp [rotated]) simp
qed

text \<open>One turn of the outer loop, up to the test.\<close>

lemma sort_pass:
  assumes cmp: "\<And>x y. cmpfcn x y \<le> 0 \<longleftrightarrow> key x \<le> key y" and n: "unat insize = n" "n > 0" and len: "length xs < 2 ^ 32"
    and d: "distinct xs" "set xs \<subseteq> live h" "path (app_next h) xs" "xs \<noteq> []" and t: "table_of h = Some t"
  shows "\<exists>h2. sort_loop cmpfcn insize (first_of xs None) h =
      (let ys = merge_pass (\<lambda>a. key (cell h a)) n xs
       in if length xs \<le> 2 * n
          then Some (h2\<lparr>tbl := Some (t\<lparr>ptr_tail := last_of None ys\<rparr>), labels_head := first_of ys None\<rparr>)
          else sort_loop cmpfcn (insize * 2) (first_of ys None) h2) \<and>
    same_but_order h h2 \<and> dseg (app_next h2) (app_prev h2) None (merge_pass (\<lambda>a. key (cell h a)) n xs) None"
proof -
  let ?ys = "merge_pass (\<lambda>a. key (cell h a)) n xs"
  have ms: "mset ?ys = mset xs" by (rule merge_pass_mset)
  then have ys: "distinct ?ys" "set ?ys = set xs" "?ys \<noteq> []"
    using d(1,4) mset_eq_imp_distinct_iff by (blast, metis set_mset_mset, metis mset_zero_iff)
  obtain h1 z where p: "pass_loop cmpfcn insize (first_of xs None) 0 None None h =
      Some (of_nat (merges n xs), first_of ?ys None, last_of None ?ys, h1)" "same_but_order h h1"
      "dseg (app_next h1) (app_prev h1) None ?ys z"
    using pass_loop_passes [of cmpfcn key n insize "[]" xs h None 0, OF cmp] n d(1-3) by auto
  let ?h2 = "h1\<lparr>app_next := set_at (last_of None ?ys) None (app_next h1)\<rparr>"
  have "last ?ys \<in> live h1" using ys(2) last_in_set [OF ys(3)] d(2) p(2) by (auto simp: same_but_order_def)
  then have "may_follow (last_of None ?ys) h1" by (simp add: last_of_nonempty [OF ys(3)] may_follow_def)
  moreover have "table_of ?h2 = Some t"
    using t p(2) table_of_frame [of ?h2 h] by (simp add: same_but_order_def)
  moreover have "(of_nat (merges n xs) :: u32) \<le> 1 \<longleftrightarrow> length xs \<le> 2 * n"
    using merges_bound [of n xs] len merges_one [OF n(2), of xs] by (subst u32_le_one) auto
  ultimately have "sort_loop cmpfcn insize (first_of xs None) h =
      (let ys = merge_pass (\<lambda>a. key (cell h a)) n xs
       in if length xs \<le> 2 * n
          then Some (?h2\<lparr>tbl := Some (t\<lparr>ptr_tail := last_of None ys\<rparr>), labels_head := first_of ys None\<rparr>)
          else sort_loop cmpfcn (insize * 2) (first_of ys None) ?h2)"
    using p(1) by (subst sort_loop.simps) (simp add: Let_def)
  moreover have "same_but_order h ?h2" using p(2) by (simp add: same_but_order_def)
  moreover have "dseg (app_next ?h2) (app_prev ?h2) None ?ys None"
    using dseg_set_last [OF p(3) ys(1,3)] by (simp add: last_of_nonempty [OF ys(3)])
  ultimately show ?thesis by blast
qed

lemma sort_loop_sorts:
  assumes cmp: "\<And>x y. cmpfcn x y \<le> 0 \<longleftrightarrow> key x \<le> key y" and "unat insize = 2 ^ j" "length ord < 2 ^ 32"
    and "sorting (\<lambda>a. key (cell h a)) (2 ^ j) ord xs" "distinct xs" "set xs \<subseteq> live h" "path (app_next h) xs"
    and "table_of h = Some t" "xs \<noteq> []"
  shows "\<exists>h'. sort_loop cmpfcn insize (first_of xs None) h = Some (h'\<lparr>tbl := Some (t\<lparr>ptr_tail :=
        last_of None (sort_key (\<lambda>a. key (cell h a)) ord)\<rparr>),
        labels_head := first_of (sort_key (\<lambda>a. key (cell h a)) ord) None\<rparr>) \<and> same_but_order h h' \<and>
    dseg (app_next h') (app_prev h') None (sort_key (\<lambda>a. key (cell h a)) ord) None"
  using assms(2,4-9)
proof (induction "32 - j" arbitrary: j insize xs h)
  case 0
  then show ?case using u32_power_less [of insize j] by simp
next
  case (Suc m)
  let ?k = "\<lambda>a. key (cell h a)"
  let ?ys = "merge_pass ?k (2 ^ j) xs"
  have len: "length xs = length ord" using Suc.prems(2) by (metis sorting_def size_mset)
  obtain h2 where s: "sort_loop cmpfcn insize (first_of xs None) h =
      (let ys = ?ys in if length xs \<le> 2 * 2 ^ j
          then Some (h2\<lparr>tbl := Some (t\<lparr>ptr_tail := last_of None ys\<rparr>), labels_head := first_of ys None\<rparr>)
          else sort_loop cmpfcn (insize * 2) (first_of ys None) h2)"
    "same_but_order h h2" "dseg (app_next h2) (app_prev h2) None ?ys None"
    using sort_pass [of cmpfcn key insize "2 ^ j" xs h t, OF cmp] Suc.prems assms(3) len by auto
  have o: "sorting ?k (2 ^ Suc j) ord ?ys" using sorting_pass [OF Suc.prems(2)] by simp
  have k: "cell h2 = cell h" "live h2 = live h" using s(2) by (simp_all add: same_but_order_def)
  show ?case
  proof (cases "length xs \<le> 2 * 2 ^ j")
    case True
    have "?ys = sort_key ?k ord" using sorting_done [OF o] True len by simp
    then show ?thesis using s True by (intro exI [of _ h2]) (simp add: Let_def)
  next
    case False
    then have "(2::nat) ^ Suc j < 2 ^ 32" using len assms(3) by simp
    then have j: "Suc j < 32" by (rule power_less_imp_less_exp [rotated]) simp
    have "unat (insize * 2) = unat insize * 2"
      using \<open>2 ^ Suc j < 2 ^ 32\<close> Suc.prems(1) by (simp add: unat_word_ariths)
    then have i2: "unat (insize * 2) = 2 ^ Suc j" using Suc.prems(1) by simp
    have ms: "mset ?ys = mset xs" by (rule merge_pass_mset)
    have ys: "distinct ?ys" "set ?ys \<subseteq> live h2" "path (app_next h2) ?ys" "?ys \<noteq> []"
      using ms Suc.prems(3,4,7) dseg_path [OF s(3)] k(2)
      by (metis mset_eq_imp_distinct_iff, metis set_mset_mset, blast, metis mset_zero_iff)
    have t2: "table_of h2 = Some t"
      using Suc.prems(6) s(2) table_of_frame [of h2 h] by (simp add: same_but_order_def)
    have m: "m = 32 - Suc j" using Suc.hyps(2) by simp
    obtain h' where h': "sort_loop cmpfcn (insize * 2) (first_of ?ys None) h2 = Some (h'\<lparr>tbl := Some (t\<lparr>ptr_tail :=
        last_of None (sort_key ?k ord)\<rparr>), labels_head := first_of (sort_key ?k ord) None\<rparr>)"
      "same_but_order h2 h'" "dseg (app_next h') (app_prev h') None (sort_key ?k ord) None"
      using Suc.hyps(1) [OF m i2 _ ys(1-3) t2 ys(4)] o unfolding k(1) by blast
    then show ?thesis using s(1) False same_but_order_trans [OF s(2) h'(2)] by (auto simp: Let_def)
  qed
qed

lemma HASH_SRT_works:
  assumes m: "in_memory h ord C" and cmp: "\<And>x y. cmpfcn x y \<le> 0 \<longleftrightarrow> key x \<le> key y" and len: "length ord < 2 ^ 32"
  shows "\<exists>h'. HASH_SRT cmpfcn h = Some h' \<and> in_memory h' (sort_key (\<lambda>a. key (cell h a)) ord) C \<and>
    live h' = live h \<and> cell h' = cell h \<and> abs_head h' C = abs_head h C"
proof (cases "tbl h")
  case None
  then show ?thesis using m in_memoryD(4,8) [OF m] by (auto simp: HASH_SRT_def)
next
  case (Some t)
  note md = in_memoryD [OF m] and hd = in_memory_head [OF m Some]
  let ?k = "\<lambda>a. key (cell h a)"
  let ?ys = "sort_key ?k ord"
  have ne: "ord \<noteq> []" using in_memoryD(9) [OF m Some] by simp
  have "sorting ?k (2 ^ 0) ord ord" using runs_sorted_one [of ?k ord] by (simp add: sorting_def)
  then obtain h' where s: "sort_loop cmpfcn 1 (first_of ord None) h = Some (h'\<lparr>tbl := Some (t\<lparr>ptr_tail := last_of None ?ys\<rparr>),
        labels_head := first_of ?ys None\<rparr>)" "same_but_order h h'" "dseg (app_next h') (app_prev h') None ?ys None"
    using sort_loop_sorts [of cmpfcn key 1 0 ord h ord t, OF cmp] len md(1,2) dseg_path [OF md(3)] hd(3) ne by auto
  let ?h = "h'\<lparr>tbl := Some (t\<lparr>ptr_tail := last_of None ?ys\<rparr>), labels_head := first_of ?ys None\<rparr>"
  have yne: "?ys \<noteq> []" using ne by (metis mset_sort mset_zero_iff)
  have "HASH_SRT cmpfcn h = Some ?h" using s(1) hd(1) md(4) by (simp add: HASH_SRT_def)
  moreover have "in_memory ?h ?ys C"
    using s(2,3) md(1,2,5) in_memoryD(9) [OF m Some] yne
    by (simp add: in_memory_def same_but_order_def last_of_nonempty) (simp add: linked_def)
  moreover have "abs_head ?h C = abs_head h C"
    using Some s(2) by (simp add: abs_head_def abs_table_def same_but_order_def abs_buckets_def abs_bucket_def)
  ultimately show ?thesis using s(2) by (auto simp: same_but_order_def)
qed

text \<open>
  C35. Sorting a label table in memory: whenever the comparison function orders the entries by a key,
  \<open>HASH_SRT\<close> returns, touches nothing but the list in application order, and leaves that list, forwards
  and backwards, in the stable order of the keys; entries, buckets and look-ups are unchanged.
\<close>

theorem HASH_SRT_sorts:
  assumes m: "in_memory h ord C" and cmp: "\<And>x y. cmpfcn x y \<le> 0 \<longleftrightarrow> key x \<le> key y" and len: "length ord < 2 ^ 32"
  shows "\<exists>h'. HASH_SRT cmpfcn h = Some h' \<and> in_memory h' (sort_key (\<lambda>a. key (cell h a)) ord) C \<and>
    live h' = live h \<and> cell h' = cell h \<and> abs_head h' C = abs_head h C"
  by (rule HASH_SRT_works [OF assms])

theorem HASH_SRT_sorts_witness:
  "\<exists>h ord C h'. puts_ptr lowest_malloc [(''b'', 0), (''a'', 1)] (no_labels (0::u64)) = Some h \<and> in_memory h ord C \<and>
     HASH_SRT (\<lambda>x y. uint (item_value x) - uint (item_value y)) h = Some h' \<and>
     in_memory h' (sort_key (\<lambda>a. item_value (cell h a)) ord) C"
proof -
  have t0: "table_holds (abs_head (no_labels (0::u64)) []) 0" by (simp add: no_labels_in_memory(2) empty_table(1))
  obtain h ord C n where p: "puts_ptr lowest_malloc [(''b'', 0), (''a'', 1)] (no_labels (0::u64)) = Some h" "in_memory h ord C"
    "table_holds (abs_head h C) n"
    "table_holds (abs_head h C) n"
    using puts_ptr_puts [of lowest_malloc "no_labels (0::u64)" "[]" "[]" 0 "[(''b'', 0), (''a'', 1)]"]
      lowest_malloc_fresh no_labels_in_memory(1) [of "0::u64"] t0 by auto
  have cmp: "uint (item_value x) - uint (item_value y) \<le> 0 \<longleftrightarrow> item_value x \<le> item_value y" for x y :: "u64 item"
    by (simp add: word_le_def)
  have "length ord < 2 ^ 32" by (rule table_holds_counts(2) [OF p(2,3)])
  then show ?thesis using HASH_SRT_sorts [where key = item_value, OF p(2) cmp] p(1,2) by blast
qed

end
