(* ===== verification/Uthash_Order.thy ===== *)
theory Uthash_Order
  imports Uthash_Check
begin

text \<open>
  Adding in order (\<open>HASH_ADD_KEYPTR_INORDER\<close> of \<open>userspace/inc/uthash.h\<close>): the list in application order
  is searched for the first element that compares greater, and the new one goes in front of it.  A table
  built this way keeps its list sorted.
\<close>

subsection \<open>The macros\<close>

text \<open>The inner loop: the first element that compares greater than the new one, or null.\<close>

partial_function (option) akbi_inner_loop ::
    "('v item \<Rightarrow> 'v item \<Rightarrow> int) \<Rightarrow> addr \<Rightarrow> addr \<Rightarrow> 'v uheap \<Rightarrow> addr option option" where
  "akbi_inner_loop cmpfcn add hs_iter h =
    (if hs_iter \<notin> live h then None
     else if cmpfcn (cell h hs_iter) (cell h add) > 0 then Some (Some hs_iter)
     else case app_next h hs_iter of
            None \<Rightarrow> Some None
          | Some it \<Rightarrow> akbi_inner_loop cmpfcn add it h)"

definition insert_before :: "addr \<Rightarrow> addr \<Rightarrow> 'v uheap \<Rightarrow> 'v uheap option" where
  "insert_before add hs_iter h =
    do { it \<leftarrow> allocated (Some hs_iter) h;
         if may_follow (app_prev h it) h
         then Some (h\<lparr>app_next := set_at (app_prev h it) (Some add) ((app_next h)(add := Some it)),
                      app_prev := (app_prev h)(add := app_prev h it, it := Some add),
                      labels_head := (if app_prev h it = None then Some add else labels_head h)\<rparr>)
         else None }"

definition enter_list_inorder :: "('v item \<Rightarrow> 'v item \<Rightarrow> int) \<Rightarrow> addr \<Rightarrow> 'v uheap \<Rightarrow> 'v uheap option" where
  "enter_list_inorder cmpfcn add h =
    (case labels_head h of
       None \<Rightarrow> enter_list_ptr add h
     | Some f \<Rightarrow>
         do { t \<leftarrow> table_of h;
              hs_iter \<leftarrow> akbi_inner_loop cmpfcn add f h;
              case hs_iter of
                Some it \<Rightarrow> insert_before add it h
              | None \<Rightarrow> append_list_ptr add h })"

definition add_inorder_ptr :: "('v item \<Rightarrow> 'v item \<Rightarrow> int) \<Rightarrow> addr \<Rightarrow> 'v uheap \<Rightarrow> 'v uheap option" where
  "add_inorder_ptr cmpfcn add h =
    do { let hv = HASH_JEN (hh_key (cell h add));
         let h1 = h\<lparr>cell := (cell h)(add := (cell h add)\<lparr>hashv := hv\<rparr>)\<rparr>;
         h2 \<leftarrow> enter_list_inorder cmpfcn add h1;
         add_to_table_ptr hv add h2 }"

text \<open>A sequence of additions of new keys, the entries allocated as they come.\<close>

fun adds_inorder ::
    "('v item \<Rightarrow> 'v item \<Rightarrow> int) \<Rightarrow> (addr set \<Rightarrow> addr) \<Rightarrow> (string \<times> 'v) list \<Rightarrow> 'v uheap \<Rightarrow> 'v uheap option" where
  "adds_inorder cmpfcn malloc [] h = Some h"
| "adds_inorder cmpfcn malloc ((key, v) # kvs) h =
    do { let a = malloc (live h);
         h' \<leftarrow> add_inorder_ptr cmpfcn a (h\<lparr>live := insert a (live h),
                 cell := (cell h)(a := \<lparr>hh_key = key, hashv = 0, item_value = v\<rparr>)\<rparr>);
         adds_inorder cmpfcn malloc kvs h' }"

subsection \<open>Where the element goes\<close>

lemma akbi_inner_loop_finds:
  "path (app_next h) xs \<Longrightarrow> set xs \<subseteq> live h \<Longrightarrow> xs \<noteq> [] \<Longrightarrow>
     akbi_inner_loop cmpfcn a (hd xs) h =
     Some (first_of (dropWhile (\<lambda>x. cmpfcn (cell h x) (cell h a) \<le> 0) xs) None)"
proof (induction xs)
  case (Cons x xs)
  then show ?case by (subst akbi_inner_loop.simps) (cases xs; simp)
qed simp

lemma dseg_insert:
  assumes "dseg nx pv None (xs @ y # ys) None" "distinct (xs @ y # ys)" "a \<notin> set (xs @ y # ys)"
  shows "dseg (set_at (pv y) (Some a) (nx(a := Some y))) (pv(a := pv y, y := Some a)) None (xs @ a # y # ys) None"
    "pv y = last_of None xs"
proof -
  show p: "pv y = last_of None xs" using assms(1) by (simp add: dseg_append)
  let ?nx = "set_at (pv y) (Some a) (nx(a := Some y))" and ?pv = "pv(a := pv y, y := Some a)"
  have "dseg ?nx ?pv None xs (Some a)"
  proof (cases "xs = []")
    case False
    have "dseg (nx(a := Some y)) ?pv None xs (Some y)"
      using assms by (subst dseg_frame [where nx' = "nx(a := Some y)" and nx = nx and pv = pv]) (auto simp: dseg_append)
    from dseg_set_last [OF this _ False] assms(2) show ?thesis by (simp add: p last_of_nonempty [OF False])
  qed simp
  moreover have "dseg ?nx ?pv (Some a) (y # ys) None"
  proof -
    have "x \<noteq> a \<and> x \<noteq> y \<and> pv y \<noteq> Some x" if "x \<in> set ys" for x
      using that assms(2,3) last_in_set [of xs] by (cases "xs = []") (auto simp: p last_of_def disjoint_iff)
    then have "dseg ?nx ?pv (Some y) ys None"
      using assms(1) by (subst dseg_frame [where nx = nx and pv = pv]) (auto simp: dseg_append set_at_other)
    moreover have "pv y \<noteq> Some y" using assms(2) last_in_set [of xs] by (auto simp: p last_of_def)
    ultimately show ?thesis using assms by (auto simp: set_at_other dseg_append)
  qed
  moreover have "a \<noteq> y" "pv y \<noteq> Some a" using assms(3) last_in_set [of xs] by (auto simp: p last_of_def)
  ultimately show "dseg ?nx ?pv None (xs @ a # y # ys) None"
    by (simp add: dseg_append set_at_other p)
qed

lemma enter_list_inorder_enters:
  assumes m: "in_memory h ord C" and a: "a \<notin> live h"
    and h1_def: "h1 = h\<lparr>live := insert a (live h), cell := (cell h)(a := e)\<rparr>"
    and xs: "xs = takeWhile (\<lambda>x. cmpfcn (cell h x) e \<le> 0) ord" and ys: "ys = dropWhile (\<lambda>x. cmpfcn (cell h x) e \<le> 0) ord"
  shows "\<exists>h2. enter_list_inorder cmpfcn a h1 = Some h2 \<and> entered h C a e (xs @ a # ys) h2"
proof -
  obtain h2 where app: "enter_list_ptr a h1 = Some h2" "entered h C a e (ord @ [a]) h2"
    using append_ptr_appends [OF m a h1_def] by blast
  have ord: "ord = xs @ ys" by (simp add: xs ys)
  have lh: "labels_head h1 = first_of ord None" using in_memoryD(4) [OF m] by (simp add: h1_def)
  show ?thesis
  proof (cases "ord = []")
    case True
    then show ?thesis using app ord lh by (simp add: enter_list_inorder_def)
  next
    case False
    then obtain t where t: "tbl h = Some t" using in_memoryD(8) [OF m] by auto
    have lv: "x \<in> live h" "x \<noteq> a" if "x \<in> set ord" for x using that in_memoryD(1) [OF m] a by auto
    have tof: "table_of h1 = Some t"
      using in_memory_head [OF m t] t by (simp add: table_of_def allocated_def h1_def)
    have p: "path (app_next h1) ord" using dseg_path [OF in_memoryD(3) [OF m]] by (simp add: h1_def)
    have dw: "dropWhile (\<lambda>x. cmpfcn (cell h1 x) (cell h1 a) \<le> 0) ord = ys"
      unfolding ys using lv by (intro dropWhile_cong) (auto simp: h1_def)
    have "akbi_inner_loop cmpfcn a (hd ord) h1 = Some (first_of ys None)"
      using akbi_inner_loop_finds [OF p _ False, of cmpfcn a] lv(1) unfolding dw by (auto simp: h1_def)
    then have run: "enter_list_inorder cmpfcn a h1 =
        (case first_of ys None of Some it \<Rightarrow> insert_before a it h1 | None \<Rightarrow> append_list_ptr a h1)"
      using tof lh by (simp add: enter_list_inorder_def first_of_nonempty [OF False])
    show ?thesis
    proof (cases ys)
      case Nil
      have "append_list_ptr a h1 = Some h2" using app(1) lh by (simp add: enter_list_ptr_def first_of_nonempty [OF False])
      then show ?thesis using run app(2) Nil ord by simp
    next
      case (Cons y zs)
      note d = in_memoryD(3) [OF m, unfolded ord Cons] and di = in_memoryD(2) [OF m, unfolded ord Cons]
      have na: "a \<notin> set (xs @ y # zs)" using lv(2) ord Cons by auto
      note ins = dseg_insert [OF d di na]
      let ?h2 = "h1\<lparr>app_next := set_at (app_prev h1 y) (Some a) ((app_next h1)(a := Some y)),
                      app_prev := (app_prev h1)(a := app_prev h1 y, y := Some a),
                      labels_head := (if app_prev h1 y = None then Some a else labels_head h1)\<rparr>"
      have pr: "app_prev h1 y = last_of None xs" using ins(2) by (simp add: h1_def)
      have "y \<in> live h1" "may_follow (app_prev h1 y) h1"
        using lv(1) ord Cons last_in_set [of xs] unfolding pr by (auto simp: h1_def may_follow_def last_of_def)
      then have "insert_before a y h1 = Some ?h2" by (simp add: insert_before_def allocated_def)
      then have "enter_list_inorder cmpfcn a h1 = Some ?h2" using run Cons by simp
      moreover have "entered h C a e (xs @ a # ys) ?h2"
      proof -
        have tl: "ptr_tail t = Some (last ord)" "linked h (ptr_buckets t) C" using in_memoryD(9) [OF m t] by simp_all
        have hd2: "labels_head ?h2 = first_of (xs @ a # ys) None"
          unfolding pr using lh ord by (cases "xs = []") (simp_all add: last_of_nonempty first_of_nonempty)
        have "labels_head ?h2 = Some (hd (xs @ a # ys))" using hd2 by (simp add: first_of_nonempty del: first_of_append)
        moreover have "hd (xs @ a # ys) \<in> live ?h2" using lv(1) ord by (cases xs) (auto simp: h1_def)
        ultimately have tof2: "table_of ?h2 = Some t" using t by (simp add: table_of_def allocated_def h1_def)
        have nc: "a \<notin> set (concat C)" using a in_memoryD(7) [OF m] by simp
        have "abs_buckets ?h2 (ptr_buckets t) C = abs_buckets h (ptr_buckets t) C"
          using linkedD(1) [OF tl(2)] nc by (intro abs_buckets_frame) (simp, auto simp: h1_def)
        then have ab: "abs_table ?h2 t C = abs_table h t C" by (simp add: abs_table_def)
        have dd: "dseg (app_next ?h2) (app_prev ?h2) None (xs @ a # ys) None" using ins(1) Cons by (simp add: h1_def)
        show ?thesis
          unfolding entered_def
          by (intro conjI exI [of _ t] exI [of _ C])
            (use hd2 tof2 ab dd tl t Cons ord in \<open>simp_all add: h1_def abs_head_def\<close>)
      qed
      ultimately show ?thesis by blast
    qed
  qed
qed

lemma add_inorder_adds:
  assumes m: "in_memory h ord C" and a: "a \<notin> live h" and t: "table_holds (abs_head h C) n" "n < 188"
    and e: "e = \<lparr>hh_key = key, hashv = HASH_JEN key, item_value = v\<rparr>"
  shows "\<exists>h' C'. add_inorder_ptr cmpfcn a (h\<lparr>live := insert a (live h),
        cell := (cell h)(a := \<lparr>hh_key = key, hashv = 0, item_value = v\<rparr>)\<rparr>) = Some h' \<and>
    in_memory h' (takeWhile (\<lambda>x. cmpfcn (cell h x) e \<le> 0) ord @ a # dropWhile (\<lambda>x. cmpfcn (cell h x) e \<le> 0) ord) C' \<and>
    cell h' = (cell h)(a := e) \<and> abs_head h' C' = Some (HASH_ADD_STR (abs_head h C) key v)"
proof -
  let ?ord' = "takeWhile (\<lambda>x. cmpfcn (cell h x) e \<le> 0) ord @ a # dropWhile (\<lambda>x. cmpfcn (cell h x) e \<le> 0) ord"
  obtain h2 where en: "enter_list_inorder cmpfcn a (h\<lparr>live := insert a (live h), cell := (cell h)(a := e)\<rparr>) = Some h2"
    "entered h C a e ?ord' h2"
    using enter_list_inorder_enters [OF m a refl refl refl] by blast
  have "mset ?ord' = add_mset a (mset ord)" by (metis mset_append mset.simps(2) takeWhile_dropWhile_id union_mset_add_mset_right)
  from add_to_table_adds [OF m a t en(2) [unfolded e] this [unfolded e]] en(1)
  show ?thesis by (auto simp: add_inorder_ptr_def Let_def e)
qed

subsection \<open>A sorted table\<close>

lemma sorted_tail_greater:
  "sorted (map key xs) \<Longrightarrow> x \<in> set (dropWhile (\<lambda>y. key y \<le> k) xs) \<Longrightarrow> k < (key x :: 'k::linorder)"
  by (induction xs) (force split: if_splits)+

lemma sort_key_snoc:
  fixes key :: "'a \<Rightarrow> 'k::linorder"
  shows "sort_key key (xs @ [e]) =
    takeWhile (\<lambda>x. key x \<le> key e) (sort_key key xs) @ e # dropWhile (\<lambda>x. key x \<le> key e) (sort_key key xs)"
    (is "_ = ?t @ e # ?d")
proof (rule properties_for_sort_key)
  let ?s = "sort_key key xs"
  have s: "sorted (map key ?s)" by simp
  have td: "?t @ ?d = ?s" by simp
  have "mset ?t + mset ?d = mset xs" by (metis td mset_append mset_sort)
  then show "mset (?t @ e # ?d) = mset (xs @ [e])" by simp
  note g = sorted_tail_greater [OF s, of _ "key e"]
  show "filter (\<lambda>x. key y = key x) (?t @ e # ?d) = filter (\<lambda>x. key y = key x) (xs @ [e])" for y
  proof -
    have f: "filter (\<lambda>x. key y = key x) ?t @ filter (\<lambda>x. key y = key x) ?d = filter (\<lambda>x. key y = key x) xs"
      unfolding filter_append [symmetric] td by (simp add: sort_key_stable eq_commute [of "key y"])
    show ?thesis
    proof (cases "key y = key e")
      case True
      then have "filter (\<lambda>x. key y = key x) ?d = []" using g by (fastforce simp: filter_empty_conv)
      then show ?thesis using f True by simp
    next
      case False
      then show ?thesis using f by simp
    qed
  qed
  have "sorted (map key ?t @ map key ?d)" unfolding map_append [symmetric] td by simp
  then have "sorted (map key ?t)" "sorted (map key ?d)" by (simp_all only: sorted_append)
  moreover have "key x \<le> key e" if "x \<in> set ?t" for x using that by (auto dest: set_takeWhileD)
  ultimately show "sorted (map key (?t @ e # ?d))"
    using g by (auto simp: sorted_append less_imp_le) (meson order_le_less_trans order_less_imp_le)
qed

definition added :: "string \<times> 'v \<Rightarrow> 'v item" where
  "added kv = \<lparr>hh_key = fst kv, hashv = HASH_JEN (fst kv), item_value = snd kv\<rparr>"

lemma adds_inorder_adds:
  assumes malloc: "\<And>L. finite L \<Longrightarrow> malloc L \<notin> L" and cmp: "\<And>x y. cmpfcn x y \<le> 0 \<longleftrightarrow> key x \<le> (key y :: 'k::linorder)"
    and "in_memory h ord C" "table_holds (abs_head h C) n" "n + length kvs \<le> 188"
    and "map (cell h) ord = sort_key key (map added before)"
    and "table_map (abs_head h C) = map_of before" "distinct (map fst (before @ kvs))"
  shows "\<exists>h' ord' C' n'. adds_inorder cmpfcn malloc kvs h = Some h' \<and> in_memory h' ord' C' \<and>
    table_holds (abs_head h' C') n' \<and> map (cell h') ord' = sort_key key (map added (before @ kvs)) \<and>
    table_map (abs_head h' C') = map_of (before @ kvs)"
  using assms(3-8)
proof (induction kvs arbitrary: h ord C n before)
  case Nil
  then show ?case by auto
next
  case (Cons kv kvs)
  obtain k v where kv: "kv = (k, v)" by (cases kv)
  let ?a = "malloc (live h)" and ?e = "added (k, v)"
  let ?P = "\<lambda>x. cmpfcn (cell h x) ?e \<le> 0"
  let ?ord = "takeWhile ?P ord @ ?a # dropWhile ?P ord"
  have a: "?a \<notin> live h" using malloc in_memoryD(1) [OF Cons.prems(1)] by (metis List.finite_set)
  have n: "n < 188" using Cons.prems(3) by simp
  obtain h1 C1 where h1: "add_inorder_ptr cmpfcn ?a (h\<lparr>live := insert ?a (live h),
        cell := (cell h)(?a := \<lparr>hh_key = k, hashv = 0, item_value = v\<rparr>)\<rparr>) = Some h1"
    "in_memory h1 ?ord C1" "cell h1 = (cell h)(?a := ?e)" "abs_head h1 C1 = Some (HASH_ADD_STR (abs_head h C) k v)"
    using add_inorder_adds [OF Cons.prems(1) a Cons.prems(2) n, of ?e k v cmpfcn] by (auto simp: added_def)
  have nk: "map_of before k = None" using Cons.prems(6) kv by (simp add: map_of_eq_None_iff)
  then have snoc: "map_of (before @ [kv]) = (map_of before)(k \<mapsto> v)"
    by (auto simp: kv fun_eq_iff map_add_def split: option.splits)
  have "table_map (abs_head h C) k = None" using Cons.prems(5) nk by simp
  from add_str [OF Cons.prems(2) n this, of v] have t1: "table_holds (abs_head h1 C1) (n + 1)"
    "table_map (abs_head h1 C1) = map_of (before @ [kv])"
    unfolding h1(4) snoc Cons.prems(5) by blast+
  have "map (cell h1) ?ord = sort_key key (map added (before @ [kv]))"
  proof -
    have f: "map (cell h1) zs = map (cell h) zs" if "set zs \<subseteq> set ord" for zs
      using that a in_memoryD(1) [OF Cons.prems(1)] unfolding h1(3) by (intro map_cong refl) auto
    have s: "set (takeWhile ?P ord) \<subseteq> set ord" "set (dropWhile ?P ord) \<subseteq> set ord"
      by (auto dest: set_takeWhileD set_dropWhileD)
    have "map (cell h1) ?ord = takeWhile (\<lambda>x. key x \<le> key ?e) (map (cell h) ord) @ ?e #
        dropWhile (\<lambda>x. key x \<le> key ?e) (map (cell h) ord)"
      unfolding map_append list.map f [OF s(1)] f [OF s(2)]
      by (simp add: takeWhile_map dropWhile_map o_def cmp h1(3))
    also have "\<dots> = sort_key key (map added before @ [?e])" unfolding Cons.prems(4) sort_key_snoc ..
    finally show ?thesis using kv by simp
  qed
  from Cons.IH [OF h1(2) t1(1) _ this t1(2)] Cons.prems(3,6) h1(1) kv show ?case by (simp add: Let_def)
qed

text \<open>
  C36. Building a table in order: for at most 188 new keys, whatever addresses the allocator returns and
  whenever the comparison function orders the entries by some key, the additions succeed, the list in
  application order is the stable sort of the entries in the order of their addition, the look-ups find
  exactly them, and the table passes the integrity check.
\<close>

theorem adds_inorder_sorted:
  assumes "\<And>L. finite L \<Longrightarrow> malloc L \<notin> L" and "\<And>x y. cmpfcn x y \<le> 0 \<longleftrightarrow> key x \<le> (key y :: 'k::linorder)"
    and "length kvs \<le> 188" "distinct (map fst kvs)"
  shows "\<exists>h ord C. adds_inorder cmpfcn malloc kvs (no_labels v) = Some h \<and> in_memory h ord C \<and>
    map (cell h) ord = sort_key key (map added kvs) \<and> (\<forall>k. get_ptr h k = Some (map_of kvs k)) \<and>
    HASH_FSCK h = Some (Inr ())"
proof -
  have t0: "table_holds (abs_head (no_labels v) []) 0" by (simp add: no_labels_in_memory(2) empty_table(1))
  have "table_map (abs_head (no_labels v) []) = map_of []" by (simp add: no_labels_in_memory(2) table_map_def)
  from adds_inorder_adds [OF assms(1,2) no_labels_in_memory(1) t0 _ _ this] assms(3,4)
  obtain h ord C n where r: "adds_inorder cmpfcn malloc kvs (no_labels v) = Some h" "in_memory h ord C"
    "table_holds (abs_head h C) n" "map (cell h) ord = sort_key key (map added kvs)" "table_map (abs_head h C) = map_of kvs"
    by fastforce
  have "head_ok (abs_head h C)" using r(3) by (simp add: table_holds_def)
  then show ?thesis
    using r get_ptr_gets [OF r(2)] check_passes [OF r(2) table_holds_counts(1) [OF r(2,3)]] by auto
qed

theorem adds_inorder_sorted_witness:
  "\<exists>h ord C. adds_inorder (\<lambda>x y. uint (item_value x) - uint (item_value y)) lowest_malloc
      [(''b'', 7), (''a'', 3), (''c'', 7)] (no_labels (0::u64)) = Some h \<and> in_memory h ord C \<and>
    map (\<lambda>a. hh_key (cell h a)) ord = [''a'', ''b'', ''c''] \<and> get_ptr h ''a'' = Some (Some 3)"
proof -
  have cmp: "uint (item_value x) - uint (item_value y) \<le> 0 \<longleftrightarrow> item_value x \<le> item_value y" for x y :: "u64 item"
    by (simp add: word_le_def)
  obtain h ord C where r: "adds_inorder (\<lambda>x y. uint (item_value x) - uint (item_value y)) lowest_malloc
      [(''b'', 7), (''a'', 3), (''c'', 7)] (no_labels (0::u64)) = Some h" "in_memory h ord C"
    "map (cell h) ord = sort_key item_value (map added [(''b'', 7), (''a'', 3), (''c'', 7)])"
    "\<forall>k. get_ptr h k = Some (map_of [(''b'', 7), (''a'', 3), (''c'', 7)] k)"
    using adds_inorder_sorted [where key = item_value and kvs = "[(''b'', 7), (''a'', 3), (''c'', 7)]" and v = "0 :: u64",
        OF lowest_malloc_fresh cmp] by auto
  have "map (\<lambda>a. hh_key (cell h a)) ord = map hh_key (map (cell h) ord)" by simp
  also have "\<dots> = [''a'', ''b'', ''c'']" unfolding r(3) by (simp add: added_def)
  finally show ?thesis using r by auto
qed

end
