(* ===== verification/Uthash_Replace.thy ===== *)
theory Uthash_Replace
  imports Uthash_Check
begin

text \<open>
  Replacing and clearing (\<open>HASH_REPLACE\<close>, \<open>HASH_CLEAR\<close> of \<open>userspace/inc/uthash.h\<close>).  A replaced entry is
  handed back to the caller, allocated but in no table; so the macros are first shown to do the same
  when other memory is allocated besides the entries of the table.
\<close>

subsection \<open>The macros\<close>

text \<open>The new entry is at \<open>add\<close>, its key filled in; the entry that had the key is returned.\<close>

definition replace_ptr :: "addr \<Rightarrow> 'v uheap \<Rightarrow> ('v uheap \<times> addr option) option" where
  "replace_ptr add h =
    do { replaced \<leftarrow> find_ptr h (hh_key (cell h add));
         h1 \<leftarrow> (case replaced of None \<Rightarrow> Some h | Some e \<Rightarrow> delete_ptr e h);
         h2 \<leftarrow> add_ptr add h1;
         Some (h2, replaced) }"

definition HASH_CLEAR :: "'v uheap \<Rightarrow> 'v uheap option" where
  "HASH_CLEAR h =
    (case labels_head h of
       None \<Rightarrow> Some h
     | Some f \<Rightarrow> do { t \<leftarrow> table_of h; Some (h\<lparr>tbl := None, labels_head := None\<rparr>) })"

subsection \<open>More memory allocated\<close>

definition widen :: "addr set \<Rightarrow> 'v uheap \<Rightarrow> 'v uheap" where
  "widen B h = h\<lparr>live := live h \<union> B\<rparr>"

lemma widen_simps [simp]:
  "live (widen B h) = live h \<union> B" "cell (widen B h) = cell h" "app_next (widen B h) = app_next h"
  "app_prev (widen B h) = app_prev h" "chain_next (widen B h) = chain_next h" "chain_prev (widen B h) = chain_prev h"
  "tbl (widen B h) = tbl h" "labels_head (widen B h) = labels_head h"
  by (simp_all add: widen_def)

lemma widen_update [simp]:
  "(widen B h)\<lparr>tbl := x\<rparr> = widen B (h\<lparr>tbl := x\<rparr>)" "(widen B h)\<lparr>cell := c\<rparr> = widen B (h\<lparr>cell := c\<rparr>)"
  "(widen B h)\<lparr>labels_head := q\<rparr> = widen B (h\<lparr>labels_head := q\<rparr>)"
  "(widen B h)\<lparr>app_next := nx\<rparr> = widen B (h\<lparr>app_next := nx\<rparr>)" "(widen B h)\<lparr>app_prev := pv\<rparr> = widen B (h\<lparr>app_prev := pv\<rparr>)"
  "(widen B h)\<lparr>chain_next := nx\<rparr> = widen B (h\<lparr>chain_next := nx\<rparr>)" "(widen B h)\<lparr>chain_prev := pv\<rparr> = widen B (h\<lparr>chain_prev := pv\<rparr>)"
  by (simp_all add: widen_def)

named_theorems widening

lemma widen_allocated [widening]: "allocated p h = Some a \<Longrightarrow> allocated p (widen B h) = Some a"
  by (auto simp: allocated_def split: option.splits if_splits)

lemma widen_table_of [widening]: "table_of h = Some t \<Longrightarrow> table_of (widen B h) = Some t"
  by (auto simp: table_of_def allocated_def split: option.splits if_splits)

lemma widen_may_follow [widening]: "may_follow p h \<Longrightarrow> may_follow p (widen B h)"
  by (auto simp: may_follow_def split: option.splits)

lemma widen_find_in_chain [widening]:
  assumes "find_in_chain_ptr h key hv out = Some r"
  shows "find_in_chain_ptr (widen B h) key hv out = Some r"
proof (rule find_in_chain_ptr.raw_induct [where P = "\<lambda>h key hv out r. find_in_chain_ptr (widen B h) key hv out = Some r", OF _ assms])
  fix walk h key hv out r
  assume "\<And>h key hv out r. walk h key hv out = Some r \<Longrightarrow> find_in_chain_ptr (widen B h) key hv out = Some r"
    and "(case out of None \<Rightarrow> Some None
       | Some a \<Rightarrow> if a \<notin> live h then None
           else if hashv (cell h a) = hv \<and> length (hh_key (cell h a)) = length key \<and> hh_key (cell h a) = key then Some (Some a)
           else walk h key hv (chain_next h a)) = Some r"
  then show "find_in_chain_ptr (widen B h) key hv out = Some (r :: addr option)"
    by (subst find_in_chain_ptr.simps) (auto split: option.splits if_splits)
qed

lemma widen_find [widening]: "find_ptr h key = Some p \<Longrightarrow> find_ptr (widen B h) key = Some p"
  by (auto simp: find_ptr_def Let_def bind_eq_Some_conv widening split: option.splits)

lemma widen_link_front [widening]: "link_front a f h = Some h' \<Longrightarrow> link_front a f (widen B h) = Some (widen B h')"
  by (auto simp: link_front_def widen_may_follow split: if_splits)

lemma widen_move_ptr [widening]:
  "move_ptr n ideal a (h, st) = Some (h', st') \<Longrightarrow> move_ptr n ideal a (widen B h, st) = Some (widen B h', st')"
proof -
  assume m: "move_ptr n ideal a (h, st) = Some (h', st')"
  obtain bs ni where st: "st = (bs, ni)" by (cases st)
  let ?i = "unat (HASH_TO_BKT (hashv (cell h a)) n)"
  obtain b where b: "nth_bucket bs ?i = Some b"
    using m st by (cases "nth_bucket bs ?i") (simp_all add: move_ptr_def Let_def)
  obtain h1 where h1: "link_front a (hh_head b) h = Some h1"
    using m st b by (cases "link_front a (hh_head b) h") (simp_all add: move_ptr_def Let_def)
  show ?thesis using m widen_link_front [OF h1, of B] h1 b by (simp add: st move_ptr_def Let_def)
qed

lemma widen_move_chain [widening]:
  assumes "move_chain n ideal thh (h, st) = Some (h', st')"
  shows "move_chain n ideal thh (widen B h, st) = Some (widen B h', st')"
proof -
  let ?w = "map_prod (widen B) (\<lambda>x. x)"
  have "move_chain n ideal thh (?w (h, st)) = Some (?w (h', st'))"
  proof (rule move_chain.raw_induct [where P = "\<lambda>n ideal thh p r. move_chain n ideal thh (?w p) = Some (?w r)", OF _ assms])
    fix walk n ideal thh p r
    assume IH: "\<And>n ideal thh p r. walk n ideal thh p = Some r \<Longrightarrow> move_chain n ideal thh (?w p) = Some (?w r)"
      and step: "(case thh of None \<Rightarrow> Some p
         | Some a \<Rightarrow> if a \<notin> live (fst p) then None
             else let hh_nxt = chain_next (fst p) a
                  in Option.bind (move_ptr n ideal a p) (walk n ideal hh_nxt)) = Some r"
    show "move_chain n ideal thh (?w p) = Some (?w r)"
    proof (cases thh)
      case None
      then show ?thesis using step by (subst move_chain.simps) simp
    next
      case (Some a)
      then obtain q where q: "a \<in> live (fst p)" "move_ptr n ideal a p = Some q" "walk n ideal (chain_next (fst p) a) q = Some r"
        using step by (auto simp: Let_def split: if_splits bind_splits)
      have "move_ptr n ideal a (?w p) = Some (?w q)"
        using widen_move_ptr [of n ideal a "fst p" "snd p" "fst q" "snd q"] q(2) by (simp add: map_prod_def split_beta)
      then show ?thesis using IH [OF q(3)] q(1) Some by (subst move_chain.simps) (simp add: map_prod_def split_beta)
    qed
  qed
  then show ?thesis by simp
qed

lemma widen_move_buckets [widening]:
  "move_buckets n ideal bs (h, st) = Some (h', st') \<Longrightarrow> move_buckets n ideal bs (widen B h, st) = Some (widen B h', st')"
proof (induction bs arbitrary: h st)
  case (Cons b bs)
  then obtain h1 st1 where "move_chain n ideal (hh_head b) (h, st) = Some (h1, st1)" "move_buckets n ideal bs (h1, st1) = Some (h', st')"
    by (auto split: bind_splits)
  then show ?case using widen_move_chain Cons.IH by fastforce
qed auto

lemma widen_expand [widening]: "expand_ptr t h = Some h' \<Longrightarrow> expand_ptr t (widen B h) = Some (widen B h')"
proof -
  let ?n = "ptr_num_buckets t * 2"
  let ?ideal = "drop_bit (unat (ptr_log2 t + 1)) (ptr_num_items t) + (if ptr_num_items t AND (?n - 1) \<noteq> 0 then 1 else 0)"
  assume e: "expand_ptr t h = Some h'"
  then obtain h1 bs ni where m: "move_buckets ?n ?ideal (ptr_buckets t) (h, replicate (unat ?n) empty_ptr_bucket, 0) = Some (h1, bs, ni)"
    unfolding expand_ptr_def Let_def by (cases "move_buckets ?n ?ideal (ptr_buckets t) (h, replicate (unat ?n) empty_ptr_bucket, 0)") auto
  show ?thesis using e widen_move_buckets [OF m, of B] m unfolding expand_ptr_def Let_def by simp
qed

lemma widen_add_to_bkt [widening]: "add_to_bkt_ptr i a h = Some h' \<Longrightarrow> add_to_bkt_ptr i a (widen B h) = Some (widen B h')"
  by (auto simp: add_to_bkt_ptr_def Let_def bind_eq_Some_conv widening split: if_splits)

lemma widen_add_to_table [widening]:
  "add_to_table_ptr hv a h = Some h' \<Longrightarrow> add_to_table_ptr hv a (widen B h) = Some (widen B h')"
  by (auto simp: add_to_table_ptr_def Let_def bind_eq_Some_conv widening)

lemma widen_append [widening]: "append_list_ptr a h = Some h' \<Longrightarrow> append_list_ptr a (widen B h) = Some (widen B h')"
  by (auto simp: append_list_ptr_def bind_eq_Some_conv widening)

lemma widen_enter [widening]: "enter_list_ptr a h = Some h' \<Longrightarrow> enter_list_ptr a (widen B h) = Some (widen B h')"
  by (auto simp: enter_list_ptr_def widening split: option.splits)

lemma widen_add [widening]: "add_ptr a h = Some h' \<Longrightarrow> add_ptr a (widen B h) = Some (widen B h')"
  by (auto simp: add_ptr_def Let_def bind_eq_Some_conv widening)

lemma widen_del_in_bkt [widening]: "del_in_bkt_ptr i a h = Some h' \<Longrightarrow> del_in_bkt_ptr i a (widen B h) = Some (widen B h')"
  by (auto simp: del_in_bkt_ptr_def Let_def bind_eq_Some_conv widening split: if_splits)

lemma widen_delete [widening]: "delete_ptr a h = Some h' \<Longrightarrow> delete_ptr a (widen B h) = Some (widen B h')"
proof -
  assume d: "delete_ptr a h = Some h'"
  then obtain t where t: "a \<in> live h" "table_of h = Some t"
    by (auto simp: delete_ptr_def allocated_def bind_eq_Some_conv split: if_splits)
  show ?thesis
  proof (cases "app_prev h a = None \<and> app_next h a = None")
    case True
    then show ?thesis using d t by (auto simp: delete_ptr_def allocated_def widen_table_of)
  next
    case False
    let ?h1 = "h\<lparr>tbl := Some (t\<lparr>ptr_tail := (if ptr_tail t = Some a then app_prev h a else ptr_tail t)\<rparr>),
                          app_next := set_at (app_prev h a) (app_next h a) (app_next h),
                          app_prev := set_at (app_next h a) (app_prev h a) (app_prev h),
                          labels_head := (if app_prev h a = None then app_next h a else labels_head h)\<rparr>"
    obtain t1 h2 t2 where r: "may_follow (app_prev h a) h" "may_follow (app_next h a) h" "table_of ?h1 = Some t1"
      "del_in_bkt_ptr (unat (HASH_TO_BKT (hashv (cell ?h1 a)) (ptr_num_buckets t1))) a ?h1 = Some h2"
      "table_of h2 = Some t2" "h' = h2\<lparr>tbl := Some (t2\<lparr>ptr_num_items := ptr_num_items t2 - 1\<rparr>)\<rparr>"
      using d t unfolding delete_ptr_def Let_def if_not_P [OF False] allocated_def
      by (auto simp only: bind_eq_Some_conv option.case option.inject if_True simp_thms split: if_splits)
    show ?thesis
      using t r(1,2,6) widen_table_of [OF t(2), of B] widen_table_of [OF r(3), of B] widen_del_in_bkt [OF r(4), of B]
        widen_table_of [OF r(5), of B] False
      by (simp add: delete_ptr_def Let_def allocated_def widen_may_follow) (auto simp: widen_def)
  qed
qed

subsection \<open>Replacing\<close>

text \<open>
  The entry at \<open>a\<close> is filled in and in no table yet.  Afterwards the table holds it in the place of the old
  entry of its key, if there was one, which is allocated but in no table.
\<close>

lemma cells_outside:
  assumes "in_memory h ord C" "a \<notin> live h"
  shows "in_memory (h\<lparr>cell := (cell h)(a := e)\<rparr>) ord C" "abs_head (h\<lparr>cell := (cell h)(a := e)\<rparr>) C = abs_head h C"
proof -
  show "in_memory (h\<lparr>cell := (cell h)(a := e)\<rparr>) ord C"
    using assms(1) by (simp add: in_memory_def linked_def cong: option.case_cong)
  show "abs_head (h\<lparr>cell := (cell h)(a := e)\<rparr>) C = abs_head h C"
  proof (cases "tbl h")
    case None
    then show ?thesis by (simp add: abs_head_def)
  next
    case (Some t)
    have "abs_buckets (h\<lparr>cell := (cell h)(a := e)\<rparr>) (ptr_buckets t) C = abs_buckets h (ptr_buckets t) C"
      using home_bound(2) [OF assms(1) Some] in_memoryD(7) [OF assms(1)] assms(2)
      by (intro abs_buckets_frame) auto
    then show ?thesis using Some by (simp add: abs_head_def abs_table_def)
  qed
qed

lemma widen_insert: "widen {a} h = h\<lparr>live := insert a (live h)\<rparr>"
  by (simp add: widen_def)

lemma replace_ptr_replaces:
  assumes m: "in_memory h ord C" and a: "a \<notin> live h" and t: "table_holds (abs_head h C) n" "n < 188"
    and H: "H = h\<lparr>live := insert a (live h), cell := (cell h)(a := \<lparr>hh_key = key, hashv = 0, item_value = v\<rparr>)\<rparr>"
  shows "\<exists>h' r g ord' C'. replace_ptr a H = Some (h', r) \<and> set_option r \<subseteq> live h \<inter> live h' \<and>
    g = h'\<lparr>live := live h' - set_option r\<rparr> \<and>
    (r = None \<longleftrightarrow> table_map (abs_head h C) key = None) \<and> (\<forall>e\<in>set_option r. hh_key (cell h e) = key) \<and>
    in_memory g ord' C' \<and> table_holds (abs_head g C') (n + 1) \<and> table_map (abs_head g C') = (table_map (abs_head h C))(key \<mapsto> v)"
proof -
  let ?c = "\<lparr>hh_key = key, hashv = 0, item_value = v\<rparr>"
  let ?hc = "h\<lparr>cell := (cell h)(a := ?c)\<rparr>"
  note mc = cells_outside(1) [OF m a, of ?c] and ac = cells_outside(2) [OF m a, of ?c]
  have Hw: "H = widen {a} ?hc" by (simp add: H widen_def)
  have tc: "table_holds (abs_head ?hc C) n" using t(1) ac by simp
  have ok: "head_ok (abs_head ?hc C)" using tc by (simp add: table_holds_def)
  obtain r where r: "find_ptr ?hc key = Some r" using find_ptr_finds(1) [OF mc ok] by blast
  have find: "find_ptr H (hh_key (cell H a)) = Some r" using widen_find [OF r, of "{a}"] by (simp add: Hw)
  show ?thesis
  proof (cases r)
    case None
    have none: "table_map (abs_head h C) key = None" using find_cell(1) [OF mc ok r None] ac by simp
    obtain h' C' where ad: "add_ptr a H = Some h'" "in_memory h' (ord @ [a]) C'"
      "abs_head h' C' = Some (HASH_ADD_STR (abs_head h C) key v)"
      using add_ptr_adds [OF m a t, of key v] unfolding H by blast
    have "replace_ptr a H = Some (h', None)" using find ad(1) None by (simp add: replace_ptr_def)
    moreover have "h'\<lparr>live := live h' - set_option None\<rparr> = h'" by simp
    ultimately show ?thesis using ad(2,3) none add_str [OF t none, of v] by (metis all_not_in_conv empty_subsetI option.set(1))
  next
    case (Some e)
    have e: "e \<in> live h" "hh_key (cell h e) = key" "e \<noteq> a" using find_cell(2) [OF mc ok r Some] a by (auto split: if_splits)
    obtain xs ys where ord: "ord = xs @ e # ys" using e(1) in_memoryD(1) [OF m] by (metis split_list)
    note m1 = mc [unfolded ord]
    obtain h1 h2 C2 where d: "delete_ptr e ?hc = Some h1" "free_ptr e h1 = Some h2" "in_memory h2 (xs @ ys) C2"
      "removed_from e ?hc C h2 C2"
      using delete_ptr_deletes [OF m1 homed_table [OF m1 ok]] by blast
    have h2: "h2 = h1\<lparr>live := live h1 - {e}\<rparr>" "e \<in> live h1" using d(2) by (auto simp: free_ptr_def split: if_splits)
    have lv: "live h2 = live h - {e}" using in_memoryD(1,2) [OF m1] in_memoryD(1) [OF d(3)] by auto
    have c2: "cell h2 = (cell h)(a := ?c)" using d(4) by (simp add: removed_from_def)
    have t2: "table_holds (abs_head h2 C2) n" by (rule removed_holds [OF m1 d(3,4) tc])
    have k2: "table_map (abs_head h2 C2) = (table_map (abs_head h C))(key := None)"
      using removed_map [OF m1 d(3,4) ok] e ac by simp
    have "a \<notin> live h2" using a lv by simp
    from add_ptr_adds [OF d(3) this t2 t(2), of key v] obtain g C' where
      ad: "add_ptr a (h2\<lparr>live := insert a (live h2), cell := (cell h2)(a := ?c)\<rparr>) = Some g"
        "in_memory g (xs @ ys @ [a]) C'" "abs_head g C' = Some (HASH_ADD_STR (abs_head h2 C2) key v)" by auto
    have "h2\<lparr>live := insert a (live h2), cell := (cell h2)(a := ?c)\<rparr> = widen {a} h2"
      using c2 by (simp add: widen_def)
    with ad(1) have "add_ptr a (widen {e} (widen {a} h2)) = Some (widen {e} g)" by (simp add: widen_add)
    moreover have "insert e (insert a (live h1 - {e})) = insert a (live h1)" using h2(2) by auto
    then have "widen {e} (widen {a} h2) = widen {a} h1" using h2(1) by (simp add: widen_def)
    moreover have "delete_ptr e H = Some (widen {a} h1)" unfolding Hw by (rule widen_delete [OF d(1)])
    ultimately have run: "replace_ptr a H = Some (widen {e} g, r)" using find Some by (simp add: replace_ptr_def)
    have "live g = insert a (live h2)" using in_memoryD(1) [OF ad(2)] in_memoryD(1) [OF d(3)] by auto
    then have "e \<notin> live g" using lv e(3) by simp
    then have g: "g = (widen {e} g)\<lparr>live := live (widen {e} g) - set_option r\<rparr>" using Some by (simp add: widen_def)
    have "table_map (abs_head h2 C2) key = None" using k2 by simp
    from add_str [OF t2 t(2) this, of v] have "table_holds (abs_head g C') (n + 1)"
      "table_map (abs_head g C') = (table_map (abs_head h C))(key \<mapsto> v)"
      unfolding ad(3) k2 by simp_all
    moreover have "table_map (abs_head h C) key \<noteq> None" using find_cell(3) [OF mc ok r Some] ac by simp
    ultimately show ?thesis
      using run g ad(2) e Some by (intro exI [of _ "widen {e} g"] exI [of _ r] exI [of _ g]) auto
  qed
qed

end
