(* ===== verification/Uthash_Map.thy ===== *)
theory Uthash_Map
  imports Uthash_Sort Uthash_Order Uthash_Replace
begin

text \<open>
  The hash table of \<open>userspace/inc/uthash.h\<close> as a finite map: any sequence of assignments, deletions,
  additions in order, replacements, sorts and clearings on the pointers does what it does on a map, and
  never leaves the allocated memory.
\<close>

subsection \<open>Sequences of operations\<close>

text \<open>
  What a client does: assign to a key (as \<open>put\<close> of the assembler), look up and delete a key, add a new key
  in order, replace the entry of a key by a new one, sort, clear.  It frees the entries it gets back.
\<close>

datatype 'v table_call = Put string 'v | Delete string | Add_inorder string 'v | Replace string 'v | Sort | Clear

abbreviation new_entry :: "addr \<Rightarrow> string \<Rightarrow> 'v \<Rightarrow> 'v uheap \<Rightarrow> 'v uheap" where
  "new_entry a key v h \<equiv> h\<lparr>live := insert a (live h), cell := (cell h)(a := \<lparr>hh_key = key, hashv = 0, item_value = v\<rparr>)\<rparr>"

fun call_ptr :: "('v item \<Rightarrow> 'v item \<Rightarrow> int) \<Rightarrow> (addr set \<Rightarrow> addr) \<Rightarrow> 'v table_call \<Rightarrow> 'v uheap \<Rightarrow> 'v uheap option" where
  "call_ptr cmpfcn malloc (Put key v) h = put_ptr (malloc (live h)) key v h"
| "call_ptr cmpfcn malloc (Delete key) h =
    do { entry \<leftarrow> find_ptr h key;
         case entry of
           None \<Rightarrow> Some h
         | Some a \<Rightarrow> do { h1 \<leftarrow> delete_ptr a h; free_ptr a h1 } }"
| "call_ptr cmpfcn malloc (Add_inorder key v) h =
    do { entry \<leftarrow> find_ptr h key;
         case entry of
           None \<Rightarrow> (let a = malloc (live h) in add_inorder_ptr cmpfcn a (new_entry a key v h))
         | Some e \<Rightarrow> Some h }"
| "call_ptr cmpfcn malloc (Replace key v) h =
    do { (h1, replaced) \<leftarrow> (let a = malloc (live h) in replace_ptr a (new_entry a key v h));
         case replaced of None \<Rightarrow> Some h1 | Some e \<Rightarrow> free_ptr e h1 }"
| "call_ptr cmpfcn malloc Sort h = HASH_SRT cmpfcn h"
| "call_ptr cmpfcn malloc Clear h = do { h1 \<leftarrow> HASH_CLEAR h; Some (h1\<lparr>live := {}\<rparr>) }"

fun calls_ptr ::
    "('v item \<Rightarrow> 'v item \<Rightarrow> int) \<Rightarrow> (addr set \<Rightarrow> addr) \<Rightarrow> 'v table_call list \<Rightarrow> 'v uheap \<Rightarrow> 'v uheap option" where
  "calls_ptr cmpfcn malloc [] h = Some h"
| "calls_ptr cmpfcn malloc (c # cs) h = do { h' \<leftarrow> call_ptr cmpfcn malloc c h; calls_ptr cmpfcn malloc cs h' }"

fun call_map :: "'v table_call \<Rightarrow> (string \<Rightarrow> 'v option) \<Rightarrow> string \<Rightarrow> 'v option" where
  "call_map (Put key v) m = m(key \<mapsto> v)"
| "call_map (Delete key) m = m(key := None)"
| "call_map (Add_inorder key v) m = (if m key = None then m(key \<mapsto> v) else m)"
| "call_map (Replace key v) m = m(key \<mapsto> v)"
| "call_map Sort m = m"
| "call_map Clear m = Map.empty"

fun puts_of :: "'v table_call list \<Rightarrow> string list" where
  "puts_of [] = []"
| "puts_of (Put key v # cs) = key # puts_of cs"
| "puts_of (Delete key # cs) = puts_of cs"
| "puts_of (Add_inorder key v # cs) = key # puts_of cs"
| "puts_of (Replace key v # cs) = key # puts_of cs"
| "puts_of (Sort # cs) = puts_of cs"
| "puts_of (Clear # cs) = puts_of cs"

text \<open>The memory stands for the map \<open>m\<close> after at most \<open>n\<close> additions.\<close>

definition stands_for :: "'v uheap \<Rightarrow> nat \<Rightarrow> (string \<Rightarrow> 'v option) \<Rightarrow> bool" where
  "stands_for h n m \<longleftrightarrow>
     (\<exists>ord C. in_memory h ord C \<and> table_holds (abs_head h C) n \<and> table_map (abs_head h C) = m)"

lemma stands_for_mono: "stands_for h n m \<Longrightarrow> n \<le> n' \<Longrightarrow> stands_for h n' m"
  unfolding stands_for_def using table_holds_mono by blast

lemma stands_for_ok: "table_holds head n \<Longrightarrow> head_ok head"
  by (simp add: table_holds_def)

lemma put_stands:
  fixes h :: "u64 uheap"
  assumes malloc: "\<And>L. finite L \<Longrightarrow> malloc L \<notin> L" and s: "stands_for h n m" and n: "n < 188" "length key \<le> 63"
  shows "\<exists>h' n'. put_ptr (malloc (live h)) key v h = Some h' \<and> n' \<le> n + 1 \<and> stands_for h' n' (m(key \<mapsto> v))"
proof -
  obtain ord C where m: "in_memory h ord C" "table_holds (abs_head h C) n" "table_map (abs_head h C) = m"
    using s by (auto simp: stands_for_def)
  have a: "malloc (live h) \<notin> live h" using malloc in_memoryD(1) [OF m(1)] by (metis List.finite_set)
  obtain h' ord' C' where p: "put_ptr (malloc (live h)) key v h = Some h'" "in_memory h' ord' C'"
    "abs_head h' C' = put (abs_head h C) key v"
    using put_ptr_puts [OF m(1) a m(2) n(1)] by blast
  have "(if map_option item_value (HASH_FIND_STR (abs_head h C) key) = None
      then Some (HASH_ADD_STR (abs_head h C) key v) else map_option (\<lambda>t. assign_found t key v) (abs_head h C)) = abs_head h' C'"
    unfolding p(3) using n(2) by (simp add: put_def split: option.splits)
  from uthash.put_law [OF m(2) n(1), of key v, unfolded this m(3)]
  obtain n' where "n' \<le> n + 1" "table_holds (abs_head h' C') n'" "table_map (abs_head h' C') = m(key \<mapsto> v)" by blast
  then show ?thesis using p(1,2) by (auto simp: stands_for_def)
qed

lemma delete_stands:
  assumes s: "stands_for h n m"
  shows "\<exists>h'. call_ptr cmpfcn malloc (Delete key) h = Some h' \<and> stands_for h' n (m(key := None))"
proof -
  obtain ord C where m: "in_memory h ord C" "table_holds (abs_head h C) n" "table_map (abs_head h C) = m"
    using s by (auto simp: stands_for_def)
  note ok = stands_for_ok [OF m(2)]
  obtain p where p: "find_ptr h key = Some p" using find_ptr_finds(1) [OF m(1) ok] by blast
  note f = find_cell [OF m(1) ok p]
  show ?thesis
  proof (cases p)
    case None
    then have "m(key := None) = m" using f(1) m(3) by (simp add: fun_eq_iff)
    then show ?thesis using p None s by simp
  next
    case (Some a)
    then have a: "a \<in> set ord" "hh_key (cell h a) = key" using f(2) in_memoryD(1) [OF m(1)] by auto
    then obtain xs ys where ord: "ord = xs @ a # ys" by (meson split_list)
    note m1 = m(1) [unfolded ord]
    obtain h1 h2 C2 where d: "delete_ptr a h = Some h1" "free_ptr a h1 = Some h2" "in_memory h2 (xs @ ys) C2"
      "removed_from a h C h2 C2"
      using delete_ptr_deletes [OF m1 homed_table [OF m1 ok]] by blast
    have "stands_for h2 n (m(key := None))"
      unfolding stands_for_def using d(3) removed_holds [OF m1 d(3,4) m(2)] removed_map [OF m1 d(3,4) ok] m(3) a(2) by auto
    then show ?thesis using p Some d(1,2) by auto
  qed
qed

lemma add_inorder_stands:
  assumes malloc: "\<And>L. finite L \<Longrightarrow> malloc L \<notin> L" and s: "stands_for h n m" and n: "n < 188"
  shows "\<exists>h'. call_ptr cmpfcn malloc (Add_inorder key v) h = Some h' \<and>
    stands_for h' (n + 1) (if m key = None then m(key \<mapsto> v) else m)"
proof -
  obtain ord C where m: "in_memory h ord C" "table_holds (abs_head h C) n" "table_map (abs_head h C) = m"
    using s by (auto simp: stands_for_def)
  note ok = stands_for_ok [OF m(2)]
  have a: "malloc (live h) \<notin> live h" using malloc in_memoryD(1) [OF m(1)] by (metis List.finite_set)
  obtain p where p: "find_ptr h key = Some p" using find_ptr_finds(1) [OF m(1) ok] by blast
  show ?thesis
  proof (cases p)
    case None
    then have k: "table_map (abs_head h C) key = None" by (rule find_cell(1) [OF m(1) ok p])
    obtain h' ord' C' where h': "add_inorder_ptr cmpfcn (malloc (live h)) (new_entry (malloc (live h)) key v h) = Some h'"
      "in_memory h' ord' C'" "abs_head h' C' = Some (HASH_ADD_STR (abs_head h C) key v)"
      using add_inorder_adds [OF m(1) a m(2) n refl, of cmpfcn key v] by blast
    have "stands_for h' (n + 1) (m(key \<mapsto> v))"
      using h'(2) add_str [OF m(2) n k, of v] unfolding stands_for_def h'(3) [symmetric] m(3) by blast
    then show ?thesis using p None h'(1) k m(3) by (simp add: Let_def del: fun_upd_apply)
  next
    case (Some e)
    then have "m key \<noteq> None" using find_cell(3) [OF m(1) ok p] m(3) by blast
    moreover have "stands_for h (n + 1) m" using s stands_for_mono by fastforce
    ultimately show ?thesis using p Some by auto
  qed
qed

lemma replace_stands:
  assumes malloc: "\<And>L. finite L \<Longrightarrow> malloc L \<notin> L" and s: "stands_for h n m" and n: "n < 188"
  shows "\<exists>h'. call_ptr cmpfcn malloc (Replace key v) h = Some h' \<and> stands_for h' (n + 1) (m(key \<mapsto> v))"
proof -
  obtain ord C where m: "in_memory h ord C" "table_holds (abs_head h C) n" "table_map (abs_head h C) = m"
    using s by (auto simp: stands_for_def)
  have a: "malloc (live h) \<notin> live h" using malloc in_memoryD(1) [OF m(1)] by (metis List.finite_set)
  obtain h1 r g ord' C' where r: "replace_ptr (malloc (live h)) (new_entry (malloc (live h)) key v h) = Some (h1, r)"
    "set_option r \<subseteq> live h1" "g = h1\<lparr>live := live h1 - set_option r\<rparr>" "in_memory g ord' C'"
    "table_holds (abs_head g C') (n + 1)" "table_map (abs_head g C') = m(key \<mapsto> v)"
    using replace_ptr_replaces [OF m(1) a m(2) n refl, of key v] unfolding m(3) by blast
  have "(case r of None \<Rightarrow> Some h1 | Some e \<Rightarrow> free_ptr e h1) = Some g"
    using r(2,3) by (cases r) (simp_all add: free_ptr_def)
  moreover have "stands_for g (n + 1) (m(key \<mapsto> v))" unfolding stands_for_def using r(4-6) by blast
  ultimately show ?thesis using r(1) by (simp add: Let_def)
qed

lemma clear_stands:
  assumes s: "stands_for h n m"
  shows "\<exists>h'. call_ptr cmpfcn malloc Clear h = Some h' \<and> stands_for h' n Map.empty"
proof -
  obtain ord C where m: "in_memory h ord C" using s by (auto simp: stands_for_def)
  let ?h = "h\<lparr>tbl := None, labels_head := None, live := {}\<rparr>"
  have "in_memory ?h [] []" "abs_head ?h [] = None" by (simp_all add: in_memory_def abs_head_def)
  then have "stands_for ?h n Map.empty"
    unfolding stands_for_def by (intro exI [of _ "[]"]) (simp add: table_holds_def head_ok_def table_map_def)
  moreover have "call_ptr cmpfcn malloc Clear h = Some ?h"
  proof (cases "tbl h")
    case None
    then show ?thesis using in_memoryD(4,8) [OF m] by (simp add: HASH_CLEAR_def)
  next
    case (Some t)
    then show ?thesis using in_memory_head [OF m Some] by (simp add: HASH_CLEAR_def)
  qed
  ultimately show ?thesis by blast
qed

lemma sort_stands:
  assumes s: "stands_for h n m" and cmp: "\<And>x y. cmpfcn x y \<le> 0 \<longleftrightarrow> key x \<le> (key y :: 'k::linorder)"
  shows "\<exists>h'. call_ptr cmpfcn malloc Sort h = Some h' \<and> stands_for h' n m"
proof -
  obtain ord C where m: "in_memory h ord C" "table_holds (abs_head h C) n" "table_map (abs_head h C) = m"
    using s by (auto simp: stands_for_def)
  obtain h' where h': "HASH_SRT cmpfcn h = Some h'" "in_memory h' (sort_key (\<lambda>a. key (cell h a)) ord) C"
    "abs_head h' C = abs_head h C"
    using HASH_SRT_works [where key = key, OF m(1) cmp table_holds_counts(2) [OF m(1,2)]] by blast
  have "stands_for h' n m" unfolding stands_for_def using h'(2,3) m(2,3) by metis
  then show ?thesis using h'(1) by simp
qed

lemma calls_stand:
  fixes h :: "u64 uheap"
  assumes malloc: "\<And>L. finite L \<Longrightarrow> malloc L \<notin> L" and cmp: "\<And>x y. cmpfcn x y \<le> 0 \<longleftrightarrow> key x \<le> (key y :: 'k::linorder)"
    and "stands_for h n m" "n + length (puts_of cs) \<le> 188" "\<forall>k\<in>set (puts_of cs). length k \<le> 63"
  shows "\<exists>h' n'. calls_ptr cmpfcn malloc cs h = Some h' \<and> stands_for h' n' (fold call_map cs m)"
  using assms(3-5)
proof (induction cs arbitrary: h n m)
  case Nil
  then show ?case by auto
next
  case (Cons c cs)
  show ?case
  proof (cases c)
    case (Put k v)
    obtain h' n' where p: "put_ptr (malloc (live h)) k v h = Some h'" "n' \<le> n + 1" "stands_for h' n' (m(k \<mapsto> v))"
      using put_stands [OF malloc Cons.prems(1), of k v] Cons.prems(2,3) Put by auto
    have "\<exists>h2 n2. calls_ptr cmpfcn malloc cs h' = Some h2 \<and> stands_for h2 n2 (fold call_map cs (m(k \<mapsto> v)))"
      by (rule Cons.IH [OF p(3)]) (use p(2) Cons.prems(2,3) Put in auto)
    then show ?thesis using p(1) Put by (simp del: fun_upd_apply)
  next
    case (Delete k)
    obtain h' where p: "call_ptr cmpfcn malloc (Delete k) h = Some h'" "stands_for h' n (m(k := None))"
      using delete_stands [OF Cons.prems(1)] by blast
    have "\<exists>h2 n2. calls_ptr cmpfcn malloc cs h' = Some h2 \<and> stands_for h2 n2 (fold call_map cs (m(k := None)))"
      by (rule Cons.IH [OF p(2)]) (use Cons.prems(2,3) Delete in auto)
    then show ?thesis using p(1) Delete by (simp del: fun_upd_apply call_ptr.simps)
  next
    case (Add_inorder k v)
    obtain h' where p: "call_ptr cmpfcn malloc (Add_inorder k v) h = Some h'"
      "stands_for h' (n + 1) (if m k = None then m(k \<mapsto> v) else m)"
      using add_inorder_stands [OF malloc Cons.prems(1), of cmpfcn k v] Cons.prems(2) Add_inorder by auto
    have "\<exists>h2 n2. calls_ptr cmpfcn malloc cs h' = Some h2 \<and>
        stands_for h2 n2 (fold call_map cs (if m k = None then m(k \<mapsto> v) else m))"
      by (rule Cons.IH [OF p(2)]) (use Cons.prems(2,3) Add_inorder in auto)
    then show ?thesis using p(1) Add_inorder by (simp del: fun_upd_apply call_ptr.simps)
  next
    case (Replace k v)
    obtain h' where p: "call_ptr cmpfcn malloc (Replace k v) h = Some h'" "stands_for h' (n + 1) (m(k \<mapsto> v))"
      using replace_stands [OF malloc Cons.prems(1), of cmpfcn k v] Cons.prems(2) Replace by auto
    have "\<exists>h2 n2. calls_ptr cmpfcn malloc cs h' = Some h2 \<and> stands_for h2 n2 (fold call_map cs (m(k \<mapsto> v)))"
      by (rule Cons.IH [OF p(2)]) (use Cons.prems(2,3) Replace in auto)
    then show ?thesis using p(1) Replace by (simp del: fun_upd_apply call_ptr.simps)
  next
    case Clear
    obtain h' where p: "call_ptr cmpfcn malloc Clear h = Some h'" "stands_for h' n Map.empty"
      using clear_stands [OF Cons.prems(1)] by blast
    have "\<exists>h2 n2. calls_ptr cmpfcn malloc cs h' = Some h2 \<and> stands_for h2 n2 (fold call_map cs Map.empty)"
      by (rule Cons.IH [OF p(2)]) (use Cons.prems(2,3) Clear in auto)
    then show ?thesis using p(1) Clear by (simp del: call_ptr.simps)
  next
    case Sort
    obtain h' where p: "call_ptr cmpfcn malloc Sort h = Some h'" "stands_for h' n m"
      using sort_stands [where key = key, OF Cons.prems(1) cmp] by blast
    show ?thesis using Cons.IH [OF p(2)] p(1) Cons.prems(2,3) Sort by simp
  qed
qed

lemma card_live:
  assumes m: "in_memory h ord C" and ok: "head_ok (abs_head h C)"
  shows "card (live h) = card (dom (table_map (abs_head h C)))"
proof -
  have "dom (table_map (abs_head h C)) = (\<lambda>x. hh_key (cell h x)) ` live h"
    unfolding map_of_cells [OF m] dom_map_of_conv_image_fst in_memoryD(7) [OF m, symmetric]
    by (simp add: image_image del: set_concat)
  then show ?thesis using keys_distinct [OF m ok] by (simp add: distinct_keys_def card_image)
qed

text \<open>
  C11. The hash table on pointers is a finite map: for any sequence of assignments, additions in order and
  replacements (at most 188 in all, of keys of at most 63 characters), deletions, sorts and clearings, starting
  from no table, whatever addresses the allocator
  returns, every operation returns, the integrity check passes, the count is the size of the map, every
  look-up finds what the map holds, and the clean-up frees everything.
\<close>

theorem table_refines_map:
  fixes v :: u64
  assumes "\<And>L. finite L \<Longrightarrow> malloc L \<notin> L" and "\<And>x y. cmpfcn x y \<le> 0 \<longleftrightarrow> key x \<le> (key y :: 'k::linorder)"
    and "length (puts_of cs) \<le> 188" "\<forall>k\<in>set (puts_of cs). length k \<le> 63"
  shows "\<exists>h h'. calls_ptr cmpfcn malloc cs (no_labels v) = Some h \<and>
    (\<forall>k. get_ptr h k = Some (fold call_map cs Map.empty k)) \<and>
    HASH_CNT h = Some (of_nat (card (dom (fold call_map cs Map.empty)))) \<and> HASH_FSCK h = Some (Inr ()) \<and>
    clean_up h = Some h' \<and> live h' = {} \<and> tbl h' = None \<and> labels_head h' = None"
proof -
  have "table_holds (abs_head (no_labels v) []) 0" by (simp add: no_labels_in_memory(2) empty_table(1))
  moreover have "table_map (abs_head (no_labels v) []) = Map.empty" by (simp add: no_labels_in_memory(2) table_map_def)
  ultimately have st: "stands_for (no_labels v) 0 Map.empty"
    unfolding stands_for_def using no_labels_in_memory(1) by (intro exI [of _ "[]"] conjI; assumption?) simp_all
  have n: "0 + length (puts_of cs) \<le> 188" using assms(3) by simp
  obtain h n where h: "calls_ptr cmpfcn malloc cs (no_labels v) = Some h" "stands_for h n (fold call_map cs Map.empty)"
    using calls_stand [where key = key, OF assms(1,2) st n assms(4)] by blast
  then obtain ord C where m: "in_memory h ord C" "table_holds (abs_head h C) n" "table_map (abs_head h C) = fold call_map cs Map.empty"
    by (auto simp: stands_for_def)
  note ok = stands_for_ok [OF m(2)] and c = table_holds_counts(1) [OF m(1,2)]
  obtain h' where h': "clean_up h = Some h'" "live h' = {}" "tbl h' = None" "labels_head h' = None"
    using clean_up_frees [OF m(1) homed_table [OF m(1) ok]] by blast
  have g: "\<forall>k. get_ptr h k = Some (fold call_map cs Map.empty k)" using get_ptr_gets [OF m(1) ok] unfolding m(3) by blast
  have k: "HASH_CNT h = Some (of_nat (card (dom (fold call_map cs Map.empty))))"
    using count_counts [OF m(1) c] unfolding card_live [OF m(1) ok] m(3) .
  show ?thesis
    by (rule exI [of _ h], rule exI [of _ h'], intro conjI) (fact h(1) g k check_passes [OF m(1) c] h')+
qed

definition demo_calls :: "u64 table_call list" where
  "demo_calls = [Put ''b'' 7, Put ''a'' 3, Sort, Delete ''b'', Add_inorder ''c'' 1, Replace ''a'' 4, Delete ''x'']"

theorem table_refines_map_witness:
  "\<exists>h. calls_ptr (\<lambda>x y. uint (item_value x) - uint (item_value y)) lowest_malloc demo_calls (no_labels 0) = Some h \<and>
    get_ptr h ''a'' = Some (Some 4) \<and> get_ptr h ''b'' = Some None \<and> HASH_CNT h = Some 2"
proof -
  have cmp: "uint (item_value x) - uint (item_value y) \<le> 0 \<longleftrightarrow> item_value x \<le> item_value y" for x y :: "u64 item"
    by (simp add: word_le_def)
  have m: "fold call_map demo_calls Map.empty = [''a'' \<mapsto> 4, ''c'' \<mapsto> 1]"
    by (auto simp: demo_calls_def fun_eq_iff)
  obtain h where "calls_ptr (\<lambda>x y. uint (item_value x) - uint (item_value y)) lowest_malloc demo_calls (no_labels 0) = Some h"
    "\<forall>k. get_ptr h k = Some (fold call_map demo_calls Map.empty k)"
    "HASH_CNT h = Some (of_nat (card (dom (fold call_map demo_calls Map.empty))))"
    using table_refines_map [where key = item_value and cs = demo_calls and v = "0 :: u64", OF lowest_malloc_fresh cmp]
    by (auto simp: demo_calls_def)
  then show ?thesis unfolding m by (intro exI [of _ h]) simp
qed

end
