(* ===== verification/Uthash_Select.thy ===== *)
theory Uthash_Select
  imports Uthash_Check
begin

text \<open>
  Selecting the entries of one table into another through a second handle in each entry (\<open>HASH_SELECT\<close> of
  \<open>userspace/inc/uthash.h\<close>).  The two handles are two memories over the same entries.  The selected table
  is found to hold exactly the entries selected, but its tail stays at the first of them, so that an
  addition afterwards loses the others from the list in application order.
\<close>

subsection \<open>The macro\<close>

text \<open>One selected entry: \<open>last_elt\<close> is the one before it, \<open>d\<close> the memory of the second handles.\<close>

definition select_one :: "addr \<Rightarrow> 'v item \<Rightarrow> addr option \<times> 'v uheap \<Rightarrow> (addr option \<times> 'v uheap) option" where
  "select_one elt e st =
    (case st of (last_elt, d) \<Rightarrow>
      if elt \<notin> live d \<or> \<not> may_follow last_elt d then None
      else
        do { let d1 = d\<lparr>cell := (cell d)(elt := e), app_prev := (app_prev d)(elt := last_elt),
                        app_next := set_at last_elt (Some elt) ((app_next d)(elt := None))\<rparr>;
             let d2 = (if labels_head d1 = None then d1\<lparr>labels_head := Some elt, tbl := Some (make_table_ptr elt)\<rparr>
                       else d1);
             t \<leftarrow> table_of d2;
             d3 \<leftarrow> add_to_bkt_ptr (unat (HASH_TO_BKT (hashv e) (ptr_num_buckets t))) elt d2;
             t3 \<leftarrow> table_of d3;
             Some (Some elt, d3\<lparr>tbl := Some (t3\<lparr>ptr_num_items := ptr_num_items t3 + 1\<rparr>)\<rparr>) })"

partial_function (option) select_chain ::
    "('v item \<Rightarrow> bool) \<Rightarrow> 'v uheap \<Rightarrow> addr option \<Rightarrow> addr option \<times> 'v uheap \<Rightarrow> (addr option \<times> 'v uheap) option" where
  "select_chain cond h src_hh st =
    (case src_hh of
       None \<Rightarrow> Some st
     | Some a \<Rightarrow>
         (if a \<notin> live h then None
          else do { st' \<leftarrow> (if cond (cell h a) then select_one a (cell h a) st else Some st);
                    select_chain cond h (chain_next h a) st' }))"

fun select_buckets ::
    "('v item \<Rightarrow> bool) \<Rightarrow> 'v uheap \<Rightarrow> ptr_table \<Rightarrow> nat list \<Rightarrow> addr option \<times> 'v uheap \<Rightarrow> (addr option \<times> 'v uheap) option" where
  "select_buckets cond h t [] st = Some st"
| "select_buckets cond h t (src_bkt # js) st =
    do { b \<leftarrow> nth_bucket (ptr_buckets t) src_bkt;
         st' \<leftarrow> select_chain cond h (hh_head b) st;
         select_buckets cond h t js st' }"

definition HASH_SELECT :: "('v item \<Rightarrow> bool) \<Rightarrow> 'v uheap \<Rightarrow> 'v uheap \<Rightarrow> 'v uheap option" where
  "HASH_SELECT cond h d =
    (case labels_head h of
       None \<Rightarrow> Some d
     | Some f \<Rightarrow>
         do { t \<leftarrow> table_of h;
              (last_elt, d') \<leftarrow> select_buckets cond h t [0..<unat (ptr_num_buckets t)] (None, d);
              Some d' })"

subsection \<open>One entry\<close>

text \<open>
  The second handles of the entries \<open>S\<close> are in the memory \<open>d\<close> in this order, in the chains \<open>C\<close>; the tail is the
  first of them.
\<close>

definition selecting :: "'v uheap \<Rightarrow> addr list \<Rightarrow> 'v uheap \<Rightarrow> addr list list \<Rightarrow> bool" where
  "selecting h S d C \<longleftrightarrow> set S \<subseteq> live d \<and> distinct S \<and> dseg (app_next d) (app_prev d) None S None \<and>
     labels_head d = first_of S None \<and> mset (concat C) = mset S \<and> (\<forall>x\<in>set S. cell d x = cell h x) \<and>
     (S \<noteq> [] \<longrightarrow> (\<exists>t. tbl d = Some t \<and> ptr_tail t = Some (hd S) \<and> linked d (ptr_buckets t) C \<and>
        table_ok (abs_table d t C) \<and> grown (abs_table d t C) (length S)))"

lemma selectingD:
  assumes "selecting h S d C"
  shows "set S \<subseteq> live d" "distinct S" "dseg (app_next d) (app_prev d) None S None" "labels_head d = first_of S None"
    "mset (concat C) = mset S" "x \<in> set S \<Longrightarrow> cell d x = cell h x" "set (concat C) = set S" "distinct (concat C)"
    "S \<noteq> [] \<Longrightarrow> \<exists>t. tbl d = Some t \<and> ptr_tail t = Some (hd S) \<and> linked d (ptr_buckets t) C \<and>
        table_ok (abs_table d t C) \<and> grown (abs_table d t C) (length S)"
proof -
  show "set S \<subseteq> live d" "distinct S" "dseg (app_next d) (app_prev d) None S None" "labels_head d = first_of S None"
    "mset (concat C) = mset S" "x \<in> set S \<Longrightarrow> cell d x = cell h x"
    "S \<noteq> [] \<Longrightarrow> \<exists>t. tbl d = Some t \<and> ptr_tail t = Some (hd S) \<and> linked d (ptr_buckets t) C \<and>
        table_ok (abs_table d t C) \<and> grown (abs_table d t C) (length S)"
    using assms by (simp_all add: selecting_def)
  then show "set (concat C) = set S" "distinct (concat C)"
    using distinct_mset [of "concat C" S] by (metis set_mset_mset, simp)
qed

text \<open>A new last element of a list whose last forward pointer is written before the new element's.\<close>

lemma dseg_extend:
  assumes "dseg nx pv None S None" "distinct S" "a \<notin> set S"
  shows "dseg (set_at (last_of None S) (Some a) (nx(a := None))) (pv(a := last_of None S)) None (S @ [a]) None"
proof (cases "S = []")
  case False
  then show ?thesis using dseg_snoc [OF assms False] by (simp add: last_of_nonempty)
qed simp

lemma table_map_cells:
  assumes "length (ptr_buckets t) = length C"
  shows "table_map (Some (abs_table h t C)) = map_of (map (\<lambda>x. pair_of (cell h x)) (concat C))"
  using concat_abs_buckets [OF assms, of h] by (simp add: table_map_def all_items_def o_def)

lemma select_one_selects:
  assumes s: "selecting h S d C" and a: "a \<in> live d" "a \<notin> set S" and n: "length S < 188"
    and key: "hh_key (cell h a) \<notin> (\<lambda>x. hh_key (cell h x)) ` set S" "hashv (cell h a) = HASH_JEN (hh_key (cell h a))"
  shows "\<exists>d' C'. select_one a (cell h a) (last_of None S, d) = Some (Some a, d') \<and> selecting h (S @ [a]) d' C' \<and> live d' = live d"
proof -
  let ?e = "cell h a"
  note sd = selectingD [OF s]
  let ?d1 = "d\<lparr>cell := (cell d)(a := ?e), app_prev := (app_prev d)(a := last_of None S),
                        app_next := set_at (last_of None S) (Some a) ((app_next d)(a := None))\<rparr>"
  define d2 where "d2 = (if labels_head ?d1 = None then ?d1\<lparr>labels_head := Some a, tbl := Some (make_table_ptr a)\<rparr> else ?d1)"
  have app: "dseg (app_next d2) (app_prev d2) None (S @ [a]) None"
    using dseg_extend [OF sd(3,2) a(2)] by (simp add: d2_def)
  have hd2: "labels_head d2 = first_of (S @ [a]) None" using sd(4) by (cases S) (simp_all add: d2_def)
  have lv: "live d2 = live d" and c2: "cell d2 = (cell d)(a := ?e)" by (simp_all add: d2_def)
  obtain t C2 where t: "tbl d2 = Some t" "table_of d2 = Some t" "ptr_tail t = Some (hd (S @ [a]))"
    "linked d2 (ptr_buckets t) C2" "mset (concat C2) = mset S" "table_ok (abs_table d2 t C2)"
    "grown (abs_table d2 t C2) (length S)"
  proof (cases "S = []")
    case True
    have "linked d2 (ptr_buckets (make_table_ptr a)) (replicate 32 [])"
      by (simp add: make_table_ptr_def linked_empty(1))
    moreover have "abs_table d2 (make_table_ptr a) (replicate 32 []) = HASH_MAKE_TABLE"
      by (simp add: abs_table_def make_table_ptr_def HASH_MAKE_TABLE_def linked_empty(2))
    ultimately show thesis
      using True sd(4) a(1) make_table_ok [where 'a = 'a and a = 0]
      by (intro that [of "make_table_ptr a" "replicate 32 []"]) (simp_all add: table_of_def allocated_def d2_def, simp add: make_table_ptr_def)
  next
    case False
    obtain t where t: "tbl d = Some t" "ptr_tail t = Some (hd S)" "linked d (ptr_buckets t) C"
      "table_ok (abs_table d t C)" "grown (abs_table d t C) (length S)" using sd(9) [OF False] by blast
    have h1: "labels_head d = Some (hd S)" "hd S \<in> live d" using sd(1,4) False by (auto simp: first_of_nonempty)
    have d2: "d2 = ?d1" using h1(1) by (simp add: d2_def)
    have ab: "abs_buckets ?d1 (ptr_buckets t) C = abs_buckets d (ptr_buckets t) C"
      using linkedD(1) [OF t(3)] a(2) sd(7) by (intro abs_buckets_frame) auto
    then have "abs_table ?d1 t C = abs_table d t C" by (simp add: abs_table_def)
    then show thesis
      using False t h1 sd(5) by (intro that [of t C]) (simp_all add: d2 table_of_def allocated_def)
  qed
  let ?u = "abs_table d2 t C2"
  let ?i = "unat (HASH_TO_BKT (hashv ?e) (ptr_num_buckets t))"
  have len: "length (ptr_buckets t) = length C2" by (rule linkedD(1) [OF t(4)])
  have set2: "set (concat C2) = set S" using t(5) by (metis set_mset_mset)
  have i: "?i < length C2" using table_ok_bucket [OF t(6), of "hashv ?e"] len by (simp add: abs_buckets_length)
  have d: "distinct (a # concat C2)" "set (a # concat C2) \<subseteq> live d2"
    using distinct_mset [OF t(5)] sd(1,2) set2 a lv by auto
  have "unat (ptr_log2 t) + 1 < 32"
    if "ptr_count (ptr_buckets t ! ?i) + 1 \<ge> (ptr_mult (ptr_buckets t ! ?i) + 1) * 10"
    using growth_room [OF t(6,7) n, of ?i] that i len by (simp add: abs_buckets_nth abs_buckets_length abs_bucket_def)
  moreover have "ptr_num_buckets t = 2 ^ unat (ptr_log2 t)" using table_okD(2) [OF t(6)] by simp
  ultimately obtain g t' C' where ad: "add_to_bkt_ptr ?i a d2 = Some (g\<lparr>tbl := Some t'\<rparr>)" "same_but_chains d2 g"
    "linked g (ptr_buckets t') C'" "mset (concat C') = add_mset a (mset (concat C2))" "ptr_tail t' = ptr_tail t"
    "abs_table g t' C' = HASH_ADD_TO_BKT ?i (cell d2 a) ?u"
    using add_to_bkt_ptr_adds [OF t(2,4) i d, of "unat (ptr_log2 t)"] by blast
  have none: "table_map (Some ?u) (hh_key ?e) = None"
  proof -
    have "cell d2 x = cell h x" if "x \<in> set S" for x using sd(6) [OF that] a(2) that by (auto simp: c2)
    then show ?thesis
      using key(1) set2 by (force simp: table_map_cells [OF len] map_of_eq_None_iff simp del: set_concat)
  qed
  have nu: "unat (num_items ?u) \<le> 188" using grownD(1,2) [OF t(7)] n by simp
  have uu: "?u\<lparr>num_items := num_items ?u\<rparr> = ?u" by simp
  have "table_ok (HASH_ADD_TO_BKT ?i ?e ?u) \<and> num_items (HASH_ADD_TO_BKT ?i ?e ?u) = num_items ?u \<and>
      grown (HASH_ADD_TO_BKT ?i ?e ?u\<lparr>num_items := num_items ?u + 1\<rparr>) (length S + 1)"
    using add_to_bkt_counting [OF t(6,7) n nu key(2) none, of ?i, unfolded uu] by simp
  then
  have u: "table_ok (abs_table g t' C')" "num_items (abs_table g t' C') = ptr_num_items t"
    "grown (abs_table g t' C'\<lparr>num_items := ptr_num_items t + 1\<rparr>) (length S + 1)"
    unfolding ad(6) c2 by simp_all
  let ?t3 = "t'\<lparr>ptr_num_items := ptr_num_items t' + 1\<rparr>"
  let ?d' = "g\<lparr>tbl := Some ?t3\<rparr>"
  have at: "abs_table ?d' ?t3 C' = abs_table g t' C'\<lparr>num_items := ptr_num_items t + 1\<rparr>"
    using u(2) by (simp add: abs_table_def abs_buckets_def abs_bucket_def)
  have fr: "live g = live d" "cell g = (cell d)(a := ?e)" "app_next g = app_next d2" "app_prev g = app_prev d2"
    "labels_head g = labels_head d2" using ad(2) lv c2 by (simp_all only: same_but_chains_def)
  have "table_of (g\<lparr>tbl := Some t'\<rparr>) = Some t'"
    using t(2) fr(1,5) lv unfolding table_of_def allocated_def by (auto split: option.splits if_splits)
  moreover have "may_follow (last_of None S) d"
    using sd(1) last_in_set [of S] by (auto simp: may_follow_def last_of_def)
  ultimately have "select_one a ?e (last_of None S, d) = Some (Some a, ?d')"
    using a(1) t(2) ad(1) unfolding select_one_def Let_def d2_def by simp
  moreover have "selecting h (S @ [a]) ?d' C'"
    unfolding selecting_def
  proof (intro conjI impI)
    show "set (S @ [a]) \<subseteq> live ?d'" using sd(1) a(1) fr(1) by simp
    show "distinct (S @ [a])" using sd(2) a(2) by simp
    show "dseg (app_next ?d') (app_prev ?d') None (S @ [a]) None" using app fr(3,4) by simp
    show "labels_head ?d' = first_of (S @ [a]) None" using hd2 fr(5) by simp
    show "mset (concat C') = mset (S @ [a])" using ad(4) t(5) by simp
    show "\<forall>x\<in>set (S @ [a]). cell ?d' x = cell h x" using sd(6) fr(2) by simp
    show "\<exists>t. tbl ?d' = Some t \<and> ptr_tail t = Some (hd (S @ [a])) \<and> linked ?d' (ptr_buckets t) C' \<and>
        table_ok (abs_table ?d' t C') \<and> grown (abs_table ?d' t C') (length (S @ [a]))"
      using ad(3,5) t(3) u at by (intro exI [of _ ?t3]) (simp add: num_items_update_simps)
  qed
  ultimately show ?thesis using fr(1) by (intro exI [of _ ?d'] exI [of _ C']) simp
qed

subsection \<open>All of them\<close>

lemma jen_hashed:
  assumes m: "in_memory h ord C" and ok: "head_ok (abs_head h C)" and x: "x \<in> live h"
  shows "hashv (cell h x) = HASH_JEN (hh_key (cell h x))"
proof -
  have xC: "x \<in> set (concat C)" using x in_memoryD(7) [OF m] by simp
  then obtain t where t: "tbl h = Some t" using in_memoryD(5,8) [OF m] by fastforce
  have l: "length (ptr_buckets t) = length C" by (rule home_bound(2) [OF m t])
  have p: "placed (abs_buckets h (ptr_buckets t) C) (ptr_num_buckets t)"
    using ok t table_okD(1) by (fastforce simp: head_ok_def abs_head_def)
  obtain i where i: "i < length C" "x \<in> set (C ! i)" using xC by (auto simp: in_set_conv_nth) (metis in_set_conv_nth)
  then show ?thesis
    using placedD [OF p, of i "cell h x"] l by (simp add: abs_buckets_length abs_buckets_nth abs_bucket_def)
qed

text \<open>What the source must be: keys that differ, the hashes of the keys.\<close>

definition source_ok :: "'v uheap \<Rightarrow> bool" where
  "source_ok h \<longleftrightarrow> distinct_keys h (live h) \<and> (\<forall>x\<in>live h. hashv (cell h x) = HASH_JEN (hh_key (cell h x)))"

lemma select_chain_selects:
  assumes src: "source_ok h" "live h \<subseteq> live d"
    and "selecting h S d C" "path (chain_next h) xs" "distinct (S @ xs)" "set (S @ xs) \<subseteq> live h" "length (S @ xs) \<le> 188"
  shows "\<exists>d' C'. select_chain cond h (first_of xs None) (last_of None S, d) =
      Some (last_of None (S @ filter (\<lambda>a. cond (cell h a)) xs), d') \<and>
    selecting h (S @ filter (\<lambda>a. cond (cell h a)) xs) d' C' \<and> live d' = live d"
  using assms(2-7)
proof (induction xs arbitrary: S d C)
  case Nil
  then show ?case by (subst select_chain.simps) auto
next
  case (Cons a xs)
  show ?case
  proof (cases "cond (cell h a)")
    case False
    then show ?thesis using Cons.IH [OF Cons.prems(1,2)] Cons.prems(3-6) by (subst select_chain.simps) simp
  next
    case True
    have k: "hh_key (cell h a) \<notin> (\<lambda>x. hh_key (cell h x)) ` set S"
    proof
      assume "hh_key (cell h a) \<in> (\<lambda>x. hh_key (cell h x)) ` set S"
      then obtain x where "x \<in> set S" "hh_key (cell h a) = hh_key (cell h x)" by blast
      then have "a = x" using src(1) Cons.prems(5) by (auto simp: source_ok_def distinct_keys_def dest: inj_onD)
      then show False using \<open>x \<in> set S\<close> Cons.prems(4) by simp
    qed
    have hv: "hashv (cell h a) = HASH_JEN (hh_key (cell h a))" using src(1) Cons.prems(5) by (simp add: source_ok_def)
    have "a \<in> live d" "a \<notin> set S" "length S < 188" using Cons.prems(1,4-6) by auto
    from select_one_selects [OF Cons.prems(2) this k hv] obtain d' C' where o: "select_one a (cell h a) (last_of None S, d) = Some (Some a, d')"
      "selecting h (S @ [a]) d' C'" "live d' = live d" by blast
    have pre: "live h \<subseteq> live d'" "path (chain_next h) xs" "distinct ((S @ [a]) @ xs)" "set ((S @ [a]) @ xs) \<subseteq> live h"
      "length ((S @ [a]) @ xs) \<le> 188" using Cons.prems o(3) by simp_all
    from Cons.IH [OF pre(1) o(2) pre(2-5)] obtain d2 C2 where
      r: "select_chain cond h (first_of xs None) (last_of None (S @ [a]), d') =
        Some (last_of None ((S @ [a]) @ filter (\<lambda>a. cond (cell h a)) xs), d2)"
      "selecting h ((S @ [a]) @ filter (\<lambda>a. cond (cell h a)) xs) d2 C2" "live d2 = live d'" by blast
    have path: "chain_next h a = first_of xs None" using Cons.prems(3) by simp
    have "last_of None (S @ [a]) = Some a" by (simp add: last_of_nonempty)
    then have "select_chain cond h (first_of (a # xs) None) (last_of None S, d) =
        select_chain cond h (first_of xs None) (last_of None (S @ [a]), d')"
      using o(1) True Cons.prems(5) path by (subst select_chain.simps) simp
    then show ?thesis using r o(3) True by (intro exI [of _ d2] exI [of _ C2]) simp
  qed
qed

lemma select_buckets_selects:
  assumes src: "source_ok h" and l: "linked h (ptr_buckets t) C0" and js: "\<forall>j\<in>set js. j < length C0"
    and "live h \<subseteq> live d" "selecting h S d C" "distinct (S @ concat (map ((!) C0) js))"
    and "set (S @ concat (map ((!) C0) js)) \<subseteq> live h" "length (S @ concat (map ((!) C0) js)) \<le> 188"
  shows "\<exists>d' C'. select_buckets cond h t js (last_of None S, d) =
      Some (last_of None (S @ filter (\<lambda>a. cond (cell h a)) (concat (map ((!) C0) js))), d') \<and>
    selecting h (S @ filter (\<lambda>a. cond (cell h a)) (concat (map ((!) C0) js))) d' C' \<and> live d' = live d"
  using assms(3-8)
proof (induction js arbitrary: S d C)
  case Nil
  then show ?case by auto
next
  case (Cons j js)
  let ?f = "filter (\<lambda>a. cond (cell h a))"
  have j: "j < length C0" using Cons.prems(1) by simp
  have b: "nth_bucket (ptr_buckets t) j = Some (ptr_buckets t ! j)" "hh_head (ptr_buckets t ! j) = first_of (C0 ! j) None"
    using linkedD(1,2) [OF l] j by (simp_all add: nth_bucket_def)
  have "path (chain_next h) (C0 ! j)" by (rule dseg_path [OF linkedD(3) [OF l j]])
  moreover have "distinct (S @ C0 ! j)" "set (S @ C0 ! j) \<subseteq> live h" "length (S @ C0 ! j) \<le> 188"
    using Cons.prems(4-6) by auto
  ultimately obtain d' C' where c: "select_chain cond h (first_of (C0 ! j) None) (last_of None S, d) =
      Some (last_of None (S @ ?f (C0 ! j)), d')" "selecting h (S @ ?f (C0 ! j)) d' C'" "live d' = live d"
    using select_chain_selects [OF src Cons.prems(2,3)] by blast
  let ?S = "S @ ?f (C0 ! j)" and ?r = "concat (map ((!) C0) js)"
  have "set ?S \<subseteq> set (S @ C0 ! j)" by auto
  then have p: "distinct (?S @ ?r)" "set (?S @ ?r) \<subseteq> live h" "length (?S @ ?r) \<le> 188"
    using Cons.prems(4-6) length_filter_le [of "\<lambda>a. cond (cell h a)" "C0 ! j"] by (auto simp del: length_filter_le)
  have "\<forall>j\<in>set js. j < length C0" "live h \<subseteq> live d'" using Cons.prems(1,2) c(3) by simp_all
  from Cons.IH [OF this c(2) p] obtain d2 C2 where
    r: "select_buckets cond h t js (last_of None ?S, d') = Some (last_of None (?S @ ?f ?r), d2)"
    "selecting h (?S @ ?f ?r) d2 C2" "live d2 = live d'" by blast
  then show ?case using b c by (intro exI [of _ d2] exI [of _ C2]) simp
qed

lemma HASH_SELECT_selects:
  assumes m: "in_memory h ord C" and ok: "head_ok (abs_head h C)" and n: "length ord \<le> 188"
    and d: "labels_head d = None" "live h \<subseteq> live d"
  shows "\<exists>d' C'. HASH_SELECT cond h d = Some d' \<and> selecting h (filter (\<lambda>a. cond (cell h a)) (concat C)) d' C' \<and>
    live d' = live d"
proof (cases "tbl h")
  case None
  then have "labels_head h = None" "concat C = []" using in_memoryD(4,5,8) [OF m] by simp_all
  then have f: "filter (\<lambda>a. cond (cell h a)) (concat C) = []" and r: "HASH_SELECT cond h d = Some d"
    by (simp_all only: filter.simps(1)) (simp add: HASH_SELECT_def)
  show ?thesis
    unfolding f r using d(1) by (intro exI [of _ d] exI [of _ "[]"]) (simp add: selecting_def)
next
  case (Some t)
  note hd = in_memory_head [OF m Some]
  have l: "linked h (ptr_buckets t) C" using in_memoryD(9) [OF m Some] by simp
  have "table_ok (abs_table h t C)" using ok Some by (simp add: head_ok_def abs_head_def)
  then have nb: "unat (ptr_num_buckets t) = length C"
    using table_okD(1) linkedD(1) [OF l] by (fastforce simp: placed_def abs_buckets_length)
  have src: "source_ok h" using keys_distinct [OF m ok] jen_hashed [OF m ok] by (simp add: source_ok_def)
  have "length (concat C) = length ord" using in_memoryD(5) [OF m] by (metis size_mset)
  moreover have "map ((!) C) [0..<length C] = C" by (rule map_nth)
  moreover have "selecting h [] d []" using d(1) by (simp add: selecting_def)
  ultimately obtain d' C' where "select_buckets cond h t [0..<length C] (last_of None [], d) =
      Some (last_of None ([] @ filter (\<lambda>a. cond (cell h a)) (concat C)), d')"
    "selecting h ([] @ filter (\<lambda>a. cond (cell h a)) (concat C)) d' C'" "live d' = live d"
    using select_buckets_selects [OF src l _ d(2), of "[0..<length C]" "[]" "[]" cond] in_memoryD(6,7) [OF m] n
    by (auto simp del: length_concat set_concat)
  then show ?thesis using hd(1,3) nb by (auto simp: HASH_SELECT_def)
qed

subsection \<open>The selected table\<close>

lemma selecting_consistent:
  assumes s: "selecting h S d C" and t: "tbl d = Some t" "S \<noteq> []"
  shows "table_of d = Some t" "consistent d t S C"
proof -
  note sd = selectingD [OF s]
  have tt: "linked d (ptr_buckets t) C" "table_ok (abs_table d t C)" "grown (abs_table d t C) (length S)"
    using sd(9) [OF t(2)] t(1) by auto
  have "hd S \<in> live d" using sd(1) t(2) by auto
  then show "table_of d = Some t" using sd(4) t by (simp add: table_of_def allocated_def first_of_nonempty)
  have len: "length (concat C) = length S" using sd(5) by (metis size_mset)
  show "consistent d t S C"
    using grown_counts(1-3) [OF linkedD(1) [OF tt(1)] tt(3,2)] sd(1,3,4,7) tt(1) linkedD(1) [OF tt(1)] len
    unfolding consistent_def by (simp del: length_concat set_concat)
qed

lemma selecting_checked:
  assumes s: "selecting h S d C"
  shows "HASH_FSCK d = Some (Inr ())"
proof (cases "S = []")
  case True
  then show ?thesis using selectingD(4) [OF s] by (simp add: HASH_FSCK_def)
next
  case False
  then obtain t where "tbl d = Some t" using selectingD(9) [OF s] by blast
  from selecting_consistent [OF s this False] show ?thesis using HASH_FSCK_accepts [of d] by blast
qed

lemma selecting_get:
  assumes s: "selecting h S d C" and inj: "inj_on (\<lambda>x. hh_key (cell h x)) (set S)"
  shows "get_ptr d key = Some v \<longleftrightarrow>
    v = map_of (map (\<lambda>x. pair_of (cell h x)) S) key"
proof (cases "S = []")
  case True
  then show ?thesis using selectingD(4) [OF s] by (auto simp: get_ptr_def find_ptr_def)
next
  case False
  note sd = selectingD [OF s]
  obtain t where t: "tbl d = Some t" "linked d (ptr_buckets t) C" "table_ok (abs_table d t C)" using sd(9) [OF False] by blast
  have "set (concat C) \<subseteq> live d" using sd(1,7) by simp
  from get_ptr_linked [OF _ selecting_consistent(1) [OF s t(1) False] t(2) this t(3), of "hd S" key]
  have g: "get_ptr d key = Some (map_of (map (\<lambda>x. pair_of (cell d x)) (concat C)) key)"
    using sd(4) False by (simp add: first_of_nonempty table_map_cells [OF linkedD(1) [OF t(2)]])
  have c: "map (\<lambda>x. pair_of (cell d x)) (concat C) = map (\<lambda>x. pair_of (cell h x)) (concat C)"
    using sd(6,7) by (intro map_cong refl) simp
  have "map_of (map (\<lambda>x. pair_of (cell h x)) (concat C)) key = Some w \<longleftrightarrow> map_of (map (\<lambda>x. pair_of (cell h x)) S) key = Some w" for w
    using map_of_cell [of "cell h" "concat C" key w] map_of_cell [of "cell h" S key w] inj sd(7) by (simp del: set_concat)
  then have "map_of (map (\<lambda>x. pair_of (cell h x)) (concat C)) key = map_of (map (\<lambda>x. pair_of (cell h x)) S) key"
    by (rule same_somes)
  then show ?thesis using g unfolding c by auto
qed

text \<open>
  Selecting from a table in memory into no table: the new one passes the integrity check, counts the entries
  that satisfy the condition, and a look-up finds an entry of the source exactly when it satisfies it.
\<close>

lemma HASH_SELECT_correct:
  assumes m: "in_memory h ord C" and ok: "head_ok (abs_head h C)" and n: "length ord \<le> 188"
    and d: "labels_head d = None" "live h \<subseteq> live d"
  shows "\<exists>d'. HASH_SELECT cond h d = Some d' \<and> HASH_FSCK d' = Some (Inr ()) \<and>
    HASH_CNT d' = Some (of_nat (length (filter (\<lambda>a. cond (cell h a)) ord))) \<and>
    (\<forall>a\<in>live h. get_ptr d' (hh_key (cell h a)) = Some (if cond (cell h a) then Some (item_value (cell h a)) else None))"
proof -
  let ?S = "filter (\<lambda>a. cond (cell h a)) (concat C)"
  obtain d' C' where r: "HASH_SELECT cond h d = Some d'" "selecting h ?S d' C'"
    using HASH_SELECT_selects [OF m ok n d] by blast
  have i: "inj_on (\<lambda>x. hh_key (cell h x)) (live h)" using keys_distinct [OF m ok] by (simp add: distinct_keys_def)
  have S: "set ?S = {a \<in> live h. cond (cell h a)}" using in_memoryD(7) [OF m] by (auto simp del: set_concat)
  have iS: "inj_on (\<lambda>x. hh_key (cell h x)) (set ?S)" using inj_on_subset [OF i] S by blast
  have "mset ?S = mset (filter (\<lambda>a. cond (cell h a)) ord)" using in_memoryD(5) [OF m] by simp
  then have len: "length ?S = length (filter (\<lambda>a. cond (cell h a)) ord)" by (metis size_mset)
  have cnt: "HASH_CNT d' = Some (of_nat (length ?S))"
  proof (cases "?S = []")
    case True
    then show ?thesis using selectingD(4) [OF r(2)] by (simp only: HASH_CNT_def) simp
  next
    case False
    then obtain t where t: "tbl d' = Some t" using selectingD(9) [OF r(2)] by blast
    from selecting_consistent [OF r(2) t False] show ?thesis
      by (simp add: HASH_CNT_def consistent_def first_of_nonempty [OF False])
  qed
  have "get_ptr d' (hh_key (cell h a)) = Some (if cond (cell h a) then Some (item_value (cell h a)) else None)"
    if a: "a \<in> live h" for a
  proof -
    have same: "x = a" if "x \<in> set ?S" "hh_key (cell h x) = hh_key (cell h a)" for x
      using that S a inj_onD [OF i, of x a] by auto
    have mem: "a \<in> set ?S \<longleftrightarrow> cond (cell h a)" unfolding S using a by simp
    have "map_of (map (\<lambda>x. pair_of (cell h x)) ?S) (hh_key (cell h a)) = Some w \<longleftrightarrow> cond (cell h a) \<and> item_value (cell h a) = w" for w
      unfolding map_of_cell [OF iS] using same mem by blast
    then have "map_of (map (\<lambda>x. pair_of (cell h x)) ?S) (hh_key (cell h a)) =
        (if cond (cell h a) then Some (item_value (cell h a)) else None)"
      by (intro same_somes) simp
    then show ?thesis unfolding selecting_get [OF r(2) iS] by (rule sym)
  qed
  then show ?thesis using r selecting_checked [OF r(2)] cnt len by auto
qed

text \<open>
  The tail of the selected table was never moved from its first entry, so that the next addition makes the
  new entry the second of the list in application order: the others are no longer reached by it, and the
  integrity check fails.
\<close>

lemma selecting_then_add:
  assumes s: "selecting h S d C" and a: "a \<in> live d" "a \<notin> set S" and n: "2 \<le> length S" "length S < 188"
  shows "\<exists>d'. add_ptr a d = Some d' \<and> labels_head d' = Some (hd S) \<and>
    dseg (app_next d') (app_prev d') None [hd S, a] None \<and> HASH_FSCK d' \<noteq> Some (Inr ())"
proof -
  note sd = selectingD [OF s]
  have ne: "S \<noteq> []" using n(1) by auto
  obtain t where t: "tbl d = Some t" "ptr_tail t = Some (hd S)" "linked d (ptr_buckets t) C"
    "table_ok (abs_table d t C)" "grown (abs_table d t C) (length S)" using sd(9) [OF ne] by blast
  have f: "labels_head d = Some (hd S)" "hd S \<in> live d" "hd S \<noteq> a" using sd(1,4) ne a(2) by (auto simp: first_of_nonempty)
  have pv: "app_prev d (hd S) = None" using sd(3) ne by (cases S) simp_all
  define hv where "hv = HASH_JEN (hh_key (cell d a))"
  define t2 where "t2 = t\<lparr>ptr_tail := Some a, ptr_num_items := ptr_num_items t + 1\<rparr>"
  define d2 where "d2 = d\<lparr>cell := (cell d)(a := (cell d a)\<lparr>hashv := hv\<rparr>), app_next := (app_next d)(a := None, hd S := Some a),
    app_prev := (app_prev d)(a := Some (hd S)), tbl := Some t2\<rparr>"
  let ?i = "unat (HASH_TO_BKT hv (ptr_num_buckets t))"
  have d2: "table_of d2 = Some t2" "ptr_buckets t2 = ptr_buckets t" "linked d2 (ptr_buckets t) C" "live d2 = live d"
    "ptr_num_buckets t2 = ptr_num_buckets t"
    using f t(3) by (simp_all add: d2_def t2_def table_of_def allocated_def)
  have len: "length (ptr_buckets t) = length C" by (rule linkedD(1) [OF t(3)])
  have i: "?i < length C" using table_ok_bucket [OF t(4), of hv] len by (simp add: abs_buckets_length)
  have dl: "distinct (a # concat C)" "set (a # concat C) \<subseteq> live d2"
    using sd(1,7,8) a d2(4) by auto
  have "unat (ptr_log2 t) + 1 < 32"
    if "ptr_count (ptr_buckets t ! ?i) + 1 \<ge> (ptr_mult (ptr_buckets t ! ?i) + 1) * 10"
    using growth_room [OF t(4,5) n(2), of ?i] that i len by (simp add: abs_buckets_nth abs_buckets_length abs_bucket_def)
  moreover have "ptr_num_buckets t = 2 ^ unat (ptr_log2 t)" using table_okD(2) [OF t(4)] by simp
  ultimately obtain g t' C' where ad: "add_to_bkt_ptr ?i a d2 = Some (g\<lparr>tbl := Some t'\<rparr>)" "same_but_chains d2 g"
    "abs_table g t' C' = HASH_ADD_TO_BKT ?i (cell d2 a) (abs_table d2 t2 C)"
    using add_to_bkt_ptr_adds [OF d2(1), unfolded d2(2,5), OF d2(3) i dl, of "unat (ptr_log2 t)"] by blast
  let ?d' = "g\<lparr>tbl := Some t'\<rparr>"
  have "add_ptr a d = add_to_bkt_ptr ?i a d2"
    using f t(1,2) by (simp add: add_ptr_def enter_list_ptr_def append_list_ptr_def add_to_table_ptr_def Let_def hv_def
        d2_def t2_def table_of_def allocated_def)
  then have run: "add_ptr a d = Some ?d'" using ad(1) by simp
  have fr: "labels_head ?d' = Some (hd S)" "app_next ?d' = app_next d2" "app_prev ?d' = app_prev d2"
    using ad(2) f(1) by (simp_all add: same_but_chains_def d2_def)
  have app: "dseg (app_next ?d') (app_prev ?d') None [hd S, a] None"
    using f(3) pv unfolding fr by (simp add: d2_def)
  have "ptr_num_items t' = ptr_num_items t + 1"
    using arg_cong [OF ad(3), of num_items] by (simp add: num_items_add_to_bkt abs_table_def t2_def)
  moreover have "ptr_num_items t = of_nat (length S)"
    using selecting_consistent(2) [OF s t(1) ne] by (simp add: consistent_def)
  ultimately have "ptr_num_items t' = of_nat (length S + 1)" by simp
  then have items: "unat (ptr_num_items t') = length S + 1" using n(2) by (simp add: unat_of_nat take_bit_nat_eq_self del: of_nat_add of_nat_Suc)
  have "HASH_FSCK ?d' \<noteq> Some (Inr ())"
  proof
    assume "HASH_FSCK ?d' = Some (Inr ())"
    then obtain u ord D where c: "table_of ?d' = Some u" "consistent ?d' u ord D"
      unfolding HASH_FSCK_accepts using fr(1) by auto
    have "u = t'" using c(1) by (auto simp: table_of_def split: bind_splits)
    have o: "dseg (app_next ?d') (app_prev ?d') None ord None" "labels_head ?d' = first_of ord None"
      using c(2) unfolding consistent_def by blast+
    have "ord = [hd S, a]" using dseg_unique [OF o(1) app] o(2) fr(1) by simp
    then have "unat (ptr_num_items t') = 2" using c(2) \<open>u = t'\<close> by (simp add: consistent_def)
    then show False using items n(1) by simp
  qed
  then show ?thesis using run fr(1) app by blast
qed

end
