(* ===== verification/Uthash_Bloom.thy ===== *)
theory Uthash_Bloom
  imports Uthash "HOL-Library.Monad_Syntax"
begin

text \<open>
  The bloom filter that a build with \<open>HASH_BLOOM\<close> puts before every search of \<open>userspace/inc/uthash.h\<close>
  (this program does not define it): one bit for each value of the low bits of a hash.  An absent
  answer is always right, and a present one exactly when a hash with the same low bits was added.
\<close>

subsection \<open>The macros\<close>

text \<open>\<open>nbits\<close> is \<open>HASH_BLOOM\<close>, below 64; the bytes are a list, an access outside it is \<open>None\<close>.\<close>

definition HASH_BLOOM_BITLEN :: "nat \<Rightarrow> u64" where
  "HASH_BLOOM_BITLEN nbits = push_bit nbits 1"

definition HASH_BLOOM_BYTELEN :: "nat \<Rightarrow> u64" where
  "HASH_BLOOM_BYTELEN nbits =
    HASH_BLOOM_BITLEN nbits div 8 + (if HASH_BLOOM_BITLEN nbits mod 8 \<noteq> 0 then 1 else 0)"

text \<open>\<open>None\<close>: the allocation failed.\<close>

definition HASH_BLOOM_MAKE :: "bool \<Rightarrow> nat \<Rightarrow> u8 list option" where
  "HASH_BLOOM_MAKE malloc_ok nbits =
    (if malloc_ok then Some (replicate (unat (HASH_BLOOM_BYTELEN nbits)) 0) else None)"

definition HASH_BLOOM_BITSET :: "u8 list \<Rightarrow> u32 \<Rightarrow> u8 list option" where
  "HASH_BLOOM_BITSET bv idx =
    (let i = unat (idx div 8)
     in if i < length bv then Some (bv[i := bv ! i OR push_bit (unat (idx mod 8)) 1]) else None)"

definition HASH_BLOOM_BITTEST :: "u8 list \<Rightarrow> u32 \<Rightarrow> bool option" where
  "HASH_BLOOM_BITTEST bv idx =
    (let i = unat (idx div 8)
     in if i < length bv then Some (bv ! i AND push_bit (unat (idx mod 8)) 1 \<noteq> 0) else None)"

definition bloom_index :: "nat \<Rightarrow> u32 \<Rightarrow> u32" where
  "bloom_index nbits hv = hv AND ucast ((push_bit nbits 1 :: u64) - 1)"

definition HASH_BLOOM_ADD :: "nat \<Rightarrow> u32 \<Rightarrow> u8 list \<Rightarrow> u8 list option" where
  "HASH_BLOOM_ADD nbits hv bv = HASH_BLOOM_BITSET bv (bloom_index nbits hv)"

definition HASH_BLOOM_TEST :: "nat \<Rightarrow> u8 list \<Rightarrow> u32 \<Rightarrow> bool option" where
  "HASH_BLOOM_TEST nbits bv hv = HASH_BLOOM_BITTEST bv (bloom_index nbits hv)"

subsection \<open>The bits as a set\<close>

definition bloom_bits :: "u8 list \<Rightarrow> nat set" where
  "bloom_bits bv = {k. k div 8 < length bv \<and> bit (bv ! (k div 8)) (k mod 8)}"

lemma bittest_bits:
  assumes "unat idx < 8 * length bv"
  shows "HASH_BLOOM_BITTEST bv idx = Some (unat idx \<in> bloom_bits bv)"
proof -
  have "unat idx div 8 < length bv" using assms by (simp add: less_mult_imp_div_less mult.commute)
  then show ?thesis
    by (simp add: HASH_BLOOM_BITTEST_def bloom_bits_def unat_div unat_mod bit_iff_and_push_bit_not_eq_0)
qed

lemma bitset_bits:
  assumes "unat idx < 8 * length bv"
  shows "\<exists>bv'. HASH_BLOOM_BITSET bv idx = Some bv' \<and> length bv' = length bv \<and>
    bloom_bits bv' = insert (unat idx) (bloom_bits bv)"
proof -
  let ?i = "unat idx div 8" and ?b = "push_bit (unat idx mod 8) 1 :: u8"
  have i: "?i < length bv" using assms by (simp add: less_mult_imp_div_less mult.commute)
  have b: "bit ?b (k mod 8) \<longleftrightarrow> k mod 8 = unat idx mod 8" for k
    using mod_less_divisor [of 8 "unat idx"] by (auto simp: bit_push_bit_iff bit_1_iff simp flip: push_bit_of_1)
  have "k \<in> bloom_bits (bv[?i := bv ! ?i OR ?b]) \<longleftrightarrow> k = unat idx \<or> k \<in> bloom_bits bv" for k
  proof (cases "k div 8 = ?i")
    case True
    then have "k mod 8 = unat idx mod 8 \<longleftrightarrow> k = unat idx" by (metis div_mult_mod_eq)
    then show ?thesis using True i by (auto simp: bloom_bits_def bit_or_iff b b [unfolded push_bit_of_1])
  next
    case False
    then show ?thesis by (auto simp: bloom_bits_def)
  qed
  then have "bloom_bits (bv[?i := bv ! ?i OR ?b]) = insert (unat idx) (bloom_bits bv)" by blast
  moreover have "HASH_BLOOM_BITSET bv idx = Some (bv[?i := bv ! ?i OR ?b])"
    using i by (simp add: HASH_BLOOM_BITSET_def unat_div unat_mod Let_def)
  ultimately show ?thesis by simp
qed

lemma bloom_index_low_bits: "bloom_index nbits hv = take_bit nbits hv"
proof -
  have "(push_bit nbits 1 :: u64) - 1 = mask nbits" by (simp add: mask_eq_exp_minus_1 push_bit_of_1)
  moreover have "(ucast (mask nbits :: u64) :: u32) AND hv = mask nbits AND hv" for hv
    by (rule bit_word_eqI) (auto simp: bit_simps)
  ultimately show ?thesis by (simp add: bloom_index_def take_bit_eq_mask and.commute)
qed

text \<open>Every index lies in the bytes allocated.\<close>

lemma bloom_index_inside:
  assumes "nbits < 64"
  shows "unat (bloom_index nbits hv) < 8 * unat (HASH_BLOOM_BYTELEN nbits)"
proof -
  have u: "unat (HASH_BLOOM_BITLEN nbits) = 2 ^ nbits"
    using assms power_strict_increasing [of nbits 64 "2 :: nat"]
    unfolding HASH_BLOOM_BITLEN_def unsigned_push_bit_eq by (simp add: take_bit_nat_eq_self)
  have "unat (HASH_BLOOM_BYTELEN nbits) = 2 ^ nbits div 8 + (if 2 ^ nbits mod 8 \<noteq> (0::nat) then 1 else 0)"
  proof -
    have m: "HASH_BLOOM_BITLEN nbits mod 8 = 0 \<longleftrightarrow> 2 ^ nbits mod 8 = (0::nat)"
    proof -
      have "HASH_BLOOM_BITLEN nbits mod 8 = 0 \<longleftrightarrow> unat (HASH_BLOOM_BITLEN nbits mod 8) = 0"
        by (simp only: unat_eq_zero)
      also have "unat (HASH_BLOOM_BITLEN nbits mod 8) = 2 ^ nbits mod 8" by (simp add: unat_mod u)
      finally show ?thesis .
    qed
    have d: "unat (HASH_BLOOM_BITLEN nbits div 8) = 2 ^ nbits div 8" by (simp add: unat_div u)
    have "2 ^ nbits div 8 + 1 < (2::nat) ^ 64"
      using power_strict_increasing [OF assms, of "2 :: nat"] by simp
    then have "unat (HASH_BLOOM_BITLEN nbits div 8) + unat (1 :: u64) < 2 ^ LENGTH(64)"
      unfolding d by simp
    then have a: "unat (HASH_BLOOM_BITLEN nbits div 8 + 1) = 2 ^ nbits div 8 + 1"
      unfolding unat_add_lem by (simp only: d unsigned_1)
    show ?thesis unfolding HASH_BLOOM_BYTELEN_def m
      by (cases "2 ^ nbits mod 8 = (0::nat)") (simp_all only: d a simp_thms if_True if_False add_0_right)
  qed
  moreover have "unat (bloom_index nbits hv) < 2 ^ nbits"
    unfolding bloom_index_low_bits by (simp add: unsigned_take_bit_eq take_bit_nat_less_exp)
  moreover have "k \<le> 8 * (k div 8 + (if k mod 8 \<noteq> 0 then 1 else 0))" for k :: nat
    by (cases "k mod 8 = 0") (simp_all, presburger+)
  ultimately show ?thesis by (metis order_less_le_trans)
qed

subsection \<open>The filter\<close>

fun bloom_adds :: "nat \<Rightarrow> u32 list \<Rightarrow> u8 list \<Rightarrow> u8 list option" where
  "bloom_adds nbits [] bv = Some bv"
| "bloom_adds nbits (hv # hs) bv = do { bv' \<leftarrow> HASH_BLOOM_ADD nbits hv bv; bloom_adds nbits hs bv' }"

lemma bloom_adds_bits:
  assumes "nbits < 64" "length bv = unat (HASH_BLOOM_BYTELEN nbits)"
  shows "\<exists>bv'. bloom_adds nbits hs bv = Some bv' \<and> length bv' = length bv \<and>
    bloom_bits bv' = (\<lambda>x. unat (take_bit nbits x)) ` set hs \<union> bloom_bits bv"
  using assms(2)
proof (induction hs arbitrary: bv)
  case (Cons x hs)
  have "unat (bloom_index nbits x) < 8 * length bv" using bloom_index_inside [OF assms(1)] Cons.prems by simp
  from bitset_bits [OF this] obtain bv1 where 1: "HASH_BLOOM_ADD nbits x bv = Some bv1" "length bv1 = length bv"
    "bloom_bits bv1 = insert (unat (take_bit nbits x)) (bloom_bits bv)"
    unfolding HASH_BLOOM_ADD_def bloom_index_low_bits by blast
  have "length bv1 = unat (HASH_BLOOM_BYTELEN nbits)" using 1(2) Cons.prems by simp
  from Cons.IH [OF this] 1 show ?case by auto
qed simp

text \<open>
  A filter made for hashes of up to 63 bits: no access is outside the bytes, and a test says yes exactly
  when a hash with the same low bits was added, so never no for one that was.
\<close>

lemma bloom_filter_exact:
  assumes "nbits < 64" "HASH_BLOOM_MAKE True nbits = Some bv"
  shows "\<exists>bv'. bloom_adds nbits hs bv = Some bv' \<and>
    (\<forall>hv. HASH_BLOOM_TEST nbits bv' hv = Some (take_bit nbits hv \<in> take_bit nbits ` set hs))"
proof -
  have bv: "bv = replicate (unat (HASH_BLOOM_BYTELEN nbits)) 0" using assms(2) by (simp add: HASH_BLOOM_MAKE_def)
  then have "bloom_bits bv = {}" by (auto simp: bloom_bits_def)
  then obtain bv' where r: "bloom_adds nbits hs bv = Some bv'" "length bv' = length bv"
    "bloom_bits bv' = (\<lambda>x. unat (take_bit nbits x)) ` set hs"
    using bloom_adds_bits [OF assms(1), of bv hs] bv by auto
  have "HASH_BLOOM_TEST nbits bv' v = Some (take_bit nbits v \<in> take_bit nbits ` set hs)" for v
  proof -
    have "unat (bloom_index nbits v) < 8 * length bv'" using bloom_index_inside [OF assms(1)] r(2) bv by simp
    from bittest_bits [OF this] show ?thesis
      unfolding HASH_BLOOM_TEST_def r(3) bloom_index_low_bits by (auto simp: word_unat_eq_iff)
  qed
  then show ?thesis using r(1) by blast
qed

end
