(* ===== verification/Hash_Functions.thy ===== *)
theory Hash_Functions
  imports Uthash
begin

text \<open>
  The other hash functions of \<open>userspace/inc/uthash.h\<close>, which a program selects by \<open>HASH_FUNCTION\<close>
  (this one keeps Jenkins', in \<open>Uthash\<close>): Bernstein's, shift-add-xor, FNV-1a, one-at-a-time and Hsieh's.
\<close>

subsection \<open>Byte by byte\<close>

abbreviation (input) byte_of :: "char \<Rightarrow> u32" where "byte_of c \<equiv> of_char c"

definition HASH_BER :: "string \<Rightarrow> u32" where
  "HASH_BER key = fold (\<lambda>c hv. (push_bit 5 hv + hv) + byte_of c) key 0"

definition HASH_SAX :: "string \<Rightarrow> u32" where
  "HASH_SAX key = fold (\<lambda>c hv. hv XOR (push_bit 5 hv + drop_bit 2 hv + byte_of c)) key 0"

definition HASH_FNV :: "string \<Rightarrow> u32" where
  "HASH_FNV key = fold (\<lambda>c hv. (hv XOR byte_of c) * 16777619) key 2166136261"

definition oat_step :: "char \<Rightarrow> u32 \<Rightarrow> u32" where
  "oat_step c hv = (let h1 = hv + byte_of c; h2 = h1 + push_bit 10 h1 in h2 XOR drop_bit 6 h2)"

definition HASH_OAT :: "string \<Rightarrow> u32" where
  "HASH_OAT key =
    (let h0 = fold oat_step key 0;
         h1 = h0 + push_bit 3 h0;
         h2 = h1 XOR drop_bit 11 h1
     in h2 + push_bit 15 h2)"

subsection \<open>Hsieh's\<close>

definition get16bits :: "string \<Rightarrow> nat \<Rightarrow> u32" where
  "get16bits key n = push_bit 8 (key_byte key (n + 1)) + key_byte key n"

fun sfh_blocks :: "nat \<Rightarrow> string \<Rightarrow> u32 \<Rightarrow> string \<times> u32" where
  "sfh_blocks 0 key hv = (key, hv)"
| "sfh_blocks (Suc sfh_len) key hv =
    (let h1 = hv + get16bits key 0;
         sfh_tmp = push_bit 11 (get16bits key 2) XOR h1;
         h2 = push_bit 16 h1 XOR sfh_tmp
     in sfh_blocks sfh_len (drop 4 key) (h2 + drop_bit 11 h2))"

definition sfh_tail :: "nat \<Rightarrow> string \<Rightarrow> u32 \<Rightarrow> u32" where
  "sfh_tail sfh_rem key hv =
    (if sfh_rem = 3 then
       (let h1 = hv + get16bits key 0;
            h2 = h1 XOR push_bit 16 h1;
            h3 = h2 XOR push_bit 18 (key_byte key 2)
        in h3 + drop_bit 11 h3)
     else if sfh_rem = 2 then
       (let h1 = hv + get16bits key 0;
            h2 = h1 XOR push_bit 11 h1
        in h2 + drop_bit 17 h2)
     else if sfh_rem = 1 then
       (let h1 = hv + key_byte key 0;
            h2 = h1 XOR push_bit 10 h1
        in h2 + drop_bit 1 h2)
     else hv)"

definition HASH_SFH :: "string \<Rightarrow> u32" where
  "HASH_SFH key =
    (case sfh_blocks (length key div 4) key 0xcafebabe of
       (rest, hv) \<Rightarrow>
         (let h0 = sfh_tail (length key mod 4) rest hv;
              h1 = h0 XOR push_bit 3 h0;
              h2 = h1 + drop_bit 5 h1;
              h3 = h2 XOR push_bit 4 h2;
              h4 = h3 + drop_bit 17 h3;
              h5 = h4 XOR push_bit 25 h4
          in h5 + drop_bit 6 h5))"

subsection \<open>What they compute\<close>

lemma published_values:
  "HASH_FNV '''' = 0x811c9dc5" "HASH_FNV ''a'' = 0xe40c292c" "HASH_FNV ''foobar'' = 0xbf9cf968"
  "HASH_OAT ''a'' = 0xca2e9442" "HASH_OAT ''The quick brown fox jumps over the lazy dog'' = 0x519e91f5"
  by code_simp+

text \<open>Bernstein's hash is the key read as a number to the base 33.\<close>

lemma HASH_BER_append: "HASH_BER (xs @ ys) = HASH_BER xs * 33 ^ length ys + HASH_BER ys"
proof -
  have f: "(\<lambda>c hv. (push_bit 5 hv + hv) + byte_of c) = (\<lambda>c hv. hv * 33 + byte_of c)"
    by (auto simp: fun_eq_iff push_bit_eq_mult)
  have g: "fold (\<lambda>c hv. hv * 33 + byte_of c) ys h = h * 33 ^ length ys + fold (\<lambda>c hv. hv * 33 + byte_of c) ys 0" for h
  proof (induction ys arbitrary: h)
    case (Cons c ys)
    show ?case using Cons [of "h * 33 + byte_of c"] Cons [of "byte_of c"] by (simp add: algebra_simps)
  qed simp
  show ?thesis unfolding HASH_BER_def f fold_append o_def by (rule g)
qed

lemma byte_of_inj: "byte_of c = byte_of d \<longleftrightarrow> c = d"
proof
  assume e: "byte_of c = byte_of d"
  have "(of_char x :: nat) < 256" for x by (metis char_of_char of_char_of mod_less_divisor zero_less_numeral)
  then have "unat (of_nat (of_char x) :: u32) = of_char x" for x
    using order_less_trans [of "of_char x :: nat" 256 "2 ^ 32"] by (simp add: unat_of_nat take_bit_nat_eq_self)
  then have "unat (byte_of x) = of_char x" for x by (simp only: of_nat_of_char)
  then have "(of_char c :: nat) = of_char d" using e by metis
  then show "c = d" by simp
qed simp

text \<open>FNV-1a never loses information: its multiplier is invertible, so keys that differ in one byte only have different hashes.\<close>

lemma fnv_prime_inj: "v * 16777619 = w * (16777619 :: u32) \<longleftrightarrow> v = w"
proof
  assume "v * 16777619 = w * (16777619 :: u32)"
  then have e: "v * (16777619 * 899433627) = w * (16777619 * (899433627 :: u32))" by (simp only: mult.assoc [symmetric])
  have "16777619 * (899433627 :: u32) = 1" by simp
  then show "v = w" using e by (simp only: mult_1_right)
qed simp

lemma fnv_step_inj: "((h XOR byte_of c) * 16777619 :: u32) = (h' XOR byte_of c) * 16777619 \<longleftrightarrow> h = h'"
proof
  assume "((h XOR byte_of c) * 16777619 :: u32) = (h' XOR byte_of c) * 16777619"
  then have "h XOR byte_of c = h' XOR byte_of c" by (simp only: fnv_prime_inj)
  then have "(h XOR byte_of c) XOR byte_of c = (h' XOR byte_of c) XOR byte_of c" by simp
  then show "h = h'" by (simp add: xor.assoc)
qed simp

lemma fnv_fold_inj:
  "fold (\<lambda>c hv. (hv XOR byte_of c) * 16777619) ys h = fold (\<lambda>c hv. (hv XOR byte_of c) * 16777619) ys h' \<longleftrightarrow> h = (h' :: u32)"
  by (induction ys arbitrary: h h') (simp_all add: fnv_step_inj)

lemma HASH_FNV_one_byte: "HASH_FNV (xs @ c # ys) = HASH_FNV (xs @ d # ys) \<longleftrightarrow> c = d"
proof -
  let ?h = "fold (\<lambda>c hv. (hv XOR byte_of c) * 16777619) xs (2166136261 :: u32)"
  have "HASH_FNV (xs @ c # ys) = HASH_FNV (xs @ d # ys) \<longleftrightarrow>
      (byte_of c XOR ?h) * 16777619 = (byte_of d XOR ?h) * (16777619 :: u32)"
    by (simp add: HASH_FNV_def fnv_fold_inj xor.commute)
  also have "\<dots> \<longleftrightarrow> c = d"
  proof
    assume "(byte_of c XOR ?h) * 16777619 = (byte_of d XOR ?h) * (16777619 :: u32)"
    then have "byte_of c XOR ?h = byte_of d XOR ?h" by (simp only: fnv_prime_inj)
    then have "(byte_of c XOR ?h) XOR ?h = (byte_of d XOR ?h) XOR ?h" by simp
    then show "c = d" by (simp add: xor.assoc byte_of_inj)
  qed simp
  finally show ?thesis .
qed

end
