(* ===== verification/Spec2Isabelle.thy ===== *)
theory Spec2Isabelle
  imports Cpu_Device Cpu_Liveness Cpu_Readers Driver_Init Typed_Programs Cache_Belady Assembler_Roundtrip
    Uthash_Map Uthash_Select Uthash_Bloom Hash_Functions
begin

text \<open>
  A verification of the Raspberry Pi CPU emulator and cache simulator.

  The program has three parts.  The CPU driver (\<open>cpu_driver/cpu_emulator_driver.c\<close>) executes, behind
  \<open>/dev/cpu_emulator\<close>, one instruction per read, when its switches allow it.  The trace collector
  (\<open>trace_collector_driver/trace_collector_driver.c\<close>) queues memory accesses behind
  \<open>/dev/trace_collector\<close>.  The userspace program assembles a source file (\<open>assembler.c\<close>, with the hash
  table of \<open>inc/uthash.h\<close>), loads it into a byte array, drives the CPU device in a loop, serving its
  memory requests and recording every access (\<open>cpu_emulator_userspace.c\<close>), and finally replays the
  recorded accesses through a simulated cache hierarchy (\<open>cache_simulator.c\<close>); \<open>main.c\<close> is the sequence
  of these.

  Theories and code, in the order of their imports.

  \<^item> \<open>Rpi_Prelude\<close>: integer types, fact collections and generic lemmas.  \<open>Uapi\<close>: \<open>cpu_uapi.h\<close>.
  \<^item> \<open>Cpu_Core\<close>: \<open>my_cpu\<close> and \<open>execute_instruction\<close> with its helpers, one definition per opcode.
    \<open>Cpu_Isa\<close>: an abstract instruction set, the proof that \<open>execute_instruction\<close> implements it, and
    what follows for errors, flags, LEDs, comparisons and memory requests.
  \<^item> \<open>Cpu_Gate\<close>: the run, pause and step counters, the interrupt handlers and the reader's wait, as a
    step relation at the grain of the atomic accesses; the step counter is a 32-bit word and wraps.  \<open>Cpu_Wait\<close>: the wait of \<open>cpu_read\<close> in detail
    (queueing, reading the counters one by one, sleeping, the handlers' wake-ups), which refines the
    coarse one and loses no wake-up, unless another process opens the device.  \<open>Cpu_Liveness\<close>: fair runs of it, in which calls get through.
    \<open>Cpu_Readers\<close>: several processes reading, which share the step counter.
    \<open>Cpu_Device\<close>: \<open>cpu_open\<close>, \<open>cpu_write\<close>, \<open>cpu_read\<close>, \<open>cpu_release\<close>.
  \<^item> \<open>Trace_Device\<close> (the contract of the collector as a locale) and \<open>Trace_Collector\<close> (the chunk list,
    which satisfies it).
  \<^item> \<open>Cache_Config\<close>: the configuration dialogue and \<open>cache_init\<close>.  \<open>Victim_Policy\<close> (the contract of
    a replacement policy as a locale), \<open>Cache_Level\<close> (\<open>cache_access\<close> and both policies as instances),
    \<open>Cache_Lru\<close> (the stack model of LRU), \<open>Cache_Opt\<close> (the optimal policy), \<open>Cache_Run\<close>
    (\<open>load_traces\<close>, the simulation loop and the report).  \<open>Paging\<close> (serving a sequence of blocks with
    so many misses; evicting the one needed last has the fewest) and \<open>Cache_Belady\<close> (the optimal
    policy on one set has the fewest misses, so no more than LRU).
  \<^item> \<open>Word_Memory\<close> (memory of words as a locale), \<open>Memory\<close> (the byte array, \<open>fetch_next\<close>,
    \<open>store_machine_code\<close>), \<open>Emulator\<close> (\<open>run\<close> over the models of both devices, and the abstract
    machine it implements).
  \<^item> \<open>Label_Table\<close> (the contract of a label table as a locale), \<open>Uthash\<close> (Jenkins' hash, search, adding
    and expansion, which satisfy it), \<open>C_Text\<close> (\<open>strtoull\<close>, \<open>fgets\<close>, search loops), \<open>Assembler\<close>
    (\<open>assembler.c\<close>), \<open>Assembler_Spec\<close> (the reference assembler and the refinement), \<open>Assembler_Split\<close>
    (\<open>split_by_char\<close> in terms of words, and faults), \<open>Assembler_Roundtrip\<close> (writing and reading back
    instructions).
  \<^item> \<open>Linked_Lists\<close> (doubly linked segments), \<open>Uthash_Heap\<close> (the same hash table at the level of
    pointers, with deletion, iteration and the clean-up of \<open>parse_assembly\<close>), \<open>Uthash_Memory\<close> (the
    pointers represent the lists of \<open>Uthash\<close>: finding, assigning, adding, expanding) and
    \<open>Label_Memory\<close> (deletion and clean-up; a whole first pass in memory).
  \<^item> More of \<open>inc/uthash.h\<close> on the same pointers: \<open>Uthash_Check\<close> (the integrity check of a debug build
    and what it accepts; the counters under deletions; the item count), \<open>Merge_Runs\<close> and \<open>Uthash_Sort\<close>
    (the merge sort of the list in application order), \<open>Uthash_Order\<close> (adding in order),
    \<open>Uthash_Replace\<close> (replacing an entry, clearing the table), \<open>Uthash_Map\<close> (any sequence of assignments,
    deletions, additions in order, replacements, sorts and clearings is one on a finite map),
    \<open>Uthash_Select\<close> (selecting entries into a second table), \<open>Uthash_Bloom\<close> (the bloom filter) and
    \<open>Hash_Functions\<close> (the hash functions that can replace Jenkins').
  \<^item> \<open>Kernel_Services\<close> and \<open>Driver_Init\<close>: loading and unloading both modules.
  \<^item> \<open>Program\<close>: \<open>main.c\<close>; the property of the whole program is in this theory.  \<open>Typed_Programs\<close>: a
    static check of instruction operands, under which the program never goes wrong.

  How the code is rendered.  A structure is a record, an unsigned integer and a signed one that is
  computed with (the step counter) a word of its width, a status or a pin value an integer.  Mutation
  is state passing.  What comes from outside (pin values, copies, signals, allocations that the code
  checks, outcomes of kernel calls, user input, files) is an argument of the definitions.  A null dereference, an access outside the memory array and an overrun are results of
  their own (\<open>kfault\<close>, \<open>None\<close>, \<open>Segfault\<close>, \<open>asm_fault\<close>, \<open>Overrun\<close>, \<open>Faults\<close>).

  Loops and bounds.  Loops that end are structural or come with a measure.  The two that need not end,
  \<open>run_loop\<close> and \<open>load_loop\<close>, are partial functions, with theorems that they return where that holds.
  So are the loops over pointers (\<open>find_in_chain_ptr\<close>, \<open>move_chain\<close>, \<open>free_labels\<close>, the walks of
  \<open>HASH_FSCK\<close>, the loops of \<open>HASH_SRT\<close>, \<open>akbi_inner_loop\<close>, \<open>select_chain\<close>), which return on every well formed table; the
  sort for fewer than \<open>2 ^ 32\<close> items, so that the doubled length of the runs does not wrap.
  \<open>machine_run\<close> takes fuel; programs without jumps need as much as they have instructions.  The step
  counter wraps after \<open>2 ^ 31\<close> presses that are not consumed: what holds only before that says so.  The hash
  table's theorems hold for up to 188 labels, or entries added over a table's life: an expansion then
  leaves every chain 7 items below its threshold, so the bucket count stays below \<open>2 ^ 32\<close>; labels have
  at most 63 characters because longer ones are cut.

  Not modelled: log messages, prompts, percentages and other printing; the padding of the structures;
  the order in which several sleepers wake; freeing the arrays at the end; failed allocations in the
  assembler, the simulator's unchecked ones and the hash table's, which exits; device node modes; of that
  third-party header, the variants for recoverable allocation failures and the size estimate
  \<open>HASH_OVERHEAD\<close>, which the program never uses; build files and \<open>run.sh\<close>.
\<close>

subsection \<open>The program as a whole\<close>

text \<open>
  C1.  The program as a whole: given a source file whose labels fit the table and that the reference
  assembler translates into instructions that fit the memory, over a freshly loaded collector and
  undisturbed devices, when the abstract machine runs these instructions from reset to a normal end, the
  program ends with success and its report is the cache simulation of the machine's log of accesses.
\<close>

theorem main_program_correct:
  assumes "argv w = [prog, arg]" "length arg \<le> 121" "files w (''./doc/'' @ arg) = Some src"
    and "labels_fit (asm_lines src)" "assemble (label_map (asm_lines src)) (asm_lines src) = Inr (is, texts)"
    and "length is * INSTR_SIZE + INSTR_SIZE \<le> MEM_SIZE"
    and "store_machine_code no_memory MEM_SIZE is (length is) = Some m"
    and "cpu_opens w = (run_val, 0, True)" "run_val > 0" "trace_opens w" "kmalloc_start w \<noteq> None"
    and "undisturbed (environment w)"
    and "machine_run (length is) (\<lambda>k. pin (environment w k)) fuel 0 (reset_machine m) = Some (Finished 0, M')"
    and "malloc_traces w" "open_traces w" "\<And>n. realloc_traces w n"
    and "configure_cache_sim_parameters (stack_word w) initial_globals (typed w) = Some (g0, rest)"
    and "simulate (log M') (length (log M')) (g0, init_levels g0 (stack_levels w)) = (g', h)"
  shows "main_program w g b trace_buffer_init =
    Some (Exit_success (Some (make_report (log M') (length (log M')) g' h)))"
  unfolding main_assembles [OF assms(1-5)] by (rule run_program_report [OF assms(6-18)])


theorem main_program_correct_witness:
  "\<exists>rep. main_program demo_host gate_init dark_board trace_buffer_init = Some (Exit_success (Some rep)) \<and>
    rep_total rep = 2"
proof -
  have l: "asm_lines one_line_src = [Code ''MOV R1, 5'' (''MOV R1, 5'' @ [NEWLINE])]"
    by code_simp
  have fit: "labels_fit (asm_lines one_line_src)" unfolding l by (simp add: labels_fit_def)
  have a: "assemble (label_map (asm_lines one_line_src)) (asm_lines one_line_src) =
      Inr (two_line_program, [''MOV R1, 5'', ''HALT''])"
    unfolding l by code_simp
  obtain m where s: "store_machine_code no_memory MEM_SIZE two_line_program 2 = Some m"
    using store_program [of 2 two_line_program no_memory] by (simp add: store_machine_code_def)
  have "fetch_next m 0 = Some (ins MOV_OP IMMEDIATE 1 5)" "fetch_next m 11 = Some (ins MOV_OP DIRECT_STORE 0 0xFFFF)"
    using fetch_stored [OF _ _ s, of 0] fetch_stored [OF _ _ s, of 1] by auto
  from two_line_run [OF this] obtain M' where r: "machine_run 2 (\<lambda>_. 0) (Suc (Suc 0)) 0 (reset_machine m) = Some (Finished 0, M')"
    "length (log M') = 2" by auto
  let ?g = "\<lparr>global_timer = 0, num_lvls = 1, line_size = 16, assoc = [1, 0, 0], lvl_size = [16, 0, 0],
      policy = ALG_LRU\<rparr>"
  obtain g' h where sim: "simulate (log M') (length (log M'))
      (?g, init_levels ?g \<lparr>l1 = blank_level, l2 = blank_level, l3 = blank_level\<rparr>) = (g', h)" by fastforce
  have s': "store_machine_code no_memory MEM_SIZE two_line_program (length two_line_program) = Some m"
    using s by (simp add: numeral_2_eq_2)
  have r': "machine_run (length two_line_program) (\<lambda>k. pin (environment demo_host k)) (Suc (Suc 0)) 0 (reset_machine m) =
      Some (Finished 0, M')"
    using r(1) by (simp add: demo_host_def numeral_2_eq_2 del: machine_run.simps)
  have "main_program demo_host gate_init dark_board trace_buffer_init =
      Some (Exit_success (Some (make_report (log M') (length (log M')) g' h)))"
    by (rule main_program_correct [OF _ _ _ fit a _ s' _ _ _ _ _ r', where run_val = 1 and ?g0.0 = ?g and rest = "[]"])
      (use sim demo_config quiet_undisturbed in \<open>simp_all add: demo_host_def\<close>)
  moreover have "rep_total (make_report (log M') (length (log M')) g' h) = 2"
    by (simp add: make_report_def Let_def r(2))
  ultimately show ?thesis by blast
qed

end
